(* ===== verification/Prelude.thy ===== *)
theory Prelude
  imports Main "HOL-Library.Word" "HOL-Library.Monad_Syntax"
begin

text \<open>
  Shared vocabulary of the development. The C++ \<^verbatim>\<open>char\<close> is an 8-bit unit, as Isabelle's
  \<^typ>\<open>char\<close> is, so \<^verbatim>\<open>std::string\<close>, \<^verbatim>\<open>std::vector<char>\<close> and raw byte ranges are all
  \<^typ>\<open>string\<close>. Fixed-width integers are words; \<^verbatim>\<open>size_t\<close> values are lengths of objects in
  memory and are naturals, with the invariants showing that no subtraction underflows.
  The theory also holds the memory primitives (\<^verbatim>\<open>memcpy\<close>, \<^verbatim>\<open>vector::resize\<close>), the
  lists as queues lemmas, and the generic notion of a transition system with its
  invariant rule, which every concurrent component instantiates.
\<close>

section \<open>Types\<close>

type_synonym u16 = "16 word"
type_synonym u32 = "32 word"
type_synonym u64 = "64 word"

text \<open>The collections of simplification rules the components fill and use.\<close>

named_theorems mem_simps
named_theorems queue_simps
named_theorems wire_simps

section \<open>Raw memory\<close>

text \<open>\<^verbatim>\<open>memcpy(base + i, src, n)\<close> on a vector: the \<open>n\<close> bytes from index \<open>i\<close> are replaced.\<close>

definition mem_write :: "'a list \<Rightarrow> nat \<Rightarrow> 'a list \<Rightarrow> 'a list" where
  "mem_write xs i ys = take i xs @ ys @ drop (i + length ys) xs"

text \<open>\<^verbatim>\<open>std::vector<char>::resize\<close>: truncate or extend with zero bytes.\<close>

definition vec_resize :: "nat \<Rightarrow> string \<Rightarrow> string" where
  "vec_resize n xs = take n xs @ replicate (n - length xs) (char_of (0::nat))"

section \<open>Sequences of callbacks\<close>

text \<open>Calls in order; the first that fails (an exception, a failed assertion) ends the sequence.\<close>

fun fold_cb :: "('s \<Rightarrow> 'a \<Rightarrow> 's option) \<Rightarrow> 'a list \<Rightarrow> 's \<Rightarrow> 's option" where
  "fold_cb f [] s = Some s"
| "fold_cb f (x # xs) s = do { s' \<leftarrow> f s x; fold_cb f xs s' }"

section \<open>Numbers as text\<close>

text \<open>\<^verbatim>\<open>std::to_string\<close> of an unsigned number.\<close>

fun decimal :: "nat \<Rightarrow> string" where
  "decimal n = (if n < 10 then [char_of (48 + n)] else decimal (n div 10) @ [char_of (48 + n mod 10)])"

declare decimal.simps [simp del]

section \<open>Transition systems\<close>

text \<open>The states a system reaches from its initial states by its step relation.\<close>

inductive reachable :: "('s \<Rightarrow> bool) \<Rightarrow> ('s \<Rightarrow> 's \<Rightarrow> bool) \<Rightarrow> 's \<Rightarrow> bool"
  for init :: "'s \<Rightarrow> bool" and step :: "'s \<Rightarrow> 's \<Rightarrow> bool" where
  reach_init: "init s \<Longrightarrow> reachable init step s"
| reach_step: "reachable init step s \<Longrightarrow> step s t \<Longrightarrow> reachable init step t"

section \<open>Lemmas\<close>

lemma unat_of_nat_u32: "k < 2 ^ 32 \<Longrightarrow> unat (of_nat k :: u32) = k"
  by (simp add: unat_of_nat take_bit_nat_eq_self)

lemma unat_u64_less: "unat (x :: u64) < 2 ^ 64"
  using unsigned_less [of x] by simp

lemma fold_cb_append: "fold_cb f (as @ bs) s = do { s1 \<leftarrow> fold_cb f as s; fold_cb f bs s1 }"
  by (induction as arbitrary: s) (auto split: bind_splits)

lemma insert_dom: "m k = Some v \<Longrightarrow> insert k (dom m) = dom m"
  by auto

lemma length_mem_write [mem_simps]:
  "i + length ys \<le> length xs \<Longrightarrow> length (mem_write xs i ys) = length xs"
  by (simp add: mem_write_def)

lemma take_mem_write [mem_simps]:
  "i \<le> length xs \<Longrightarrow> take (i + length ys) (mem_write xs i ys) = take i xs @ ys"
  by (simp add: mem_write_def)

lemma take_before_mem_write [mem_simps]:
  "n \<le> i \<Longrightarrow> i \<le> length xs \<Longrightarrow> take n (mem_write xs i ys) = take n xs"
  by (simp add: mem_write_def)

lemma length_vec_resize [mem_simps]: "length (vec_resize n xs) = n"
  by (simp add: vec_resize_def)

lemma take_vec_resize [mem_simps]:
  "k \<le> length xs \<Longrightarrow> k \<le> n \<Longrightarrow> take k (vec_resize n xs) = take k xs"
  by (simp add: vec_resize_def)

text \<open>A result computed from a result.\<close>

lemma map_sum_eq_Inr: "map_sum f g s = Inr y \<longleftrightarrow> (\<exists>x. s = Inr x \<and> y = g x)"
  by (cases s) auto

text \<open>
  The invariant rule: a property of the initial states that every step keeps holds in
  every reachable state. A component supplies its machine and its invariant and discharges
  the two laws; the locale then gives the reachability facts.
\<close>

locale invariant_system =
  fixes init :: "'s \<Rightarrow> bool" and step :: "'s \<Rightarrow> 's \<Rightarrow> bool" and inv :: "'s \<Rightarrow> bool"
  assumes inv_init: "init s \<Longrightarrow> inv s"
    and inv_step: "inv s \<Longrightarrow> step s t \<Longrightarrow> inv t"
begin

lemma reachable_inv: "reachable init step s \<Longrightarrow> inv s"
  by (induction rule: reachable.induct) (auto intro: inv_init inv_step)

lemma steps_inv: "step\<^sup>*\<^sup>* s t \<Longrightarrow> inv s \<Longrightarrow> inv t"
  by (induction rule: rtranclp_induct) (auto intro: inv_step)

end

lemma reachable_steps:
  "reachable init step s \<Longrightarrow> step\<^sup>*\<^sup>* s t \<Longrightarrow> reachable init step t"
  by (rotate_tac, induction rule: rtranclp_induct) (auto intro: reach_step)

text \<open>
  Refinement: an abstraction function takes the machine to an abstract one, each step to any
  number of abstract steps. Every run is then the image of a run of the abstract machine.
\<close>

locale refinement_system = invariant_system +
  fixes abs :: "'s \<Rightarrow> 'a" and ainit :: 'a and astep :: "'a \<Rightarrow> 'a \<Rightarrow> bool"
  assumes abs_init: "init s \<Longrightarrow> abs s = ainit"
    and abs_step: "inv s \<Longrightarrow> step s t \<Longrightarrow> astep\<^sup>*\<^sup>* (abs s) (abs t)"
begin

lemma abs_steps: "step\<^sup>*\<^sup>* s t \<Longrightarrow> inv s \<Longrightarrow> astep\<^sup>*\<^sup>* (abs s) (abs t)"
proof (induction rule: rtranclp_induct)
  case (step t u)
  then show ?case using steps_inv abs_step by (meson rtranclp_trans)
qed simp

lemma abs_reachable: "reachable init step s \<Longrightarrow> astep\<^sup>*\<^sup>* ainit (abs s)"
proof (induction rule: reachable.induct)
  case (reach_step s t)
  then show ?case using reachable_inv abs_step by (meson rtranclp_trans)
qed (simp add: abs_init)

end

end
