(* ===== verification/Rpc_Messages.thy ===== *)
theory Rpc_Messages
  imports Prelude
begin

text \<open>
  The messages of \<^verbatim>\<open>proto/rpc.proto\<close> and the class of \<^verbatim>\<open>rpc/rpc_controller.h\<close>, which the server
  and the client share. Protobuf's serialisers are generated code: a record of functions with
  the documented law that parsing a serialised message gives it back.
\<close>

record rpc_request =
  rq_service :: string
  rq_method :: string
  rq_id :: u32
  rq_args :: string

record rpc_response =
  rs_id :: u32
  rs_success :: bool
  rs_result :: string
  rs_error :: string

text \<open>A serialiser is \<^const>\<open>None\<close> where \<^verbatim>\<open>SerializeToString\<close> returns false.\<close>

record protobuf =
  ser_request :: "rpc_request \<Rightarrow> string option"
  parse_request :: "string \<Rightarrow> rpc_request option"
  ser_response :: "rpc_response \<Rightarrow> string option"
  parse_response :: "string \<Rightarrow> rpc_response option"

definition protobuf_ok :: "protobuf \<Rightarrow> bool" where
  "protobuf_ok P \<longleftrightarrow>
     (\<forall>m s. ser_request P m = Some s \<longrightarrow> parse_request P s = Some m) \<and>
     (\<forall>m s. ser_response P m = Some s \<longrightarrow> parse_response P s = Some m)"

section \<open>RpcController\<close>

record rpc_controller =
  ctl_failed :: bool
  ctl_err_text :: string

definition controller_new :: rpc_controller where
  "controller_new = \<lparr>ctl_failed = False, ctl_err_text = []\<rparr>"

definition controller_Reset :: "rpc_controller \<Rightarrow> rpc_controller" where
  "controller_Reset c = c\<lparr>ctl_failed := False, ctl_err_text := []\<rparr>"

definition SetFailed :: "string \<Rightarrow> rpc_controller \<Rightarrow> rpc_controller" where
  "SetFailed reason c = c\<lparr>ctl_failed := True, ctl_err_text := reason\<rparr>"

definition StartCancel :: "rpc_controller \<Rightarrow> rpc_controller" where
  "StartCancel c = c"

definition IsCanceled :: "rpc_controller \<Rightarrow> bool" where
  "IsCanceled c = False"

section \<open>An encoding for concrete runs\<close>

text \<open>
  A serialiser that satisfies the law, so that the theorems' assumptions on protobuf can be met
  on concrete inputs: each string is preceded by its length in unary.
\<close>

definition put_str :: "string \<Rightarrow> string" where
  "put_str s = replicate (length s) CHR ''1'' @ CHR ''0'' # s"

fun get_len :: "string \<Rightarrow> nat \<times> string" where
  "get_len [] = (0, [])"
| "get_len (c # cs) = (if c = CHR ''1'' then case get_len cs of (n, r) \<Rightarrow> (Suc n, r) else (0, cs))"

definition get_str :: "string \<Rightarrow> string \<times> string" where
  "get_str s = (case get_len s of (n, r) \<Rightarrow> (take n r, drop n r))"

definition put_word :: "u32 \<Rightarrow> string" where
  "put_word w = map (\<lambda>k. if bit w k then CHR ''1'' else CHR ''0'') [0..<32]"

definition get_word :: "string \<Rightarrow> u32" where
  "get_word s = horner_sum of_bool 2 (map (\<lambda>c. c = CHR ''1'') (take 32 s))"

definition demo_parse_request :: "string \<Rightarrow> rpc_request option" where
  "demo_parse_request s =
     (case get_str (drop 32 s) of (svc, r1) \<Rightarrow>
      case get_str r1 of (mth, r2) \<Rightarrow>
      case get_str r2 of (args, r3) \<Rightarrow>
        if length s < 32 then None
        else Some \<lparr>rq_service = svc, rq_method = mth, rq_id = get_word s, rq_args = args\<rparr>)"

definition demo_parse_response :: "string \<Rightarrow> rpc_response option" where
  "demo_parse_response s =
     (case get_str (drop 33 s) of (res, r1) \<Rightarrow>
      case get_str r1 of (err, r2) \<Rightarrow>
        if length s < 33 then None
        else Some \<lparr>rs_id = get_word s, rs_success = (s ! 32 = CHR ''1''), rs_result = res, rs_error = err\<rparr>)"

definition demo_protobuf :: protobuf where
  "demo_protobuf =
     \<lparr>ser_request = (\<lambda>m. Some (put_word (rq_id m) @ put_str (rq_service m) @ put_str (rq_method m) @ put_str (rq_args m))),
      parse_request = demo_parse_request,
      ser_response = (\<lambda>m. Some (put_word (rs_id m) @ (if rs_success m then ''1'' else ''0'') @
        put_str (rs_result m) @ put_str (rs_error m))),
      parse_response = demo_parse_response\<rparr>"

lemma get_len_put: "get_len (replicate n CHR ''1'' @ CHR ''0'' # s) = (n, s)"
  by (induction n) auto

lemma get_put_str [simp]: "get_str (put_str s @ r) = (s, r)"
  by (simp add: get_str_def put_str_def get_len_put)

lemma get_put_str_end [simp]: "get_str (put_str s) = (s, [])"
  using get_put_str [of s "[]"] by simp

lemma length_put_word [simp]: "length (put_word w) = 32"
  by (simp add: put_word_def)

lemma get_put_word [simp]: "get_word (put_word w @ r) = w"
proof -
  have "map (\<lambda>c. c = CHR ''1'') (put_word w) = map (bit w) [0..<32]"
    by (auto simp: put_word_def)
  then show ?thesis
    by (simp add: get_word_def horner_sum_bit_eq_take_bit [of w 32, simplified] take_bit_word_eq_self)
qed

lemma demo_protobuf_ok: "protobuf_ok demo_protobuf"
  by (auto simp: protobuf_ok_def demo_protobuf_def demo_parse_request_def demo_parse_response_def nth_append)

end
