(* ===== verification/Buffer.thy ===== *)
theory Buffer
  imports Prelude
begin

text \<open>
  \<^verbatim>\<open>net/buffer.h\<close> and \<^verbatim>\<open>net/buffer.cpp\<close>: the contiguous byte buffer with a read and a
  write index. One definition per member function; a failed \<^verbatim>\<open>assert\<close> is \<^const>\<open>None\<close>.
  The lemmas show that the class implements a queue of bytes: the abstraction
  \<open>contents\<close> is the readable region, and the locale \<open>byte_queue\<close> is the interface the
  codec and the connections rely on.
\<close>

section \<open>The class\<close>

record buffer =
  buf :: string
  read_idx :: nat
  write_idx :: nat

definition kPrependSize :: nat where
  "kPrependSize = 8"

definition kInitialSize :: nat where
  "kInitialSize = 4096"

definition buffer_new :: "nat \<Rightarrow> buffer" where
  "buffer_new initial_size =
     \<lparr>buf = vec_resize (kPrependSize + initial_size) [],
      read_idx = kPrependSize, write_idx = kPrependSize\<rparr>"

definition readable :: "buffer \<Rightarrow> nat" where
  "readable b = write_idx b - read_idx b"

definition writable :: "buffer \<Rightarrow> nat" where
  "writable b = length (buf b) - write_idx b"

definition prependable :: "buffer \<Rightarrow> nat" where
  "prependable b = read_idx b"

text \<open>The bytes from the pointer \<^verbatim>\<open>peek()\<close> to the end of the storage.\<close>

definition peek :: "buffer \<Rightarrow> string" where
  "peek b = drop (read_idx b) (buf b)"

definition has_written :: "nat \<Rightarrow> buffer \<Rightarrow> buffer" where
  "has_written len b = b\<lparr>write_idx := write_idx b + len\<rparr>"

definition reset :: "buffer \<Rightarrow> buffer" where
  "reset b = b\<lparr>read_idx := kPrependSize, write_idx := kPrependSize\<rparr>"

definition grow :: "nat \<Rightarrow> buffer \<Rightarrow> buffer" where
  "grow len b =
     (if len + kPrependSize \<le> writable b + prependable b then
        let readable_bytes = readable b in
        b\<lparr>buf := mem_write (buf b) kPrependSize (take readable_bytes (peek b)),
          read_idx := kPrependSize, write_idx := kPrependSize + readable_bytes\<rparr>
      else b\<lparr>buf := vec_resize (write_idx b + len) (buf b)\<rparr>)"

definition ensure_writable :: "nat \<Rightarrow> buffer \<Rightarrow> buffer" where
  "ensure_writable len b = (if writable b < len then grow len b else b)"

definition append_buf :: "string \<Rightarrow> buffer \<Rightarrow> buffer" where
  "append_buf data b =
     (let b1 = ensure_writable (length data) b in
      has_written (length data) (b1\<lparr>buf := mem_write (buf b1) (write_idx b1) data\<rparr>))"

definition retrieve :: "nat \<Rightarrow> buffer \<Rightarrow> buffer option" where
  "retrieve len b =
     (if len \<le> readable b then
        let b1 = b\<lparr>read_idx := read_idx b + len\<rparr> in
        Some (if read_idx b1 = write_idx b1 then reset b1 else b1)
      else None)"

definition retrieve_as_string :: "nat \<Rightarrow> buffer \<Rightarrow> (string \<times> buffer) option" where
  "retrieve_as_string len b =
     (if len \<le> readable b then
        do { b' \<leftarrow> retrieve len b; Some (take len (peek b), b') }
      else None)"

definition retrieve_all_as_string :: "buffer \<Rightarrow> (string \<times> buffer) option" where
  "retrieve_all_as_string b = retrieve_as_string (readable b) b"

text \<open>
  \<^verbatim>\<open>Buffer::read_fd\<close>. The system call \<^verbatim>\<open>readv\<close> is a parameter: it is given the lengths of
  the I/O vectors and answers with an error number or with the bytes it read, which POSIX
  places into the vectors in order. The result is \<open>Inl errno\<close> for a negative return value.
\<close>

type_synonym readv_call = "nat list \<Rightarrow> int + string"

definition extra_size :: nat where
  "extra_size = 65536"

definition read_iov :: "buffer \<Rightarrow> nat list" where
  "read_iov b =
     (if writable b < extra_size then [writable b, extra_size] else [writable b])"

definition read_fd :: "readv_call \<Rightarrow> buffer \<Rightarrow> (int + nat) \<times> buffer" where
  "read_fd readv b =
     (let writable_bytes = writable b;
          iov = read_iov b
      in case readv iov of
           Inl saved_errno \<Rightarrow> (Inl saved_errno, b)
         | Inr bs \<Rightarrow>
             let n = length bs;
                 b1 = b\<lparr>buf := mem_write (buf b) (write_idx b) (take writable_bytes bs)\<rparr>;
                 extra = (if length iov = 2 then drop writable_bytes bs else [])
             in if n \<le> writable_bytes then (Inr n, has_written n b1)
                else (Inr n, append_buf (take (n - writable_bytes) extra)
                               (b1\<lparr>write_idx := length (buf b1)\<rparr>)))"

text \<open>What POSIX documents of \<^verbatim>\<open>readv\<close>: it never returns more bytes than the vectors hold.\<close>

definition readv_ok :: "readv_call \<Rightarrow> bool" where
  "readv_ok readv \<longleftrightarrow> (\<forall>iov bs. readv iov = Inr bs \<longrightarrow> length bs \<le> sum_list iov)"

section \<open>Abstraction and invariant\<close>

definition contents :: "buffer \<Rightarrow> string" where
  "contents b = take (readable b) (peek b)"

definition buffer_inv :: "buffer \<Rightarrow> bool" where
  "buffer_inv b \<longleftrightarrow>
     kPrependSize \<le> read_idx b \<and> read_idx b \<le> write_idx b \<and> write_idx b \<le> length (buf b)"

lemmas buffer_defs = readable_def writable_def prependable_def peek_def has_written_def
  reset_def buffer_inv_def contents_def

text \<open>The interface of a byte queue, over an abstraction to the bytes it holds.\<close>

locale byte_queue =
  fixes empty :: "nat \<Rightarrow> 'q"
    and put :: "string \<Rightarrow> 'q \<Rightarrow> 'q"
    and get :: "nat \<Rightarrow> 'q \<Rightarrow> (string \<times> 'q) option"
    and bytes :: "'q \<Rightarrow> string"
    and invar :: "'q \<Rightarrow> bool"
  assumes empty_bytes: "bytes (empty n) = []"
    and empty_invar: "invar (empty n)"
    and put_bytes: "invar q \<Longrightarrow> bytes (put d q) = bytes q @ d"
    and put_invar: "invar q \<Longrightarrow> invar (put d q)"
    and get_fails: "invar q \<Longrightarrow> length (bytes q) < n \<Longrightarrow> get n q = None"
    and get_works: "invar q \<Longrightarrow> n \<le> length (bytes q) \<Longrightarrow>
      \<exists>q'. get n q = Some (take n (bytes q), q') \<and> bytes q' = drop n (bytes q) \<and> invar q'"
begin

lemma get_iff: "invar q \<Longrightarrow> get n q = None \<longleftrightarrow> length (bytes q) < n"
  using get_fails [of q n] get_works [of q n] by (cases "n \<le> length (bytes q)") auto

lemma get_SomeD:
  assumes "invar q" "get n q = Some (s, q')"
  shows "s = take n (bytes q)" "bytes q' = drop n (bytes q)" "invar q'" "n \<le> length (bytes q)"
proof -
  show n: "n \<le> length (bytes q)"
    using assms get_fails [of q n] by (cases "n \<le> length (bytes q)") auto
  show "s = take n (bytes q)" "bytes q' = drop n (bytes q)" "invar q'"
    using get_works [OF assms(1) n] assms(2) by auto
qed

lemma puts_bytes:
  "invar q \<Longrightarrow> invar (fold put ds q) \<and> bytes (fold put ds q) = bytes q @ concat ds"
  by (induction ds arbitrary: q) (auto simp: put_invar put_bytes)

text \<open>First in, first out: what was put behind the queue's bytes comes out after them.\<close>

lemma put_get:
  assumes "invar q"
  shows "\<exists>q'. get (length (bytes q) + length d) (put d q) = Some (bytes q @ d, q') \<and> bytes q' = []"
  using get_works [OF put_invar [OF assms], of "length (bytes q) + length d" d] put_bytes [OF assms, of d]
  by auto

end


section \<open>The buffer is a byte queue\<close>

lemma length_contents [queue_simps]: "buffer_inv b \<Longrightarrow> length (contents b) = readable b"
  by (auto simp: buffer_defs)

lemma contents_alt: "buffer_inv b \<Longrightarrow> contents b = drop (read_idx b) (take (write_idx b) (buf b))"
  by (simp add: buffer_defs drop_take)

lemma take_peek [queue_simps]: "n \<le> readable b \<Longrightarrow> take n (peek b) = take n (contents b)"
  by (simp add: contents_def min_def)

lemma buffer_new_inv: "buffer_inv (buffer_new n)"
  by (simp add: buffer_new_def buffer_defs mem_simps)

lemma contents_buffer_new [queue_simps]: "contents (buffer_new n) = []"
  by (simp add: buffer_new_def buffer_defs)

lemma grow_inv:
  assumes "buffer_inv b" "writable b < len"
  shows "buffer_inv (grow len b)"
  using assms by (auto simp: grow_def buffer_defs Let_def mem_simps)

lemma grow_room:
  assumes "buffer_inv b" "writable b < len"
  shows "len \<le> writable (grow len b)"
  using assms by (auto simp: grow_def buffer_defs Let_def mem_simps)

lemma grow_contents:
  assumes "buffer_inv b" "writable b < len"
  shows "contents (grow len b) = contents b"
proof (cases "len + kPrependSize \<le> writable b + prependable b")
  case True
  let ?r = "take (readable b) (peek b)"
  have r: "length ?r = readable b" "kPrependSize \<le> length (buf b)"
    using assms by (auto simp: buffer_defs)
  have "take (kPrependSize + length ?r) (mem_write (buf b) kPrependSize ?r)
      = take kPrependSize (buf b) @ ?r"
    using r(2) by (rule take_mem_write)
  then have "drop kPrependSize (take (kPrependSize + length ?r) (mem_write (buf b) kPrependSize ?r)) = ?r"
    using r(2) by simp
  then show ?thesis
    using True r(1) contents_alt [OF grow_inv [OF assms]]
    by (simp add: grow_def Let_def contents_def)
next
  case False
  have "write_idx b \<le> length (buf b)" using assms(1) by (simp add: buffer_inv_def)
  then show ?thesis
    using False contents_alt [OF assms(1)] contents_alt [OF grow_inv [OF assms]]
    by (simp add: grow_def mem_simps)
qed

lemma ensure_writable_correct:
  assumes "buffer_inv b"
  shows "buffer_inv (ensure_writable len b)" "contents (ensure_writable len b) = contents b"
    "len \<le> writable (ensure_writable len b)"
  using assms grow_inv [of b len] grow_room [of b len] grow_contents [of b len]
  by (auto simp: ensure_writable_def)

text \<open>Writing into the writable region and advancing the index appends to the contents.\<close>

lemma write_has_written:
  assumes "buffer_inv b" "length d \<le> writable b"
  shows "buffer_inv (has_written (length d) (b\<lparr>buf := mem_write (buf b) (write_idx b) d\<rparr>))"
    and "contents (has_written (length d) (b\<lparr>buf := mem_write (buf b) (write_idx b) d\<rparr>)) = contents b @ d"
proof -
  let ?b = "has_written (length d) (b\<lparr>buf := mem_write (buf b) (write_idx b) d\<rparr>)"
  show inv: "buffer_inv ?b"
    using assms by (auto simp: buffer_defs mem_simps)
  have w: "write_idx b \<le> length (buf b)" "read_idx b \<le> write_idx b"
    using assms(1) by (auto simp: buffer_inv_def)
  have "contents ?b = drop (read_idx b) (take (write_idx b + length d) (mem_write (buf b) (write_idx b) d))"
    using contents_alt [OF inv] by (simp add: has_written_def)
  also have "\<dots> = contents b @ d"
    using w contents_alt [OF assms(1)] by (simp add: take_mem_write)
  finally show "contents ?b = contents b @ d" .
qed

lemma append_buf_inv: "buffer_inv b \<Longrightarrow> buffer_inv (append_buf d b)"
  unfolding append_buf_def Let_def
  by (rule write_has_written) (simp_all add: ensure_writable_correct)

lemma append_buf_contents [queue_simps]:
  "buffer_inv b \<Longrightarrow> contents (append_buf d b) = contents b @ d"
  unfolding append_buf_def Let_def
  by (subst write_has_written) (simp_all add: ensure_writable_correct)

lemma retrieve_None_iff: "retrieve len b = None \<longleftrightarrow> readable b < len"
  by (simp add: retrieve_def Let_def not_le)

lemma retrieve_correct:
  assumes "buffer_inv b" "len \<le> readable b"
  shows "\<exists>b'. retrieve len b = Some b' \<and> buffer_inv b' \<and> contents b' = drop len (contents b)"
  using assms by (auto simp: retrieve_def Let_def buffer_defs drop_take add.commute)

lemma retrieve_as_string_correct:
  assumes "buffer_inv b" "len \<le> readable b"
  shows "\<exists>b'. retrieve_as_string len b = Some (take len (contents b), b') \<and>
    buffer_inv b' \<and> contents b' = drop len (contents b)"
  using retrieve_correct [OF assms] assms(2) by (auto simp: retrieve_as_string_def queue_simps)

text \<open>The buffer provides the byte queue interface.\<close>

interpretation bq: byte_queue buffer_new append_buf retrieve_as_string contents buffer_inv
proof
  fix q d and n :: nat
  show "contents (buffer_new n) = []" by (rule contents_buffer_new)
  show "buffer_inv (buffer_new n)" by (rule buffer_new_inv)
  assume q: "buffer_inv q"
  show "contents (append_buf d q) = contents q @ d" using q by (rule append_buf_contents)
  show "buffer_inv (append_buf d q)" using q by (rule append_buf_inv)
  show "length (contents q) < n \<Longrightarrow> retrieve_as_string n q = None"
    using q by (simp add: retrieve_as_string_def queue_simps)
  show "n \<le> length (contents q) \<Longrightarrow> \<exists>q'. retrieve_as_string n q = Some (take n (contents q), q') \<and>
      contents q' = drop n (contents q) \<and> buffer_inv q'"
    using retrieve_as_string_correct [OF q, of n] q by (auto simp: length_contents)
qed

lemma retrieve_all_correct:
  assumes "buffer_inv b"
  shows "\<exists>b'. retrieve_all_as_string b = Some (contents b, b') \<and> buffer_inv b' \<and> contents b' = []"
  using bq.get_works [OF assms, of "readable b"] assms
  by (auto simp: retrieve_all_as_string_def length_contents)

lemma read_fd_Inr:
  assumes b: "buffer_inv b" and r: "readv_ok readv" and bs: "readv (read_iov b) = Inr bs"
  shows "\<exists>b'. read_fd readv b = (Inr (length bs), b') \<and> buffer_inv b' \<and> contents b' = contents b @ bs"
proof (cases "length bs \<le> writable b")
  case True
  then show ?thesis
    using bs write_has_written [OF b True] by (simp add: read_fd_def Let_def)
next
  case False
  let ?w = "writable b"
  let ?b1 = "b\<lparr>buf := mem_write (buf b) (write_idx b) (take ?w bs)\<rparr>"
  let ?b2 = "has_written (length (take ?w bs)) ?b1"
  have "length bs \<le> sum_list (read_iov b)" using r bs unfolding readv_ok_def by blast
  then have w: "length (read_iov b) = 2" using False by (auto simp: read_iov_def split: if_splits)
  have "write_idx b + ?w = length (buf b)" using b by (auto simp: buffer_defs)
  then have b2: "?b1\<lparr>write_idx := length (buf ?b1)\<rparr> = ?b2"
    using False by (simp add: has_written_def mem_simps)
  have "read_fd readv b = (Inr (length bs), append_buf (drop ?w bs) ?b2)"
    using bs False w b2 by (simp add: read_fd_def Let_def)
  then show ?thesis
    using write_has_written [OF b, of "take ?w bs"]
    by (simp add: append_buf_inv append_buf_contents)
qed

lemma read_fd_Inl: "readv (read_iov b) = Inl e \<Longrightarrow> read_fd readv b = (Inl e, b)"
  by (simp add: read_fd_def)

section \<open>Any use of a buffer refines the byte queue\<close>

text \<open>
  A client program over a buffer: a sequence of calls, with the strings the retrieving
  calls return. The same program over a plain list of bytes is the specification; a call
  whose assertion fails stops both.
\<close>

datatype buf_call = Append string | Retrieve nat | RetrieveAsString nat | RetrieveAllAsString

fun buf_exec :: "buf_call \<Rightarrow> buffer \<Rightarrow> (string list \<times> buffer) option" where
  "buf_exec (Append d) b = Some ([], append_buf d b)"
| "buf_exec (Retrieve n) b = do { b' \<leftarrow> retrieve n b; Some ([], b') }"
| "buf_exec (RetrieveAsString n) b = do { (s, b') \<leftarrow> retrieve_as_string n b; Some ([s], b') }"
| "buf_exec RetrieveAllAsString b = do { (s, b') \<leftarrow> retrieve_all_as_string b; Some ([s], b') }"

fun buf_run :: "buf_call list \<Rightarrow> buffer \<Rightarrow> (string list \<times> buffer) option" where
  "buf_run [] b = Some ([], b)"
| "buf_run (c # cs) b =
     do { (out, b1) \<leftarrow> buf_exec c b; (outs, b2) \<leftarrow> buf_run cs b1; Some (out @ outs, b2) }"

fun queue_exec :: "buf_call \<Rightarrow> string \<Rightarrow> (string list \<times> string) option" where
  "queue_exec (Append d) q = Some ([], q @ d)"
| "queue_exec (Retrieve n) q = (if n \<le> length q then Some ([], drop n q) else None)"
| "queue_exec (RetrieveAsString n) q = (if n \<le> length q then Some ([take n q], drop n q) else None)"
| "queue_exec RetrieveAllAsString q = Some ([q], [])"

fun queue_run :: "buf_call list \<Rightarrow> string \<Rightarrow> (string list \<times> string) option" where
  "queue_run [] q = Some ([], q)"
| "queue_run (c # cs) q =
     do { (out, q1) \<leftarrow> queue_exec c q; (outs, q2) \<leftarrow> queue_run cs q1; Some (out @ outs, q2) }"

lemma buf_exec_refines:
  assumes "buffer_inv b"
  shows "case buf_exec c b of None \<Rightarrow> queue_exec c (contents b) = None
    | Some (out, b') \<Rightarrow> buffer_inv b' \<and> queue_exec c (contents b) = Some (out, contents b')"
proof (cases c)
  case (Append d)
  then show ?thesis using assms by (simp add: append_buf_inv queue_simps)
next
  case (Retrieve n)
  then show ?thesis
    using assms retrieve_correct [OF assms, of n] retrieve_None_iff [of n b]
    by (cases "n \<le> readable b") (auto simp: length_contents)
next
  case (RetrieveAsString n)
  then show ?thesis
    using assms bq.get_works [OF assms, of n] bq.get_fails [OF assms, of n]
    by (cases "n \<le> length (contents b)") auto
next
  case RetrieveAllAsString
  then show ?thesis using retrieve_all_correct [OF assms] by auto
qed

lemma buf_run_refines:
  "buffer_inv b \<Longrightarrow> case buf_run cs b of None \<Rightarrow> queue_run cs (contents b) = None
    | Some (outs, b') \<Rightarrow> buffer_inv b' \<and> queue_run cs (contents b) = Some (outs, contents b')"
proof (induction cs arbitrary: b)
  case Nil
  then show ?case by simp
next
  case (Cons c cs)
  show ?case
  proof (cases "buf_exec c b")
    case None
    then show ?thesis using buf_exec_refines [OF Cons.prems, of c] by simp
  next
    case (Some r)
    then obtain out b1 where r: "buf_exec c b = Some (out, b1)" by (cases r) auto
    then have "buffer_inv b1" "queue_exec c (contents b) = Some (out, contents b1)"
      using buf_exec_refines [OF Cons.prems, of c] by auto
    then show ?thesis using Cons.IH [of b1] r by (auto split: option.splits)
  qed
qed

text \<open>
  C10. Any sequence of calls on a freshly constructed buffer behaves as on a queue of bytes: it
  fails an assertion exactly when the queue lacks the bytes asked for, returns the same
  strings, and leaves the same unread bytes, whatever moves and reallocations happened.
\<close>

theorem buffer_refines_queue:
  "map_option (\<lambda>(outs, b). (outs, contents b)) (buf_run cs (buffer_new n)) = queue_run cs []"
  using buf_run_refines [OF buffer_new_inv [of n], of cs]
  by (auto simp: queue_simps split: option.splits)

text \<open>
  C11. \<^verbatim>\<open>read_fd\<close> appends exactly the bytes the kernel delivered, in order, whether they fit the
  writable region or spill into the 64 KiB stack area, and an error leaves the buffer as it was.
\<close>

theorem read_fd_appends:
  assumes "buffer_inv b" "readv_ok readv"
  shows "case readv (read_iov b) of
      Inl e \<Rightarrow> read_fd readv b = (Inl e, b)
    | Inr bs \<Rightarrow> \<exists>b'. read_fd readv b = (Inr (length bs), b') \<and> buffer_inv b' \<and>
                    contents b' = contents b @ bs"
  using read_fd_Inr [OF assms] by (auto simp: read_fd_Inl split: sum.split)

theorem read_fd_appends_witness:
  "\<exists>b'. read_fd (\<lambda>iov. Inr (take (sum_list iov) ''hello'')) (buffer_new 2) = (Inr 5, b') \<and>
     contents b' = ''hello''"
proof -
  let ?r = "\<lambda>iov. Inr (take (sum_list iov) ''hello'') :: int + string"
  have ok: "readv_ok ?r" by (auto simp: readv_ok_def)
  have "sum_list (read_iov (buffer_new 2)) = 65538"
    by (simp add: read_iov_def buffer_new_def writable_def mem_simps extra_size_def)
  then show ?thesis
    using read_fd_appends [OF buffer_new_inv [of 2] ok] by (auto simp: queue_simps)
qed

text \<open>
  C33. The storage after an append is exactly as large as before when the unread bytes, the new
  bytes and the prepend area fit in it (compaction, no reallocation), and otherwise grows to
  the write index plus the new bytes.
\<close>

theorem append_buf_capacity:
  assumes "buffer_inv b"
  shows "length (buf (append_buf d b)) =
    (if kPrependSize + readable b + length d \<le> length (buf b) then length (buf b)
     else write_idx b + length d)"
proof -
  let ?b = "ensure_writable (length d) b"
  have "length d \<le> writable ?b" "buffer_inv ?b" using ensure_writable_correct [OF assms] by auto
  then have "length (buf (append_buf d b)) = length (buf ?b)"
    by (auto simp: append_buf_def Let_def has_written_def buffer_defs mem_simps)
  also have "\<dots> = (if kPrependSize + readable b + length d \<le> length (buf b) then length (buf b)
     else write_idx b + length d)"
    using assms by (auto simp: ensure_writable_def grow_def Let_def buffer_defs mem_simps)
  finally show ?thesis .
qed

theorem append_buf_capacity_witness:
  "length (buf (append_buf ''abc'' (buffer_new 2))) = 11 \<and>
   length (buf (append_buf ''ab'' (buffer_new 2))) = 10"
  using append_buf_capacity [OF buffer_new_inv [of 2], of "''abc''"]
    append_buf_capacity [OF buffer_new_inv [of 2], of "''ab''"]
  by (simp add: buffer_new_def readable_def kPrependSize_def mem_simps)

end
