(* ===== verification/Codec.thy ===== *)
theory Codec
  imports Buffer
begin

text \<open>
  \<^verbatim>\<open>codec/protocol.h\<close>, \<^verbatim>\<open>codec/codec.h\<close> and \<^verbatim>\<open>codec/codec.cpp\<close>: the frame format
  \<^verbatim>\<open>[Magic:4][BodyLen:4][Body:N]\<close>, the receiving loop \<open>on_message\<close> and the senders. The
  host's byte order is a parameter, so that the theorems cover the \<^verbatim>\<open>htonl\<close>/\<^verbatim>\<open>memcpy\<close> pairs on
  every host and between unlike hosts. The specification of a receiver is a scanner over the
  byte stream; the locale \<open>framing\<close> states what a frame parser must satisfy for the scanner
  to be independent of how TCP splits or sticks the packets, and it is interpreted on the
  server's parser here and on the client's parser in the channel's theory.
\<close>

section \<open>Byte order\<close>

datatype endian = LittleEndian | BigEndian

text \<open>The four bytes of a word, most significant first, and the word they denote.\<close>

definition be_bytes :: "u32 \<Rightarrow> string" where
  "be_bytes w = map (\<lambda>k. char_of (unat w div 2 ^ k)) [24, 16, 8, 0]"

definition be_value :: "string \<Rightarrow> u32" where
  "be_value bs = foldl (\<lambda>acc c. acc * 256 + of_char c) 0 bs"

text \<open>A \<^verbatim>\<open>uint32_t\<close> in memory, as \<^verbatim>\<open>memcpy\<close> sees it, and back.\<close>

definition store_u32 :: "endian \<Rightarrow> u32 \<Rightarrow> string" where
  "store_u32 e w = (case e of BigEndian \<Rightarrow> be_bytes w | LittleEndian \<Rightarrow> rev (be_bytes w))"

definition load_u32 :: "endian \<Rightarrow> string \<Rightarrow> u32" where
  "load_u32 e bs = (case e of BigEndian \<Rightarrow> be_value bs | LittleEndian \<Rightarrow> be_value (rev bs))"

text \<open>\<^verbatim>\<open>htonl\<close> and \<^verbatim>\<open>ntohl\<close>: a byte swap on little-endian hosts, nothing on big-endian ones.\<close>

definition bswap32 :: "u32 \<Rightarrow> u32" where
  "bswap32 w = be_value (rev (be_bytes w))"

definition htonl :: "endian \<Rightarrow> u32 \<Rightarrow> u32" where
  "htonl e w = (case e of BigEndian \<Rightarrow> w | LittleEndian \<Rightarrow> bswap32 w)"

definition ntohl :: "endian \<Rightarrow> u32 \<Rightarrow> u32" where
  "ntohl e w = (case e of BigEndian \<Rightarrow> w | LittleEndian \<Rightarrow> bswap32 w)"

section \<open>The protocol constants\<close>

definition kMagicNumber :: u32 where
  "kMagicNumber = 0xCAFEBABE"

definition kHeaderSize :: nat where
  "kHeaderSize = 8"

definition kMaxBodySize :: nat where
  "kMaxBodySize = 64 * 1024 * 1024"

section \<open>The codec\<close>

text \<open>
  The callbacks a codec calls on the state \<open>'s\<close> of its owner; \<^const>\<open>None\<close> as a result is an
  exception or a failed assertion that leaves the loop. A null \<^verbatim>\<open>err_cb_\<close> is \<^const>\<open>None\<close>.
\<close>

record 's codec =
  msg_cb :: "'s \<Rightarrow> string \<Rightarrow> 's option"
  err_cb :: "('s \<Rightarrow> string \<Rightarrow> 's option) option"
  conn_force_close :: "'s \<Rightarrow> 's option"

definition codec_set_error_callback :: "('s \<Rightarrow> string \<Rightarrow> 's option) \<Rightarrow> 's codec \<Rightarrow> 's codec" where
  "codec_set_error_callback cb c = c\<lparr>err_cb := Some cb\<rparr>"

definition codec_fail :: "'s codec \<Rightarrow> string \<Rightarrow> 's \<Rightarrow> 's option" where
  "codec_fail c reason s =
     do { s1 \<leftarrow> (case err_cb c of None \<Rightarrow> Some s | Some cb \<Rightarrow> cb s reason);
          conn_force_close c s1 }"

function on_message :: "endian \<Rightarrow> 's codec \<Rightarrow> buffer \<Rightarrow> 's \<Rightarrow> (buffer \<times> 's) option" where
  "on_message e c b s =
     (if readable b < kHeaderSize then Some (b, s)
      else
        let magic = ntohl e (load_u32 e (take 4 (peek b))) in
        if magic \<noteq> kMagicNumber then
          do { s' \<leftarrow> codec_fail c ''bad magic number'' s; Some (b, s') }
        else
          let body_len = unat (ntohl e (load_u32 e (take 4 (drop 4 (peek b))))) in
          if kMaxBodySize < body_len then
            do { s' \<leftarrow> codec_fail c ''body too large'' s; Some (b, s') }
          else if readable b < kHeaderSize + body_len then Some (b, s)
          else
            case retrieve kHeaderSize b of None \<Rightarrow> None
            | Some b1 \<Rightarrow>
                (case retrieve_as_string body_len b1 of None \<Rightarrow> None
                 | Some (frame, b2) \<Rightarrow>
                     (case msg_cb c s frame of None \<Rightarrow> None
                      | Some s' \<Rightarrow> on_message e c b2 s')))"
  by pat_completeness auto
termination
proof (relation "measure (\<lambda>(e, c, b, s). readable b)", goal_cases)
  case 1
  show ?case by simp
next
  case (2 e c b s magic body_len b1 r frame b2 s')
  have "readable b1 < readable b"
    using 2(1) \<open>retrieve kHeaderSize b = Some b1\<close>
    by (auto simp: retrieve_def Let_def kHeaderSize_def readable_def reset_def split: if_splits)
  moreover have "readable b2 \<le> readable b1"
    using \<open>retrieve_as_string body_len b1 = Some r\<close> \<open>(frame, b2) = r\<close>
    by (auto simp: retrieve_as_string_def retrieve_def Let_def readable_def reset_def
        bind_eq_Some_conv split: if_splits)
  ultimately show ?case by simp
qed

declare on_message.simps [simp del]

text \<open>The buffer \<^verbatim>\<open>Codec::send_raw\<close> builds, and its hand-over to \<^verbatim>\<open>TcpConnection::send(Buffer*)\<close>.\<close>

definition frame_buffer :: "endian \<Rightarrow> string \<Rightarrow> buffer" where
  "frame_buffer e body =
     (let magic_net = htonl e kMagicNumber;
          body_len_net = htonl e (of_nat (length body));
          b0 = buffer_new kInitialSize;
          b1 = append_buf (store_u32 e magic_net) b0;
          b2 = append_buf (store_u32 e body_len_net) b1
      in append_buf body b2)"

definition send_raw :: "endian \<Rightarrow> (buffer \<Rightarrow> 's \<Rightarrow> 's option) \<Rightarrow> string \<Rightarrow> 's \<Rightarrow> 's option" where
  "send_raw e conn_send body s = conn_send (frame_buffer e body) s"

text \<open>\<^verbatim>\<open>SerializeToString\<close> is protobuf's: a parameter, \<^const>\<open>None\<close> when it returns false.\<close>

definition send :: "endian \<Rightarrow> ('m \<Rightarrow> string option) \<Rightarrow> (buffer \<Rightarrow> 's \<Rightarrow> 's option) \<Rightarrow>
    'm \<Rightarrow> 's \<Rightarrow> 's option" where
  "send e serialize conn_send msg s =
     (case serialize msg of None \<Rightarrow> Some s | Some body \<Rightarrow> send_raw e conn_send body s)"

section \<open>The specification of a receiver\<close>

datatype parse_result = Incomplete | Malformed string | Parsed string string

text \<open>Parsing one frame off the front of a byte string, with an optional cap on the body.\<close>

definition parse_frame :: "nat option \<Rightarrow> string \<Rightarrow> parse_result" where
  "parse_frame cap xs =
     (if length xs < kHeaderSize then Incomplete
      else if be_value (take 4 xs) \<noteq> kMagicNumber then Malformed ''bad magic number''
      else
        let n = unat (be_value (take 4 (drop 4 xs))) in
        if (case cap of None \<Rightarrow> False | Some m \<Rightarrow> m < n) then Malformed ''body too large''
        else if length xs < kHeaderSize + n then Incomplete
        else Parsed (take n (drop kHeaderSize xs)) (drop (kHeaderSize + n) xs))"

text \<open>All complete frames of a stream, the error that stopped the scan, and the rest.\<close>

function scan :: "(string \<Rightarrow> parse_result) \<Rightarrow> string \<Rightarrow> string list \<times> string option \<times> string" where
  "scan parse xs =
     (case parse xs of Incomplete \<Rightarrow> ([], None, xs)
      | Malformed e \<Rightarrow> ([], Some e, xs)
      | Parsed f r \<Rightarrow>
          if length r < length xs then (case scan parse r of (fs, e, r') \<Rightarrow> (f # fs, e, r'))
          else ([], None, xs))"
  by pat_completeness auto
termination
  by (relation "measure (\<lambda>(parse, xs). length xs)") auto

declare scan.simps [simp del]

text \<open>The bytes on the wire for one body.\<close>

definition wire_frame :: "string \<Rightarrow> string" where
  "wire_frame body = be_bytes kMagicNumber @ be_bytes (of_nat (length body)) @ body"

text \<open>What the receiving loop must do with the unread bytes.\<close>

definition codec_spec :: "'s codec \<Rightarrow> string \<Rightarrow> 's \<Rightarrow> (string \<times> 's) option" where
  "codec_spec c xs s =
     (case scan (parse_frame (Some kMaxBodySize)) xs of
        (fs, err, rest) \<Rightarrow>
          do { s1 \<leftarrow> fold_cb (msg_cb c) fs s;
               s2 \<leftarrow> (case err of None \<Rightarrow> Some s1 | Some reason \<Rightarrow> codec_fail c reason s1);
               Some (rest, s2) })"

text \<open>Data arriving in chunks, the loop being run after each.\<close>

fun feed :: "endian \<Rightarrow> 's codec \<Rightarrow> string list \<Rightarrow> buffer \<Rightarrow> 's \<Rightarrow> (buffer \<times> 's) option" where
  "feed e c [] b s = Some (b, s)"
| "feed e c (d # ds) b s = do { (b1, s1) \<leftarrow> on_message e c (append_buf d b) s; feed e c ds b1 s1 }"

section \<open>Byte order lemmas\<close>

lemma of_char_char_of_word: "(of_char (char_of (n::nat)) :: u32) = of_nat (n mod 256)"
  by (metis of_char_of of_nat_of_char)

lemma base256_digits:
  assumes "n < 2 ^ 32"
  shows "((n div 2 ^ 24 mod 256 * 256 + n div 2 ^ 16 mod 256) * 256 + n div 2 ^ 8 mod 256) * 256
    + n mod 256 = (n::nat)"
proof -
  have top: "n div 2 ^ 24 mod 256 = n div 2 ^ 24" using assms by simp
  have "n div 2 ^ 24 = n div 2 ^ 16 div 256" "n div 2 ^ 16 = n div 2 ^ 8 div 256" "n div 2 ^ 8 = n div 256"
    by (simp_all add: div_mult2_eq [symmetric])
  then show ?thesis unfolding top by (metis div_mult_mod_eq)
qed

lemma be_value_be_bytes [wire_simps]: "be_value (be_bytes w) = w"
proof -
  let ?n = "unat w"
  have "?n < 2 ^ 32" using unsigned_less [of w, where ?'a = nat] by simp
  then have "(of_nat (((?n div 2^24 mod 256 * 256 + ?n div 2^16 mod 256) * 256 + ?n div 2^8 mod 256) * 256
      + ?n mod 256) :: u32) = of_nat ?n" by (simp only: base256_digits)
  then show ?thesis
    by (simp add: be_value_def be_bytes_def of_char_char_of_word)
qed

lemma length_be_bytes [wire_simps, simp]: "length (be_bytes w) = 4"
  by (simp add: be_bytes_def)

lemma base256_step: "x < n \<Longrightarrow> y < 256 \<Longrightarrow> x * 256 + y < n * (256::nat)"
proof -
  assume "x < n" "y < 256"
  then have "x * 256 + y < (x + 1) * 256" "(x + 1) * 256 \<le> n * 256" by auto
  then show ?thesis by linarith
qed

lemma be_value_inj:
  assumes "length xs = 4" shows "be_bytes (be_value xs) = xs"
proof -
  obtain a b c d where xs: "xs = [a, b, c, d]"
    using assms by (auto simp: numeral_eq_Suc length_Suc_conv)
  let ?v = "\<lambda>x. of_char x :: nat"
  have bd: "?v x < 256" for x by simp
  let ?n = "((?v a * 256 + ?v b) * 256 + ?v c) * 256 + ?v d"
  have n: "?n < 2 ^ 32"
    using base256_step [OF base256_step [OF base256_step [OF bd [of a] bd [of b]] bd [of c]] bd [of d]]
    by simp
  have "be_value xs = of_nat ?n"
    by (simp add: xs be_value_def of_nat_of_char)
  then have u: "unat (be_value xs) = ?n"
    by (simp only: unat_of_nat_u32 [OF n])
  have q: "(x * 256 + ?v y) div 256 = x" "(x * 256 + ?v y) mod 256 = ?v y" for x y by simp_all
  have "?n div 2 ^ 24 = ?n div 256 div 256 div 256" "?n div 2 ^ 16 = ?n div 256 div 256"
    "?n div 2 ^ 8 = ?n div 256"
    by (simp_all only: div_mult2_eq [symmetric]) simp_all
  then have dv: "?n div 2 ^ 24 mod 256 = ?v a" "?n div 2 ^ 16 mod 256 = ?v b"
    "?n div 2 ^ 8 mod 256 = ?v c" "?n mod 256 = ?v d"
    by (simp_all only: q) simp
  have ch: "char_of k = x" if "k mod 256 = ?v x" for k :: nat and x
    using that by (metis char_of_mod_256 char_of_char)
  show ?thesis
    using ch [OF dv(1)] ch [OF dv(2)] ch [OF dv(3)] ch [of ?n d] dv(4)
    by (simp add: be_bytes_def u) (simp add: xs)
qed

text \<open>The \<^verbatim>\<open>htonl\<close>/\<^verbatim>\<open>memcpy\<close> pairs are the network byte order on every host.\<close>

lemma store_htonl [wire_simps]: "store_u32 e (htonl e w) = be_bytes w"
  by (cases e) (simp_all add: store_u32_def htonl_def bswap32_def be_value_inj)

lemma load_ntohl [wire_simps]: "length xs = 4 \<Longrightarrow> ntohl e (load_u32 e xs) = be_value xs"
  by (cases e) (simp_all add: load_u32_def ntohl_def bswap32_def be_value_inj)

section \<open>Parsing frames\<close>

lemma parse_header [wire_simps]:
  "take 4 (wire_frame body @ ys) = be_bytes kMagicNumber"
  "take 4 (drop 4 (wire_frame body @ ys)) = be_bytes (of_nat (length body))"
  "drop kHeaderSize (wire_frame body @ ys) = body @ ys"
  "length (wire_frame body) = kHeaderSize + length body"
  by (simp_all add: wire_frame_def kHeaderSize_def)

lemma unat_body_len [wire_simps]:
  "length body < 2 ^ 32 \<Longrightarrow> unat (of_nat (length body) :: u32) = length body"
  by (rule unat_of_nat_u32)

text \<open>A body that fits the length field and the cap.\<close>

definition body_ok :: "nat option \<Rightarrow> string \<Rightarrow> bool" where
  "body_ok cap body \<longleftrightarrow> length body < 2 ^ 32 \<and> (case cap of None \<Rightarrow> True | Some m \<Rightarrow> length body \<le> m)"

lemma parse_wire_frame:
  assumes "body_ok cap body"
  shows "parse_frame cap (wire_frame body @ ys) = Parsed body ys"
proof -
  let ?xs = "wire_frame body @ ys"
  have n: "unat (be_value (take 4 (drop 4 ?xs))) = length body"
    using assms unfolding parse_header(2) be_value_be_bytes by (simp only: body_ok_def unat_body_len)
  have m: "be_value (take 4 ?xs) = kMagicNumber"
    by (simp only: parse_header(1) be_value_be_bytes)
  have l: "\<not> length ?xs < kHeaderSize" "\<not> length ?xs < kHeaderSize + length body"
    by (simp_all add: parse_header(4))
  have d: "take (length body) (drop kHeaderSize ?xs) = body" "drop (kHeaderSize + length body) ?xs = ys"
    by (simp_all only: parse_header(3)) (simp_all add: parse_header(4))
  have c: "\<not> (case cap of None \<Rightarrow> False | Some k \<Rightarrow> k < length body)"
    using assms by (auto simp: body_ok_def split: option.splits)
  show ?thesis
    unfolding parse_frame_def Let_def n m d using l c by simp
qed

lemma parse_frame_extend:
  assumes "parse_frame cap xs \<noteq> Incomplete"
  shows "parse_frame cap (xs @ ys) =
    (case parse_frame cap xs of Parsed f r \<Rightarrow> Parsed f (r @ ys) | p \<Rightarrow> p)"
proof -
  have "8 \<le> length xs" using assms by (auto simp: parse_frame_def kHeaderSize_def split: if_splits)
  then have "take 4 (xs @ ys) = take 4 xs" "take 4 (drop 4 (xs @ ys)) = take 4 (drop 4 xs)" by simp_all
  then show ?thesis
    using assms \<open>8 \<le> length xs\<close> by (auto simp: parse_frame_def kHeaderSize_def Let_def split: if_splits)
qed

lemma parse_frame_prefix:
  assumes "body_ok cap body" "length xs < length (wire_frame body)" "xs @ zs = wire_frame body"
  shows "parse_frame cap xs = Incomplete"
proof (rule ccontr)
  assume "parse_frame cap xs \<noteq> Incomplete"
  from parse_frame_extend [OF this, of zs] have "(case parse_frame cap xs of Parsed f r \<Rightarrow> Parsed f (r @ zs) | p \<Rightarrow> p) = Parsed body []"
    using parse_wire_frame [OF assms(1), of "[]"] assms(3) by simp
  then show False
    using assms(2,3) by (auto split: parse_result.splits)
qed

text \<open>
  What a stream parser must satisfy for scanning to be independent of packet boundaries, and
  the consequences for every such parser.
\<close>

locale framing =
  fixes parse :: "string \<Rightarrow> parse_result"
    and encode :: "string \<Rightarrow> string"
    and ok :: "string \<Rightarrow> bool"
  assumes shrinks: "parse xs = Parsed f r \<Longrightarrow> length r < length xs"
    and parsed_extend: "parse xs = Parsed f r \<Longrightarrow> parse (xs @ ys) = Parsed f (r @ ys)"
    and malformed_extend: "parse xs = Malformed m \<Longrightarrow> parse (xs @ ys) = Malformed m"
    and encoded: "ok f \<Longrightarrow> parse (encode f @ ys) = Parsed f ys"
    and empty_incomplete: "parse [] = Incomplete"
begin

lemma scan_parsed: "parse xs = Parsed f r \<Longrightarrow> scan parse xs = (case scan parse r of (fs, e, r') \<Rightarrow> (f # fs, e, r'))"
  by (simp add: scan.simps [of parse xs] shrinks)

lemma scan_append:
  "scan parse (xs @ ys) =
    (case scan parse xs of (fs, None, r) \<Rightarrow> (case scan parse (r @ ys) of (gs, e, r') \<Rightarrow> (fs @ gs, e, r'))
     | (fs, Some e, r) \<Rightarrow> (fs, Some e, r @ ys))"
proof (induction "length xs" arbitrary: xs rule: less_induct)
  case less
  show ?case
  proof (cases "parse xs")
    case Incomplete
    then show ?thesis by (simp add: scan.simps [of parse xs] split: prod.splits)
  next
    case (Malformed m)
    then show ?thesis
      using malformed_extend [OF Malformed, of ys] by (simp add: scan.simps [of parse xs] scan.simps [of parse "xs @ ys"])
  next
    case (Parsed f r)
    have "scan parse (xs @ ys) = (case scan parse (r @ ys) of (fs, e, r') \<Rightarrow> (f # fs, e, r'))"
      using parsed_extend [OF Parsed, of ys] by (rule scan_parsed)
    then show ?thesis
      using less [OF shrinks [OF Parsed]] scan_parsed [OF Parsed]
      by (auto split: prod.splits option.splits)
  qed
qed

lemma scan_rest_incomplete: "scan parse xs = (fs, None, r) \<Longrightarrow> parse r = Incomplete"
proof (induction "length xs" arbitrary: xs fs rule: less_induct)
  case less
  show ?case
  proof (cases "parse xs")
    case (Parsed f r')
    then show ?thesis
      using less.hyps [OF shrinks [OF Parsed]] less.prems scan_parsed [OF Parsed]
      by (auto split: prod.splits)
  qed (use less.prems in \<open>auto simp: scan.simps [of parse xs]\<close>)
qed

lemma scan_incomplete: "parse xs = Incomplete \<Longrightarrow> scan parse xs = ([], None, xs)"
  by (simp add: scan.simps [of parse xs])

lemma scan_frames:
  "list_all ok fs \<Longrightarrow> scan parse (concat (map encode fs) @ ys) =
     (case scan parse ys of (gs, e, r) \<Rightarrow> (fs @ gs, e, r))"
proof (induction fs)
  case Nil
  then show ?case by (simp split: prod.splits)
next
  case (Cons f fs)
  then have "parse (encode f @ (concat (map encode fs) @ ys)) = Parsed f (concat (map encode fs) @ ys)"
    by (simp add: encoded)
  from scan_parsed [OF this] Cons show ?case by (simp split: prod.splits)
qed

lemma scan_all: "list_all ok fs \<Longrightarrow> scan parse (concat (map encode fs)) = (fs, None, [])"
  using scan_frames [of fs "[]"] by (simp add: scan_incomplete [OF empty_incomplete])

text \<open>A prefix of a stream of frames holds the first of them and is never malformed.\<close>

lemma scan_prefix:
  assumes "list_all ok fs" "xs @ ys = concat (map encode fs)"
  obtains gs hs r where "scan parse xs = (gs, None, r)" "fs = gs @ hs"
proof -
  have "scan parse (xs @ ys) = (fs, None, [])" using scan_all [OF assms(1)] assms(2) by simp
  then show thesis using that scan_append [of xs ys] by (auto split: prod.splits option.splits)
qed

end

lemma parse_frame_framing: "framing (parse_frame cap) wire_frame (body_ok cap)"
proof
  fix xs f r ys m
  let ?p = "parse_frame cap"
  show "?p xs = Parsed f r \<Longrightarrow> length r < length xs"
    by (auto simp: parse_frame_def kHeaderSize_def Let_def split: if_splits)
  show "?p xs = Parsed f r \<Longrightarrow> ?p (xs @ ys) = Parsed f (r @ ys)"
    using parse_frame_extend [of cap xs ys] by simp
  show "?p xs = Malformed m \<Longrightarrow> ?p (xs @ ys) = Malformed m"
    using parse_frame_extend [of cap xs ys] by simp
  show "body_ok cap f \<Longrightarrow> ?p (wire_frame f @ ys) = Parsed f ys"
    by (rule parse_wire_frame)
  show "?p [] = Incomplete" by (simp add: parse_frame_def kHeaderSize_def)
qed

interpretation srv: framing "parse_frame (Some kMaxBodySize)" wire_frame "body_ok (Some kMaxBodySize)"
  by (rule parse_frame_framing)

section \<open>The receiving loop meets its specification\<close>

lemma peek_header:
  assumes "buffer_inv b" "kHeaderSize \<le> readable b"
  shows "ntohl e (load_u32 e (take 4 (peek b))) = be_value (take 4 (contents b))"
    "ntohl e (load_u32 e (take 4 (drop 4 (peek b)))) = be_value (take 4 (drop 4 (contents b)))"
proof -
  have r: "length (contents b) = readable b" "8 \<le> readable b"
    using assms by (simp_all add: length_contents kHeaderSize_def)
  have "take 4 (peek b) = take 4 (contents b)"
    using r(2) by (simp add: take_peek)
  moreover have "take 4 (drop 4 (peek b)) = take 4 (drop 4 (contents b))"
    using r(2) by (simp add: contents_def take_drop min_def)
  ultimately show "ntohl e (load_u32 e (take 4 (peek b))) = be_value (take 4 (contents b))"
    "ntohl e (load_u32 e (take 4 (drop 4 (peek b)))) = be_value (take 4 (drop 4 (contents b)))"
    using r by (simp_all add: load_ntohl)
qed

text \<open>Taking a complete frame off the buffer.\<close>

lemma frame_retrieved:
  assumes b: "buffer_inv b" and p: "parse_frame cap (contents b) = Parsed f r"
  shows "\<exists>b1 b2. retrieve kHeaderSize b = Some b1 \<and>
    retrieve_as_string (unat (be_value (take 4 (drop 4 (contents b))))) b1 = Some (f, b2) \<and> buffer_inv b2 \<and> contents b2 = r"
proof -
  let ?n = "unat (be_value (take 4 (drop 4 (contents b))))"
  have len: "length (contents b) = readable b" using b by (rule length_contents)
  have f: "kHeaderSize + ?n \<le> readable b" "f = take ?n (drop kHeaderSize (contents b))" "r = drop (kHeaderSize + ?n) (contents b)"
    using p len by (auto simp: parse_frame_def Let_def split: if_splits)
  obtain b1 where b1: "retrieve kHeaderSize b = Some b1" "buffer_inv b1" "contents b1 = drop kHeaderSize (contents b)"
    using retrieve_correct [OF b, of kHeaderSize] f(1) by auto
  then have "?n \<le> readable b1" using f(1) len by (auto simp: length_contents [OF b1(2), symmetric])
  then obtain b2 where "retrieve_as_string ?n b1 = Some (take ?n (contents b1), b2)" "buffer_inv b2"
    "contents b2 = drop ?n (contents b1)"
    using retrieve_as_string_correct [OF b1(2)] by blast
  then show ?thesis using b1(1,3) f by (auto simp: add.commute)
qed

text \<open>One turn of the loop, in terms of the parser.\<close>

lemma on_message_unfold:
  assumes b: "buffer_inv b"
  shows "case parse_frame (Some kMaxBodySize) (contents b) of
      Incomplete \<Rightarrow> on_message e c b s = Some (b, s)
    | Malformed m \<Rightarrow> on_message e c b s = do { s' \<leftarrow> codec_fail c m s; Some (b, s') }
    | Parsed f r \<Rightarrow> \<exists>b'. buffer_inv b' \<and> contents b' = r \<and>
        on_message e c b s = do { s' \<leftarrow> msg_cb c s f; on_message e c b' s' }"
proof (cases "kHeaderSize \<le> readable b")
  case False
  then show ?thesis
    using b by (simp add: parse_frame_def length_contents on_message.simps [of e c b s])
next
  case True
  note hdr = peek_header [OF b True]
  let ?n = "unat (be_value (take 4 (drop 4 (contents b))))"
  have len: "length (contents b) = readable b" using b by (rule length_contents)
  show ?thesis
  proof (cases "be_value (take 4 (contents b)) = kMagicNumber \<and> \<not> kMaxBodySize < ?n \<and> kHeaderSize + ?n \<le> readable b")
    case False
    then show ?thesis
      using True len by (auto simp: parse_frame_def Let_def on_message.simps [of e c b s] hdr)
  next
    case full: True
    then have p: "parse_frame (Some kMaxBodySize) (contents b) =
        Parsed (take ?n (drop kHeaderSize (contents b))) (drop (kHeaderSize + ?n) (contents b))"
      unfolding parse_frame_def Let_def using len True by (simp add: not_less)
    from frame_retrieved [OF b p] obtain b1 b2 where b2: "retrieve kHeaderSize b = Some b1"
      "retrieve_as_string ?n b1 = Some (take ?n (drop kHeaderSize (contents b)), b2)" "buffer_inv b2"
      "contents b2 = drop (kHeaderSize + ?n) (contents b)" by blast
    have "on_message e c b s =
        do { s' \<leftarrow> msg_cb c s (take ?n (drop kHeaderSize (contents b))); on_message e c b2 s' }"
      using full True b2(1,2)
      by (subst on_message.simps) (auto simp: hdr Let_def split: option.splits)
    then show ?thesis using p b2(3,4) by auto
  qed
qed

lemma codec_spec_unfold:
  "codec_spec c xs s = (case parse_frame (Some kMaxBodySize) xs of
      Incomplete \<Rightarrow> Some (xs, s)
    | Malformed m \<Rightarrow> do { s' \<leftarrow> codec_fail c m s; Some (xs, s') }
    | Parsed f r \<Rightarrow> do { s' \<leftarrow> msg_cb c s f; codec_spec c r s' })"
proof (cases "parse_frame (Some kMaxBodySize) xs")
  case (Parsed f r)
  from srv.scan_parsed [OF Parsed] Parsed show ?thesis
    by (cases "msg_cb c s f") (auto simp: codec_spec_def split: prod.splits)
qed (simp_all add: codec_spec_def scan.simps [of _ xs])

lemma on_message_inv_spec:
  "buffer_inv b \<Longrightarrow> case on_message e c b s of None \<Rightarrow> codec_spec c (contents b) s = None
    | Some (b', s') \<Rightarrow> buffer_inv b' \<and> codec_spec c (contents b) s = Some (contents b', s')"
proof (induction "length (contents b)" arbitrary: b s rule: less_induct)
  case less
  note unf = on_message_unfold [OF less.prems, of e c s]
  show ?case
  proof (cases "parse_frame (Some kMaxBodySize) (contents b)")
    case Incomplete
    then show ?thesis using unf less.prems by (simp add: codec_spec_unfold)
  next
    case (Malformed m)
    then show ?thesis
      using unf less.prems by (cases "codec_fail c m s") (simp_all add: codec_spec_unfold)
  next
    case (Parsed f r)
    then obtain b' where b': "buffer_inv b'" "contents b' = r"
      and om: "on_message e c b s = do { s' \<leftarrow> msg_cb c s f; on_message e c b' s' }"
      using unf by auto
    have sp: "codec_spec c (contents b) s = do { s' \<leftarrow> msg_cb c s f; codec_spec c r s' }"
      using Parsed by (simp add: codec_spec_unfold [of c "contents b"])
    show ?thesis
    proof (cases "msg_cb c s f")
      case None
      then show ?thesis using om sp by simp
    next
      case (Some s')
      have "length (contents b') < length (contents b)"
        using srv.shrinks [OF Parsed] b'(2) by simp
      from less.hyps [OF this b'(1), of s'] show ?thesis
        using om sp Some b'(2) by (simp split: option.splits prod.splits)
    qed
  qed
qed

abbreviation scan_error :: "string \<Rightarrow> string option" where
  "scan_error xs \<equiv> fst (snd (scan (parse_frame (Some kMaxBodySize)) xs))"

lemma codec_spec_append:
  assumes "scan_error xs = None"
  shows "codec_spec c (xs @ ys) s = do { (r, s') \<leftarrow> codec_spec c xs s; codec_spec c (r @ ys) s' }"
proof -
  obtain fs r where fs: "scan (parse_frame (Some kMaxBodySize)) xs = (fs, None, r)"
    using assms by (cases "scan (parse_frame (Some kMaxBodySize)) xs") auto
  then show ?thesis
    by (cases "fold_cb (msg_cb c) fs s")
      (auto simp: codec_spec_def srv.scan_append [of xs ys] fold_cb_append split: prod.splits)
qed

lemma scan_error_prefix:
  assumes "scan_error (xs @ ys) = None"
  shows "scan_error xs = None"
    and "codec_spec c xs s = Some (r, s') \<Longrightarrow> scan_error (r @ ys) = None \<and>
      parse_frame (Some kMaxBodySize) r = Incomplete"
proof -
  obtain fs r' where fs: "scan (parse_frame (Some kMaxBodySize)) xs = (fs, None, r')"
    using assms by (auto simp: srv.scan_append [of xs ys] split: prod.splits option.splits)
  then show "scan_error xs = None" by simp
  assume "codec_spec c xs s = Some (r, s')"
  then have "r = r'" using fs by (auto simp: codec_spec_def bind_eq_Some_conv)
  then show "scan_error (r @ ys) = None \<and> parse_frame (Some kMaxBodySize) r = Incomplete"
    using assms fs srv.scan_rest_incomplete [OF fs]
    by (auto simp: srv.scan_append [of xs ys] split: prod.splits)
qed

lemma feed_spec:
  assumes "buffer_inv b" "parse_frame (Some kMaxBodySize) (contents b) = Incomplete"
    "scan_error (contents b @ concat ds) = None"
  shows "map_option (\<lambda>(b', s'). (contents b', s')) (feed e c ds b s) = codec_spec c (contents b @ concat ds) s"
  using assms
proof (induction ds arbitrary: b s)
  case Nil
  then show ?case by (simp add: codec_spec_unfold)
next
  case (Cons d ds)
  let ?b = "append_buf d b" and ?xs = "contents b @ d"
  have inv: "buffer_inv ?b" and ct: "contents ?b = ?xs"
    using Cons.prems(1) by (auto simp: append_buf_inv queue_simps)
  have err: "scan_error (?xs @ concat ds) = None" using Cons.prems(3) by simp
  note sp = codec_spec_append [OF scan_error_prefix(1) [OF err], of c "concat ds" s]
  show ?case
  proof (cases "on_message e c ?b s")
    case None
    then show ?thesis using on_message_inv_spec [OF inv, where e = e and c = c and s = s] sp ct by simp
  next
    case (Some bs)
    then obtain b1 s1 where b1: "on_message e c ?b s = Some (b1, s1)" by (cases bs) auto
    then have inv1: "buffer_inv b1" and cs: "codec_spec c ?xs s = Some (contents b1, s1)"
      using on_message_inv_spec [OF inv, where e = e and c = c and s = s] ct by auto
    from Cons.IH [OF inv1] scan_error_prefix(2) [OF err cs] sp cs b1 show ?thesis by simp
  qed
qed

section \<open>Properties\<close>

lemma contents_frame_buffer [wire_simps]: "contents (frame_buffer e body) = wire_frame body"
  by (simp add: frame_buffer_def Let_def wire_frame_def store_htonl append_buf_inv buffer_new_inv queue_simps)

lemma frame_buffer_inv: "buffer_inv (frame_buffer e body)"
  by (simp add: frame_buffer_def Let_def append_buf_inv buffer_new_inv)

text \<open>
  C12. The receiving loop of \<^verbatim>\<open>Codec::on_message\<close> meets the stream specification: it hands every
  complete frame of the unread bytes to the message callback, in order, keeps an incomplete
  frame for later, reports and closes on a bad magic number or an oversized length, stops
  when a callback throws, and no assertion of the buffer fails.
\<close>

theorem on_message_refines_spec:
  assumes "buffer_inv b"
  shows "map_option (\<lambda>(b', s'). (contents b', s')) (on_message e c b s) = codec_spec c (contents b) s"
  using on_message_inv_spec [OF assms, where e = e and c = c and s = s] by (auto split: option.splits)

theorem on_message_refines_spec_witness:
  "map_option (\<lambda>(b', s'). (contents b', s'))
     (on_message LittleEndian \<lparr>msg_cb = (\<lambda>s f. Some (s @ [f])), err_cb = None, conn_force_close = Some\<rparr>
        (frame_buffer BigEndian ''ab'') []) = Some ([], [''ab''])"
proof -
  have ok: "body_ok (Some kMaxBodySize) ''ab''" by (simp add: body_ok_def kMaxBodySize_def)
  show ?thesis
    using srv.scan_frames [of "[''ab'']" "[]"] ok
    by (simp add: on_message_refines_spec [OF frame_buffer_inv] wire_simps codec_spec_def
        srv.scan_incomplete [OF srv.empty_incomplete])
qed



text \<open>
  C14. Round trip over the wire: bodies of at most 64 MiB sent with \<^verbatim>\<open>Codec::send_raw\<close> from any
  host and received on any host, in any chunking, are exactly the frames the receiver's
  callback gets, in order, with nothing left over.
\<close>

theorem codec_roundtrip:
  assumes "\<forall>body \<in> set bodies. length body \<le> kMaxBodySize"
    and "concat ds = concat (map (\<lambda>body. contents (frame_buffer e body)) bodies)"
  shows "map_option (\<lambda>(b', s'). (contents b', s')) (feed e' c ds (buffer_new n) s) =
         map_option (\<lambda>s'. ([], s')) (fold_cb (msg_cb c) bodies s)"
proof -
  have ok: "list_all (body_ok (Some kMaxBodySize)) bodies"
    using assms(1) by (auto simp: list_all_iff body_ok_def kMaxBodySize_def)
  have sc: "scan (parse_frame (Some kMaxBodySize)) (concat ds) = (bodies, None, [])"
    using srv.scan_frames [OF ok, of "[]"] srv.scan_incomplete [OF srv.empty_incomplete]
    by (simp add: assms(2) wire_simps)
  then show ?thesis
    using feed_spec [OF buffer_new_inv, of n ds e' c s]
    by (cases "fold_cb (msg_cb c) bodies s") (simp_all add: queue_simps srv.empty_incomplete codec_spec_def)
qed

theorem codec_roundtrip_witness:
  "map_option (\<lambda>(b', s'). (contents b', s'))
     (feed BigEndian \<lparr>msg_cb = (\<lambda>s f. Some (s @ [f])), err_cb = None, conn_force_close = Some\<rparr>
        (map (\<lambda>x. [x]) (contents (frame_buffer LittleEndian ''ping''))) (buffer_new 3) []) =
   Some ([], [''ping''])"
  using codec_roundtrip [of "[''ping'']" "map (\<lambda>x. [x]) (contents (frame_buffer LittleEndian ''ping''))"
      LittleEndian BigEndian "\<lparr>msg_cb = (\<lambda>s f. Some (s @ [f])), err_cb = None, conn_force_close = Some\<rparr>" 3 "[]"]
  by (simp add: kMaxBodySize_def)



end
