(* ===== verification/Channel.thy ===== *)
theory Channel
  imports Prelude
begin

text \<open>
  \<^verbatim>\<open>net/channel.h\<close>, \<^verbatim>\<open>net/channel.cpp\<close>, \<^verbatim>\<open>net/epoll_poller.h\<close> and
  \<^verbatim>\<open>net/epoll_poller.cpp\<close>: a channel ties a file descriptor to event interests and callbacks,
  the poller keeps the kernel's interest list in step with them. The results of
  \<^verbatim>\<open>epoll_ctl\<close> are ignored by the code, so the model records the calls it makes in a log;
  the theorems replay that log against the documented error conditions of the call.
\<close>

unbundle bit_operations_syntax

section \<open>Channels\<close>

definition EPOLLIN :: u32 where "EPOLLIN = 0x001"

definition EPOLLPRI :: u32 where "EPOLLPRI = 0x002"

definition EPOLLOUT :: u32 where "EPOLLOUT = 0x004"

definition EPOLLERR :: u32 where "EPOLLERR = 0x008"

definition EPOLLHUP :: u32 where "EPOLLHUP = 0x010"

definition EPOLLRDHUP :: u32 where "EPOLLRDHUP = 0x2000"

definition EPOLLET :: u32 where "EPOLLET = 0x80000000"

definition kNoneEvent :: u32 where "kNoneEvent = 0"

definition kReadEvent :: u32 where "kReadEvent = EPOLLIN OR EPOLLPRI"

definition kWriteEvent :: u32 where "kWriteEvent = EPOLLOUT"

lemmas epoll_bits = EPOLLIN_def EPOLLPRI_def EPOLLOUT_def EPOLLERR_def EPOLLHUP_def EPOLLRDHUP_def
  EPOLLET_def kNoneEvent_def kReadEvent_def kWriteEvent_def

text \<open>The class; \<open>ch_ptr\<close> is the object's address, which the kernel hands back in events.\<close>

record channel =
  ch_ptr :: nat
  ch_fd :: int
  ch_events :: u32
  ch_revents :: u32
  ch_index :: int
  ch_tied :: bool

definition kNew :: int where "kNew = -1"

definition kAdded :: int where "kAdded = 0"

definition kDeleted :: int where "kDeleted = 1"

lemmas index_defs = kNew_def kAdded_def kDeleted_def

definition channel_new :: "nat \<Rightarrow> int \<Rightarrow> channel" where
  "channel_new ptr fd = \<lparr>ch_ptr = ptr, ch_fd = fd, ch_events = 0, ch_revents = 0, ch_index = -1, ch_tied = False\<rparr>"

definition channel_tie :: "channel \<Rightarrow> channel" where
  "channel_tie ch = ch\<lparr>ch_tied := True\<rparr>"

definition is_writing :: "channel \<Rightarrow> bool" where
  "is_writing ch \<longleftrightarrow> ch_events ch AND kWriteEvent \<noteq> 0"

definition is_reading :: "channel \<Rightarrow> bool" where
  "is_reading ch \<longleftrightarrow> ch_events ch AND kReadEvent \<noteq> 0"

definition is_none_event :: "channel \<Rightarrow> bool" where
  "is_none_event ch \<longleftrightarrow> ch_events ch = kNoneEvent"

text \<open>The destructor; a failed assertion is \<^const>\<open>None\<close>.\<close>

definition channel_destroy :: "channel \<Rightarrow> unit option" where
  "channel_destroy ch = (if is_none_event ch then Some () else None)"

text \<open>
  The callbacks of a channel on the state of its owner; a null \<^verbatim>\<open>std::function\<close> is
  \<^const>\<open>None\<close>, and a callback that ends the process (an uncaught exception) returns \<^const>\<open>None\<close>.
\<close>

record 's channel_cbs =
  read_cb :: "('s \<Rightarrow> 's option) option"
  write_cb :: "('s \<Rightarrow> 's option) option"
  error_cb :: "('s \<Rightarrow> 's option) option"
  close_cb :: "('s \<Rightarrow> 's option) option"

definition no_channel_cbs :: "'s channel_cbs" where
  "no_channel_cbs = \<lparr>read_cb = None, write_cb = None, error_cb = None, close_cb = None\<rparr>"

definition set_read_callback :: "('s \<Rightarrow> 's option) \<Rightarrow> 's channel_cbs \<Rightarrow> 's channel_cbs" where
  [simp]: "set_read_callback cb cbs = cbs\<lparr>read_cb := Some cb\<rparr>"

definition set_write_callback :: "('s \<Rightarrow> 's option) \<Rightarrow> 's channel_cbs \<Rightarrow> 's channel_cbs" where
  [simp]: "set_write_callback cb cbs = cbs\<lparr>write_cb := Some cb\<rparr>"

definition set_error_callback :: "('s \<Rightarrow> 's option) \<Rightarrow> 's channel_cbs \<Rightarrow> 's channel_cbs" where
  [simp]: "set_error_callback cb cbs = cbs\<lparr>error_cb := Some cb\<rparr>"

definition set_close_callback :: "('s \<Rightarrow> 's option) \<Rightarrow> 's channel_cbs \<Rightarrow> 's channel_cbs" where
  [simp]: "set_close_callback cb cbs = cbs\<lparr>close_cb := Some cb\<rparr>"

definition set_revents :: "u32 \<Rightarrow> channel \<Rightarrow> channel" where
  [simp]: "set_revents revts ch = ch\<lparr>ch_revents := revts\<rparr>"

definition run_cb :: "('s \<Rightarrow> 's option) option \<Rightarrow> 's \<Rightarrow> 's option" where
  "run_cb cb s = (case cb of None \<Rightarrow> Some s | Some f \<Rightarrow> f s)"

definition handle_event_with_guard :: "u32 \<Rightarrow> 's channel_cbs \<Rightarrow> 's \<Rightarrow> 's option" where
  "handle_event_with_guard revts cbs s =
     do { s \<leftarrow> (if revts AND EPOLLHUP \<noteq> 0 \<and> revts AND EPOLLIN = 0 then run_cb (close_cb cbs) s else Some s);
          s \<leftarrow> (if revts AND EPOLLERR \<noteq> 0 then run_cb (error_cb cbs) s else Some s);
          s \<leftarrow> (if revts AND (EPOLLIN OR EPOLLPRI OR EPOLLRDHUP) \<noteq> 0 then run_cb (read_cb cbs) s else Some s);
          (if revts AND EPOLLOUT \<noteq> 0 then run_cb (write_cb cbs) s else Some s) }"

text \<open>\<open>alive\<close>: whether \<^verbatim>\<open>tie_.lock()\<close> still yields the tied object.\<close>

definition handle_event :: "bool \<Rightarrow> channel \<Rightarrow> 's channel_cbs \<Rightarrow> 's \<Rightarrow> 's option" where
  "handle_event alive ch cbs s =
     (if ch_tied ch then
        if alive then handle_event_with_guard (ch_revents ch) cbs s else Some s
      else handle_event_with_guard (ch_revents ch) cbs s)"

section \<open>The poller\<close>

datatype ctl_op = CtlAdd | CtlMod | CtlDel

text \<open>One call of \<^verbatim>\<open>epoll_ctl\<close>: operation, descriptor, event mask and user pointer.\<close>

type_synonym ctl_call = "ctl_op \<times> int \<times> u32 \<times> nat"

record poller =
  p_channels :: "int \<rightharpoonup> nat"
  p_events_size :: nat
  p_log :: "ctl_call list"
  p_epfd :: int

definition kInitEventListSize :: nat where "kInitEventListSize = 16"

text \<open>The constructor throws when \<^verbatim>\<open>epoll_create1\<close> gave no descriptor; the destructor closes it.\<close>

definition poller_new :: "int \<Rightarrow> poller" where
  "poller_new epfd = \<lparr>p_channels = Map.empty, p_events_size = kInitEventListSize, p_log = [], p_epfd = epfd\<rparr>"

definition poller_create :: "int \<Rightarrow> string + poller" where
  "poller_create epfd = (if epfd < 0 then Inl ''epoll_create1 failed'' else Inr (poller_new epfd))"

definition poller_destroy :: "poller \<Rightarrow> int" where
  "poller_destroy p = p_epfd p"

definition epoll_ctl :: "ctl_op \<Rightarrow> channel \<Rightarrow> poller \<Rightarrow> poller" where
  "epoll_ctl op ch p = p\<lparr>p_log := p_log p @ [(op, ch_fd ch, ch_events ch, ch_ptr ch)]\<rparr>"

definition update_channel :: "channel \<Rightarrow> poller \<Rightarrow> channel \<times> poller" where
  "update_channel ch p =
     (let index = ch_index ch in
      if index = kNew \<or> index = kDeleted then
        let p1 = (if index = kNew then p\<lparr>p_channels := (p_channels p)(ch_fd ch \<mapsto> ch_ptr ch)\<rparr> else p);
            ch1 = ch\<lparr>ch_index := kAdded\<rparr>
        in (ch1, epoll_ctl CtlAdd ch1 p1)
      else if is_none_event ch then
        (ch\<lparr>ch_index := kDeleted\<rparr>, epoll_ctl CtlDel ch p)
      else (ch, epoll_ctl CtlMod ch p))"

definition remove_channel :: "channel \<Rightarrow> poller \<Rightarrow> channel \<times> poller" where
  "remove_channel ch p =
     (let p1 = p\<lparr>p_channels := (p_channels p)(ch_fd ch := None)\<rparr>;
          p2 = (if ch_index ch = kAdded then epoll_ctl CtlDel ch p1 else p1)
      in (ch\<lparr>ch_index := kNew\<rparr>, p2))"

text \<open>
  \<^verbatim>\<open>epoll_wait\<close> is a parameter: given the capacity of the event array it answers with an error
  number or with the ready events (user pointer and mask). The result lists the active
  channels with the mask \<^verbatim>\<open>fill_active_channels\<close> stores in each.
\<close>

type_synonym epoll_wait_call = "nat \<Rightarrow> int + (nat \<times> u32) list"

definition poll :: "epoll_wait_call \<Rightarrow> poller \<Rightarrow> (nat \<times> u32) list \<times> poller" where
  "poll epoll_wait p =
     (case epoll_wait (p_events_size p) of
        Inl _ \<Rightarrow> ([], p)
      | Inr evs \<Rightarrow>
          (evs, if length evs = p_events_size p then p\<lparr>p_events_size := p_events_size p * 2\<rparr> else p))"

section \<open>The channel's interest operations\<close>

datatype interest_op = EnableReading | DisableReading | EnableWriting | DisableWriting | DisableAll

text \<open>The change of \<^verbatim>\<open>events_\<close> in \<^verbatim>\<open>enable_reading\<close> and its siblings, each followed by \<^verbatim>\<open>update()\<close>.\<close>

fun interest :: "interest_op \<Rightarrow> u32 \<Rightarrow> u32" where
  "interest EnableReading ev = ev OR kReadEvent"
| "interest DisableReading ev = ev AND NOT kReadEvent"
| "interest EnableWriting ev = ev OR kWriteEvent"
| "interest DisableWriting ev = ev AND NOT kWriteEvent"
| "interest DisableAll ev = kNoneEvent"

definition set_interest :: "interest_op \<Rightarrow> channel \<Rightarrow> poller \<Rightarrow> channel \<times> poller" where
  "set_interest op ch p = update_channel (ch\<lparr>ch_events := interest op (ch_events ch)\<rparr>) p"

text \<open>\<^verbatim>\<open>Channel::remove\<close>: first \<^verbatim>\<open>disable_all\<close>, then \<^verbatim>\<open>remove_channel\<close>.\<close>

definition channel_remove :: "channel \<Rightarrow> poller \<Rightarrow> channel \<times> poller" where
  "channel_remove ch p = (case set_interest DisableAll ch p of (ch1, p1) \<Rightarrow> remove_channel ch1 p1)"

section \<open>What the kernel sees\<close>

text \<open>
  The documented behaviour of \<^verbatim>\<open>epoll_ctl\<close> on an interest list: adding a registered descriptor
  fails with \<^verbatim>\<open>EEXIST\<close>, modifying or deleting an unregistered one with \<^verbatim>\<open>ENOENT\<close>;
  \<open>ctl_replay\<close> is \<^const>\<open>None\<close> as soon as one call of the log would fail.
\<close>

fun ctl_apply :: "(int \<rightharpoonup> u32 \<times> nat) \<Rightarrow> ctl_call \<Rightarrow> (int \<rightharpoonup> u32 \<times> nat) option" where
  "ctl_apply k (CtlAdd, fd, ev, ptr) = (if k fd = None then Some (k(fd \<mapsto> (ev, ptr))) else None)"
| "ctl_apply k (CtlMod, fd, ev, ptr) = (if k fd = None then None else Some (k(fd \<mapsto> (ev, ptr))))"
| "ctl_apply k (CtlDel, fd, ev, ptr) = (if k fd = None then None else Some (k(fd := None)))"

fun ctl_replay :: "ctl_call list \<Rightarrow> (int \<rightharpoonup> u32 \<times> nat) \<Rightarrow> (int \<rightharpoonup> u32 \<times> nat) option" where
  "ctl_replay [] k = Some k"
| "ctl_replay (c # cs) k = do { k' \<leftarrow> ctl_apply k c; ctl_replay cs k' }"

text \<open>A program over a table of channels with pairwise distinct descriptors and addresses.\<close>

datatype poll_op = Interest nat interest_op | Remove nat

fun poll_exec :: "poll_op \<Rightarrow> channel list \<times> poller \<Rightarrow> channel list \<times> poller" where
  "poll_exec (Interest i op) (chs, p) =
     (if i < length chs then (case set_interest op (chs ! i) p of (ch, p') \<Rightarrow> (chs[i := ch], p')) else (chs, p))"
| "poll_exec (Remove i) (chs, p) =
     (if i < length chs then (case channel_remove (chs ! i) p of (ch, p') \<Rightarrow> (chs[i := ch], p')) else (chs, p))"

definition fresh_channels :: "int list \<Rightarrow> channel list" where
  "fresh_channels fds = map (\<lambda>i. channel_new i (fds ! i)) [0..<length fds]"

text \<open>
  The state the three parties share: what the replayed log leaves in the kernel, what the
  poller's table holds and what each channel's index says.
\<close>

definition agrees :: "channel \<Rightarrow> (int \<rightharpoonup> u32 \<times> nat) \<Rightarrow> (int \<rightharpoonup> nat) \<Rightarrow> bool" where
  "agrees ch k t \<longleftrightarrow>
     ch_index ch \<in> {kNew, kAdded, kDeleted} \<and>
     k (ch_fd ch) = (if ch_index ch = kAdded then Some (ch_events ch, ch_ptr ch) else None) \<and>
     t (ch_fd ch) = (if ch_index ch = kNew then None else Some (ch_ptr ch))"

definition poll_inv :: "channel list \<times> poller \<Rightarrow> bool" where
  "poll_inv st \<longleftrightarrow> (case st of (chs, p) \<Rightarrow>
     distinct (map ch_fd chs) \<and>
     (\<exists>k. ctl_replay (p_log p) Map.empty = Some k \<and> (\<forall>ch \<in> set chs. agrees ch k (p_channels p))))"

section \<open>Lemmas\<close>

lemma ctl_replay_append:
  "ctl_replay (xs @ ys) k = do { k' \<leftarrow> ctl_replay xs k; ctl_replay ys k' }"
  by (induction xs arbitrary: k) (auto split: bind_splits)

text \<open>Interest operations and removal keep a channel's identity.\<close>

lemma set_interest_id:
  assumes "set_interest op ch p = (ch', p')"
  shows "ch_fd ch' = ch_fd ch" "ch_ptr ch' = ch_ptr ch" "ch_events ch' = interest op (ch_events ch)" "ch_tied ch' = ch_tied ch"
    "p_epfd p' = p_epfd p"
  using assms by (auto simp: set_interest_def update_channel_def epoll_ctl_def Let_def split: if_splits)

lemma channel_remove_id:
  assumes "channel_remove ch p = (ch', p')"
  shows "ch_fd ch' = ch_fd ch" "ch_ptr ch' = ch_ptr ch" "is_none_event ch'" "ch_index ch' = kNew" "ch_tied ch' = ch_tied ch"
    "p_epfd p' = p_epfd p"
proof -
  obtain ch1 p1 where s: "set_interest DisableAll ch p = (ch1, p1)" by fastforce
  then show "ch_fd ch' = ch_fd ch" "ch_ptr ch' = ch_ptr ch" "is_none_event ch'" "ch_index ch' = kNew" "ch_tied ch' = ch_tied ch"
    "p_epfd p' = p_epfd p"
    using assms set_interest_id [OF s] by (auto simp: channel_remove_def remove_channel_def epoll_ctl_def is_none_event_def Let_def)
qed

lemma interest_none: "op = DisableAll \<or> op = DisableWriting \<Longrightarrow> ev = kNoneEvent \<Longrightarrow> interest op ev = kNoneEvent"
  by (auto simp: kNoneEvent_def)

text \<open>One operation on a channel keeps the three views of it in step and leaves other descriptors alone.\<close>

lemma set_interest_agrees:
  assumes "set_interest op ch p = (ch', p')" "ctl_replay (p_log p) Map.empty = Some k"
    "agrees ch k (p_channels p)"
  shows "\<exists>k'. ctl_replay (p_log p') Map.empty = Some k' \<and> agrees ch' k' (p_channels p') \<and>
    (\<forall>fd. fd \<noteq> ch_fd ch \<longrightarrow> k' fd = k fd \<and> p_channels p' fd = p_channels p fd)"
    and "ch_fd ch' = ch_fd ch" "ch_ptr ch' = ch_ptr ch" "ch_events ch' = interest op (ch_events ch)"
  using assms
  by (auto simp: set_interest_def update_channel_def Let_def epoll_ctl_def agrees_def index_defs
      ctl_replay_append split: if_splits)

lemma channel_remove_agrees:
  assumes "channel_remove ch p = (ch', p')" "ctl_replay (p_log p) Map.empty = Some k"
    "agrees ch k (p_channels p)"
  shows "\<exists>k'. ctl_replay (p_log p') Map.empty = Some k' \<and> agrees ch' k' (p_channels p') \<and>
    (\<forall>fd. fd \<noteq> ch_fd ch \<longrightarrow> k' fd = k fd \<and> p_channels p' fd = p_channels p fd)"
    and "ch_fd ch' = ch_fd ch" "ch_ptr ch' = ch_ptr ch" "ch_index ch' = kNew" "ch_events ch' = 0"
proof -
  obtain ch1 p1 where s: "set_interest DisableAll ch p = (ch1, p1)" by fastforce
  have r: "remove_channel ch1 p1 = (ch', p')" using assms(1) s by (simp add: channel_remove_def)
  show "\<exists>k'. ctl_replay (p_log p') Map.empty = Some k' \<and> agrees ch' k' (p_channels p') \<and>
    (\<forall>fd. fd \<noteq> ch_fd ch \<longrightarrow> k' fd = k fd \<and> p_channels p' fd = p_channels p fd)"
    using set_interest_agrees [OF s assms(2,3)] r
    by (auto simp: remove_channel_def Let_def epoll_ctl_def agrees_def ctl_replay_append index_defs
        split: if_splits)
  show "ch_fd ch' = ch_fd ch" "ch_ptr ch' = ch_ptr ch" "ch_index ch' = kNew" "ch_events ch' = 0"
    using set_interest_agrees(2-4) [OF s assms(2,3)] r
    by (auto simp: remove_channel_def Let_def kNoneEvent_def)
qed

lemma poll_inv_update:
  assumes inv: "poll_inv (chs, p)" and i: "i < length chs" and fd: "ch_fd ch' = ch_fd (chs ! i)"
    and step: "\<And>k. ctl_replay (p_log p) Map.empty = Some k \<Longrightarrow> agrees (chs ! i) k (p_channels p) \<Longrightarrow>
      \<exists>k'. ctl_replay (p_log p') Map.empty = Some k' \<and> agrees ch' k' (p_channels p') \<and>
      (\<forall>fd. fd \<noteq> ch_fd (chs ! i) \<longrightarrow> k' fd = k fd \<and> p_channels p' fd = p_channels p fd)"
  shows "poll_inv (chs[i := ch'], p')"
proof -
  obtain k where k: "ctl_replay (p_log p) Map.empty = Some k" "\<And>ch. ch \<in> set chs \<Longrightarrow> agrees ch k (p_channels p)"
    and d: "distinct (map ch_fd chs)"
    using inv by (auto simp: poll_inv_def)
  obtain k' where k': "ctl_replay (p_log p') Map.empty = Some k'" "agrees ch' k' (p_channels p')"
    "\<And>fd. fd \<noteq> ch_fd (chs ! i) \<Longrightarrow> k' fd = k fd \<and> p_channels p' fd = p_channels p fd"
    using step [OF k(1) k(2) [OF nth_mem [OF i]]] by blast
  have "map ch_fd (chs[i := ch']) = map ch_fd chs"
    using i fd by (simp add: map_update list_update_same_conv)
  then have d': "distinct (map ch_fd (chs[i := ch']))" using d by simp
  have "agrees (chs[i := ch'] ! j) k' (p_channels p')" if "j < length chs" for j
  proof (cases "j = i")
    case True
    then show ?thesis using k'(2) i by simp
  next
    case False
    then have "ch_fd (chs ! j) \<noteq> ch_fd (chs ! i)"
      using d that i by (auto simp: distinct_conv_nth)
    then show ?thesis
      using k(2) [OF nth_mem [OF that]] k'(3) [of "ch_fd (chs ! j)"] False
      by (simp add: agrees_def)
  qed
  then show ?thesis
    using d' k'(1) by (auto simp: poll_inv_def in_set_conv_nth)
qed

lemma poll_exec_inv: "poll_inv st \<Longrightarrow> poll_inv (poll_exec op st)"
proof (induction op st rule: poll_exec.induct)
  case (1 i op chs p)
  obtain ch' p' where s: "set_interest op (chs ! i) p = (ch', p')" by fastforce
  show ?case
  proof (cases "i < length chs")
    case True
    have "ch_fd ch' = ch_fd (chs ! i)" using s 1 True set_interest_agrees(2) [OF s]
      by (auto simp: poll_inv_def)
    then show ?thesis
      using poll_inv_update [OF 1 True, of ch' p'] set_interest_agrees(1) [OF s] s True by simp
  qed (use 1 in simp)
next
  case (2 i chs p)
  obtain ch' p' where s: "channel_remove (chs ! i) p = (ch', p')" by fastforce
  show ?case
  proof (cases "i < length chs")
    case True
    have "ch_fd ch' = ch_fd (chs ! i)" using s 2 True channel_remove_agrees(2) [OF s]
      by (auto simp: poll_inv_def)
    then show ?thesis
      using poll_inv_update [OF 2 True, of ch' p'] channel_remove_agrees(1) [OF s] s True by simp
  qed (use 2 in simp)
qed

lemma poll_fold_inv: "poll_inv st \<Longrightarrow> poll_inv (fold poll_exec ops st)"
  by (induction ops arbitrary: st) (auto simp: poll_exec_inv)

lemma fresh_channels_inv: "distinct fds \<Longrightarrow> poll_inv (fresh_channels fds, poller_new epfd)"
proof -
  have "map ch_fd (fresh_channels fds) = fds"
    by (simp add: fresh_channels_def channel_new_def map_nth o_def)
  then show "distinct fds \<Longrightarrow> ?thesis"
    by (auto simp: poll_inv_def agrees_def poller_new_def fresh_channels_def channel_new_def index_defs)
qed

lemma interest_no_et: "ev AND EPOLLET = 0 \<Longrightarrow> interest op ev AND EPOLLET = 0"
  by (cases op) (simp_all add: epoll_bits bit.conj_disj_distrib2 and.assoc and.left_commute)

definition no_et :: "channel list \<times> poller \<Rightarrow> bool" where
  "no_et st \<longleftrightarrow> (\<forall>ch \<in> set (fst st). ch_events ch AND EPOLLET = 0) \<and>
     (\<forall>c \<in> set (p_log (snd st)). fst (snd (snd c)) AND EPOLLET = 0)"

lemma set_interest_no_et:
  assumes "set_interest op ch p = (ch', p')" "ch_events ch AND EPOLLET = 0"
    "\<forall>c \<in> set (p_log p). fst (snd (snd c)) AND EPOLLET = 0"
  shows "ch_events ch' AND EPOLLET = 0 \<and> (\<forall>c \<in> set (p_log p'). fst (snd (snd c)) AND EPOLLET = 0)"
  using assms interest_no_et [OF assms(2), of op]
  by (auto simp: set_interest_def update_channel_def Let_def epoll_ctl_def split: if_splits)

lemma channel_remove_no_et:
  assumes "channel_remove ch p = (ch', p')" "ch_events ch AND EPOLLET = 0"
    "\<forall>c \<in> set (p_log p). fst (snd (snd c)) AND EPOLLET = 0"
  shows "ch_events ch' AND EPOLLET = 0 \<and> (\<forall>c \<in> set (p_log p'). fst (snd (snd c)) AND EPOLLET = 0)"
proof -
  obtain ch1 p1 where s: "set_interest DisableAll ch p = (ch1, p1)" by fastforce
  from set_interest_no_et [OF s assms(2,3)] show ?thesis
    using assms(1) s by (auto simp: channel_remove_def remove_channel_def Let_def epoll_ctl_def split: if_splits)
qed

lemma poll_exec_no_et: "no_et st \<Longrightarrow> no_et (poll_exec op st)"
proof (induction op st rule: poll_exec.induct)
  case (1 i op chs p)
  show ?case
  proof (cases "i < length chs")
    case True
    obtain ch' p' where s: "set_interest op (chs ! i) p = (ch', p')" by fastforce
    have "ch_events (chs ! i) AND EPOLLET = 0" "\<forall>c \<in> set (p_log p). fst (snd (snd c)) AND EPOLLET = 0"
      using 1 nth_mem [OF True] by (auto simp: no_et_def)
    from set_interest_no_et [OF s this] show ?thesis
      using 1 s True by (auto simp: no_et_def dest!: set_update_subset_insert [THEN subsetD])
  qed (use 1 in simp)
next
  case (2 i chs p)
  show ?case
  proof (cases "i < length chs")
    case True
    obtain ch' p' where s: "channel_remove (chs ! i) p = (ch', p')" by fastforce
    have "ch_events (chs ! i) AND EPOLLET = 0" "\<forall>c \<in> set (p_log p). fst (snd (snd c)) AND EPOLLET = 0"
      using 2 nth_mem [OF True] by (auto simp: no_et_def)
    from channel_remove_no_et [OF s this] show ?thesis
      using 2 s True by (auto simp: no_et_def dest!: set_update_subset_insert [THEN subsetD])
  qed (use 2 in simp)
qed

section \<open>Properties\<close>

text \<open>
  C27. The poller never makes an \<^verbatim>\<open>epoll_ctl\<close> call that the kernel would refuse: for every sequence
  of interest changes and removals over channels with distinct descriptors, replaying its
  calls succeeds, and afterwards the kernel's interest list, the poller's table and every
  channel's index and event mask agree.
\<close>

theorem epoll_ctl_never_refused:
  assumes "distinct fds"
  shows "case fold poll_exec ops (fresh_channels fds, poller_new epfd) of (chs, p) \<Rightarrow>
    \<exists>k. ctl_replay (p_log p) Map.empty = Some k \<and> (\<forall>ch \<in> set chs. agrees ch k (p_channels p))"
  using poll_fold_inv [OF fresh_channels_inv [OF assms], of ops epfd]
  by (auto simp: poll_inv_def split: prod.splits)

theorem epoll_ctl_never_refused_witness:
  "case fold poll_exec [Interest 0 EnableReading, Interest 0 DisableAll, Remove 0, Interest 1 EnableWriting]
      (fresh_channels [5, 7], poller_new 3) of (chs, p) \<Rightarrow>
    \<exists>k. ctl_replay (p_log p) Map.empty = Some k \<and> (\<forall>ch \<in> set chs. agrees ch k (p_channels p))"
  by (rule epoll_ctl_never_refused) simp

text \<open>
  No \<^verbatim>\<open>epoll_ctl\<close> call ever asks for edge-triggered delivery: whatever the channels do, the
  event masks handed to the kernel have the \<^verbatim>\<open>EPOLLET\<close> bit clear, so the poller is level-triggered.
\<close>

lemma poller_is_level_triggered:
  assumes "(op, fd, ev, ptr) \<in> set (p_log (snd (fold poll_exec ops (fresh_channels fds, poller_new epfd))))"
  shows "ev AND EPOLLET = 0"
proof -
  have "no_et (fresh_channels fds, poller_new epfd)"
    by (auto simp: no_et_def fresh_channels_def channel_new_def poller_new_def)
  then have "no_et (fold poll_exec ops (fresh_channels fds, poller_new epfd))"
    by (induction ops rule: rev_induct) (simp_all add: poll_exec_no_et)
  then show ?thesis using assms by (force simp: no_et_def)
qed

end
