(* ===== verification/Event_Loop.thy ===== *)
theory Event_Loop
  imports Channel
begin

text \<open>
  \<^verbatim>\<open>net/event_loop.h\<close> and \<^verbatim>\<open>net/event_loop.cpp\<close>: the reactor. Its closures are values of a
  type \<open>'f\<close> that the owner interprets; the world record holds the loop and the thread that is
  executing, and later theories extend it. A failed \<^verbatim>\<open>assert\<close> or an exception is \<^const>\<open>None\<close>.
  The second half is the loop as a concurrent machine: other threads queue closures while the
  loop polls, handles events and runs closures, and the invariant shows that no closure is
  lost, duplicated or reordered and that no wake-up is missed.
\<close>

section \<open>The class\<close>

record 'f event_loop =
  quit_flag :: bool
  thread_id :: nat
  loop_poller :: poller
  wakeup_channel :: channel
  pending_functors :: "'f list"
  calling_pending_functors :: bool
  eventfd_count :: nat

record 'f loop_world =
  the_loop :: "'f event_loop"
  cur_thread :: nat

definition is_in_loop_thread :: "('f, 'w) loop_world_scheme \<Rightarrow> bool" where
  "is_in_loop_thread w \<longleftrightarrow> thread_id (the_loop w) = cur_thread w"

text \<open>
  The constructor: the members, then the wake-up descriptor is registered for reading. The answers
  of \<^verbatim>\<open>epoll_create1\<close> and \<^verbatim>\<open>eventfd\<close> are parameters; the result is the message of the exception or the loop,
  with the descriptors that were closed on the way out.
\<close>

record loop_calls =
  sys_epoll_create1 :: int
  sys_eventfd :: int

definition create_eventfd :: "int \<Rightarrow> string + int" where
  "create_eventfd fd = (if fd < 0 then Inl ''eventfd failed'' else Inr fd)"

definition event_loop_new :: "nat \<Rightarrow> nat \<Rightarrow> poller \<Rightarrow> int \<Rightarrow> 'f event_loop" where
  "event_loop_new tid ptr poller wakeup_fd =
     (case set_interest EnableReading (channel_new ptr wakeup_fd) poller of (ch, p) \<Rightarrow>
        \<lparr>quit_flag = False, thread_id = tid, loop_poller = p, wakeup_channel = ch,
         pending_functors = [], calling_pending_functors = False, eventfd_count = 0\<rparr>)"

definition event_loop_create :: "loop_calls \<Rightarrow> nat \<Rightarrow> nat \<Rightarrow> (string + 'f event_loop) \<times> int list" where
  "event_loop_create S tid ptr =
     (case poller_create (sys_epoll_create1 S) of
        Inl err \<Rightarrow> (Inl err, [])
      | Inr poller \<Rightarrow>
          (case create_eventfd (sys_eventfd S) of
             Inl err \<Rightarrow> (Inl err, [poller_destroy poller])
           | Inr wakeup_fd \<Rightarrow> (Inr (event_loop_new tid ptr poller wakeup_fd), [])))"

text \<open>\<^verbatim>\<open>update_channel\<close>/\<^verbatim>\<open>remove_channel\<close> assert the owning thread, then go to the poller.\<close>

definition loop_set_interest :: "interest_op \<Rightarrow> channel \<Rightarrow> ('f, 'w) loop_world_scheme \<Rightarrow>
    (channel \<times> ('f, 'w) loop_world_scheme) option" where
  "loop_set_interest op ch w =
     (if is_in_loop_thread w then
        case set_interest op ch (loop_poller (the_loop w)) of (ch', p') \<Rightarrow>
          Some (ch', w\<lparr>the_loop := (the_loop w)\<lparr>loop_poller := p'\<rparr>\<rparr>)
      else None)"

definition loop_channel_remove :: "channel \<Rightarrow> ('f, 'w) loop_world_scheme \<Rightarrow>
    (channel \<times> ('f, 'w) loop_world_scheme) option" where
  "loop_channel_remove ch w =
     (if is_in_loop_thread w then
        case channel_remove ch (loop_poller (the_loop w)) of (ch', p') \<Rightarrow>
          Some (ch', w\<lparr>the_loop := (the_loop w)\<lparr>loop_poller := p'\<rparr>\<rparr>)
      else None)"

text \<open>
  The destructor: \<^verbatim>\<open>disable_all\<close>, then \<^verbatim>\<open>remove\<close> (which disables again), then the wake-up descriptor,
  which the result names, is closed. After the closures of the queue, the last members to go are
  the channel and the poller, with the epoll descriptor.
\<close>

definition event_loop_destroy :: "('f, 'w) loop_world_scheme \<Rightarrow> (int \<times> ('f, 'w) loop_world_scheme) option" where
  "event_loop_destroy w =
     do { (ch1, w1) \<leftarrow> loop_set_interest DisableAll (wakeup_channel (the_loop w)) w;
          (ch2, w2) \<leftarrow> loop_channel_remove ch1 w1;
          Some (ch_fd ch2, w2\<lparr>the_loop := (the_loop w2)\<lparr>wakeup_channel := ch2\<rparr>\<rparr>) }"

definition loop_members_destroy :: "'f event_loop \<Rightarrow> int option" where
  "loop_members_destroy l = do { _ \<leftarrow> channel_destroy (wakeup_channel l); Some (poller_destroy (loop_poller l)) }"

text \<open>A loop with no closures, destroyed on the thread \<open>tid\<close>: the descriptors that are closed.\<close>

definition loop_unwind :: "nat \<Rightarrow> 'f event_loop \<Rightarrow> int list option" where
  "loop_unwind tid l =
     do { (fd, w) \<leftarrow> event_loop_destroy \<lparr>the_loop = l, cur_thread = tid\<rparr>;
          epfd \<leftarrow> loop_members_destroy (the_loop w);
          Some [fd, epfd] }"

text \<open>The eventfd: \<^verbatim>\<open>wakeup\<close> adds one to its counter, \<^verbatim>\<open>handle_read\<close> reads it back to zero.\<close>

definition wakeup :: "'f event_loop \<Rightarrow> 'f event_loop" where
  "wakeup l = l\<lparr>eventfd_count := eventfd_count l + 1\<rparr>"

definition wakeup_handle_read :: "'f event_loop \<Rightarrow> 'f event_loop" where
  "wakeup_handle_read l = l\<lparr>eventfd_count := 0\<rparr>"

definition push_functor :: "'f \<Rightarrow> 'f event_loop \<Rightarrow> 'f event_loop" where
  "push_functor f l = l\<lparr>pending_functors := pending_functors l @ [f]\<rparr>"

definition queue_in_loop :: "'f \<Rightarrow> ('f, 'w) loop_world_scheme \<Rightarrow> ('f, 'w) loop_world_scheme" where
  "queue_in_loop f w =
     (let w1 = w\<lparr>the_loop := push_functor f (the_loop w)\<rparr> in
      if \<not> is_in_loop_thread w1 \<or> calling_pending_functors (the_loop w1)
      then w1\<lparr>the_loop := wakeup (the_loop w1)\<rparr> else w1)"

text \<open>\<open>now\<close> is the closure's effect, \<open>f\<close> the same closure as a value for the queue.\<close>

definition run_in_loop :: "(('f, 'w) loop_world_scheme \<Rightarrow> ('f, 'w) loop_world_scheme option) \<Rightarrow> 'f \<Rightarrow>
    ('f, 'w) loop_world_scheme \<Rightarrow> ('f, 'w) loop_world_scheme option" where
  "run_in_loop now f w = (if is_in_loop_thread w then now w else Some (queue_in_loop f w))"

definition loop_quit :: "('f, 'w) loop_world_scheme \<Rightarrow> ('f, 'w) loop_world_scheme" where
  "loop_quit w =
     (let w1 = w\<lparr>the_loop := (the_loop w)\<lparr>quit_flag := True\<rparr>\<rparr> in
      if \<not> is_in_loop_thread w1 then w1\<lparr>the_loop := wakeup (the_loop w1)\<rparr> else w1)"

text \<open>The swap of the pending closures with an empty vector, under the mutex.\<close>

definition swap_functors :: "'f event_loop \<Rightarrow> 'f list \<times> 'f event_loop" where
  "swap_functors l = (pending_functors l, l\<lparr>pending_functors := [], calling_pending_functors := True\<rparr>)"

definition do_pending_functors ::
    "(('f, 'w) loop_world_scheme \<Rightarrow> 'f \<Rightarrow> ('f, 'w) loop_world_scheme option) \<Rightarrow>
     ('f, 'w) loop_world_scheme \<Rightarrow> ('f, 'w) loop_world_scheme option" where
  "do_pending_functors exec w =
     (case swap_functors (the_loop w) of (functors, l) \<Rightarrow>
        do { w1 \<leftarrow> fold_cb exec functors (w\<lparr>the_loop := l\<rparr>);
             Some (w1\<lparr>the_loop := (the_loop w1)\<lparr>calling_pending_functors := False\<rparr>\<rparr>) })"

text \<open>
  One turn of the loop: poll, let every active channel handle its event (\<open>dispatch\<close> finds the
  channel by its address and runs \<^verbatim>\<open>handle_event\<close>), then run the pending closures.
\<close>

definition loop_turn ::
    "(('f, 'w) loop_world_scheme \<Rightarrow> nat \<times> u32 \<Rightarrow> ('f, 'w) loop_world_scheme option) \<Rightarrow>
     (('f, 'w) loop_world_scheme \<Rightarrow> 'f \<Rightarrow> ('f, 'w) loop_world_scheme option) \<Rightarrow> epoll_wait_call \<Rightarrow>
     ('f, 'w) loop_world_scheme \<Rightarrow> ('f, 'w) loop_world_scheme option" where
  "loop_turn dispatch exec epoll_wait w =
     (case poll epoll_wait (loop_poller (the_loop w)) of (active, p') \<Rightarrow>
        do { w1 \<leftarrow> fold_cb dispatch active (w\<lparr>the_loop := (the_loop w)\<lparr>loop_poller := p'\<rparr>\<rparr>);
             do_pending_functors exec w1 })"

text \<open>
  The loop against a finite script of \<^verbatim>\<open>epoll_wait\<close> answers; the flag says whether it has
  returned (\<^verbatim>\<open>quit_\<close> seen) by the end of the script.
\<close>

fun loop_turns ::
    "(('f, 'w) loop_world_scheme \<Rightarrow> nat \<times> u32 \<Rightarrow> ('f, 'w) loop_world_scheme option) \<Rightarrow>
     (('f, 'w) loop_world_scheme \<Rightarrow> 'f \<Rightarrow> ('f, 'w) loop_world_scheme option) \<Rightarrow> epoll_wait_call list \<Rightarrow>
     ('f, 'w) loop_world_scheme \<Rightarrow> (bool \<times> ('f, 'w) loop_world_scheme) option" where
  "loop_turns dispatch exec [] w = Some (quit_flag (the_loop w), w)"
| "loop_turns dispatch exec (ew # ews) w =
     (if quit_flag (the_loop w) then Some (True, w)
      else do { w' \<leftarrow> loop_turn dispatch exec ew w; loop_turns dispatch exec ews w' })"

definition loop ::
    "(('f, 'w) loop_world_scheme \<Rightarrow> nat \<times> u32 \<Rightarrow> ('f, 'w) loop_world_scheme option) \<Rightarrow>
     (('f, 'w) loop_world_scheme \<Rightarrow> 'f \<Rightarrow> ('f, 'w) loop_world_scheme option) \<Rightarrow> epoll_wait_call list \<Rightarrow>
     ('f, 'w) loop_world_scheme \<Rightarrow> (bool \<times> ('f, 'w) loop_world_scheme) option" where
  "loop dispatch exec script w =
     (if is_in_loop_thread w then
        loop_turns dispatch exec script (w\<lparr>the_loop := (the_loop w)\<lparr>quit_flag := False\<rparr>\<rparr>)
      else None)"

section \<open>The loop as a concurrent machine\<close>

datatype 'f loop_phase = Polling | Handling | Running "'f list"

record 'f loop_sys =
  ls_loop :: "'f event_loop"
  ls_phase :: "'f loop_phase"
  ls_waking :: "nat set"
  ls_submitted :: "'f list"
  ls_executed :: "'f list"

definition loop_init :: "'f loop_sys \<Rightarrow> bool" where
  "loop_init s \<longleftrightarrow> pending_functors (ls_loop s) = [] \<and> \<not> calling_pending_functors (ls_loop s) \<and>
     ls_phase s = Polling \<and> ls_waking s = {} \<and> ls_submitted s = [] \<and> ls_executed s = []"

text \<open>
  The steps. Another thread's \<^verbatim>\<open>queue_in_loop\<close> is two steps: the push under the mutex, then the
  wake-up; the loop thread's own call pushes and wakes only while closures are running.
\<close>

inductive loop_step :: "'f loop_sys \<Rightarrow> 'f loop_sys \<Rightarrow> bool" where
  remote_push: "t \<notin> ls_waking s \<Longrightarrow>
    loop_step s (s\<lparr>ls_loop := push_functor f (ls_loop s), ls_waking := insert t (ls_waking s),
                   ls_submitted := ls_submitted s @ [f]\<rparr>)"
| remote_wakeup: "t \<in> ls_waking s \<Longrightarrow>
    loop_step s (s\<lparr>ls_loop := wakeup (ls_loop s), ls_waking := ls_waking s - {t}\<rparr>)"
| local_queue: "ls_phase s \<noteq> Polling \<Longrightarrow>
    the_loop (queue_in_loop f \<lparr>the_loop = ls_loop s, cur_thread = thread_id (ls_loop s)\<rparr>) = l \<Longrightarrow>
    loop_step s (s\<lparr>ls_loop := l, ls_submitted := ls_submitted s @ [f]\<rparr>)"
| poll_returns: "ls_phase s = Polling \<Longrightarrow> loop_step s (s\<lparr>ls_phase := Handling\<rparr>)"
| wakeup_read: "ls_phase s = Handling \<Longrightarrow> loop_step s (s\<lparr>ls_loop := wakeup_handle_read (ls_loop s)\<rparr>)"
| swap: "ls_phase s = Handling \<Longrightarrow> swap_functors (ls_loop s) = (fs, l) \<Longrightarrow>
    loop_step s (s\<lparr>ls_loop := l, ls_phase := Running fs\<rparr>)"
| run_one: "ls_phase s = Running (f # fs) \<Longrightarrow>
    loop_step s (s\<lparr>ls_phase := Running fs, ls_executed := ls_executed s @ [f]\<rparr>)"
| all_run: "ls_phase s = Running [] \<Longrightarrow>
    loop_step s (s\<lparr>ls_phase := Polling, ls_loop := (ls_loop s)\<lparr>calling_pending_functors := False\<rparr>\<rparr>)"

fun running :: "'f loop_phase \<Rightarrow> 'f list" where
  "running (Running fs) = fs"
| "running _ = []"

definition loop_inv :: "'f loop_sys \<Rightarrow> bool" where
  "loop_inv s \<longleftrightarrow>
     ls_submitted s = ls_executed s @ running (ls_phase s) @ pending_functors (ls_loop s) \<and>
     (calling_pending_functors (ls_loop s) \<longleftrightarrow> (\<exists>fs. ls_phase s = Running fs)) \<and>
     (ls_phase s \<noteq> Handling \<longrightarrow> pending_functors (ls_loop s) \<noteq> [] \<longrightarrow>
        0 < eventfd_count (ls_loop s) \<or> ls_waking s \<noteq> {})"

section \<open>Lemmas\<close>

lemmas loop_defs = push_functor_def wakeup_def wakeup_handle_read_def queue_in_loop_def Let_def
  is_in_loop_thread_def swap_functors_def

lemma loop_step_inv: "loop_step s t \<Longrightarrow> loop_inv s \<Longrightarrow> loop_inv t"
proof (induction rule: loop_step.induct)
  case (local_queue s f l)
  then show ?case by (cases "ls_phase s") (auto simp: loop_inv_def loop_defs)
qed (auto simp: loop_inv_def loop_defs)

interpretation ls: invariant_system loop_init loop_step loop_inv
proof
  show "loop_inv s" if "loop_init s" for s :: "'f loop_sys"
    using that by (auto simp: loop_init_def loop_inv_def)
qed (rule loop_step_inv)

text \<open>A turn with no active channel and closures that succeed runs each pending closure once, in order.\<close>

lemma fold_cb_Some: "(\<And>x s. x \<in> set xs \<Longrightarrow> f s x = Some (g x s)) \<Longrightarrow> fold_cb f xs s = Some (fold g xs s)"
  by (induction xs arbitrary: s) auto

lemma event_loop_new_view:
  "\<exists>k. ctl_replay (p_log (loop_poller (event_loop_new tid ptr (poller_new epfd) fd))) Map.empty = Some k \<and>
     agrees (wakeup_channel (event_loop_new tid ptr (poller_new epfd) fd)) k (p_channels (loop_poller (event_loop_new tid ptr (poller_new epfd) fd))) \<and>
     ch_events (wakeup_channel (event_loop_new tid ptr (poller_new epfd) fd)) = kReadEvent"
proof -
  obtain ch p where s: "set_interest EnableReading (channel_new ptr fd) (poller_new epfd) = (ch, p)" by fastforce
  have "agrees (channel_new ptr fd) Map.empty (p_channels (poller_new epfd))"
    by (simp add: agrees_def channel_new_def poller_new_def index_defs)
  moreover have "ctl_replay (p_log (poller_new epfd)) Map.empty = Some Map.empty" by (simp add: poller_new_def)
  ultimately show ?thesis
    using set_interest_agrees [OF s] s by (auto simp: event_loop_new_def channel_new_def)
qed

section \<open>Properties\<close>

text \<open>
  C28. No closure is lost, duplicated or reordered, and no wake-up is lost: in every reachable
  state of the loop and the threads that queue into it, the closures submitted so far are the
  ones executed, then the ones of the running batch, then the pending ones, in submission
  order; and when the loop is about to block in the poll with closures pending, the eventfd is
  already readable or a thread that queued one is still on its way to write to it.
\<close>

theorem loop_functors_fifo:
  assumes "reachable loop_init loop_step s"
  shows "ls_submitted s = ls_executed s @ running (ls_phase s) @ pending_functors (ls_loop s) \<and>
    (ls_phase s = Polling \<and> pending_functors (ls_loop s) \<noteq> [] \<longrightarrow>
       0 < eventfd_count (ls_loop s) \<or> (\<exists>t. t \<in> ls_waking s))"
  using ls.reachable_inv [OF assms] by (auto simp: loop_inv_def)

text \<open>A start state, and a run in which another thread queues one closure and the loop runs it.\<close>

definition loop_start :: "nat loop_sys" where
  "loop_start = \<lparr>ls_loop = event_loop_new 1 0 (poller_new 5) 3, ls_phase = Polling, ls_waking = {},
     ls_submitted = [], ls_executed = []\<rparr>"

lemma loop_start_init: "loop_init loop_start"
  by (simp add: loop_start_def loop_init_def event_loop_new_def split: prod.split)

lemma loop_start_push:
  "reachable loop_init loop_step (loop_start\<lparr>ls_loop := push_functor 42 (ls_loop loop_start),
     ls_waking := {7}, ls_submitted := [42]\<rparr>)" (is "reachable _ _ ?t")
proof -
  have "loop_step loop_start ?t"
    using loop_step.remote_push [of 7 loop_start 42] by (simp add: loop_start_def)
  then show ?thesis using reach_step [OF reach_init [of loop_init, OF loop_start_init]] by blast
qed

theorem loop_functors_fifo_witness:
  "ls_submitted (loop_start\<lparr>ls_loop := push_functor 42 (ls_loop loop_start), ls_waking := {7}, ls_submitted := [42]\<rparr>)
   = [] @ [] @ pending_functors (push_functor 42 (ls_loop loop_start)) \<and>
   (0 < eventfd_count (push_functor 42 (ls_loop loop_start)) \<or> (\<exists>t. t \<in> {7::nat}))"
  using loop_functors_fifo [OF loop_start_push] by (simp add: loop_start_def push_functor_def)

text \<open>
  A \<^verbatim>\<open>quit()\<close> issued by the loop's thread before \<^verbatim>\<open>loop()\<close> has no effect: \<^verbatim>\<open>loop()\<close> clears the
  flag on entry, so the loop runs exactly as if it had not been called.
\<close>

lemma quit_before_loop_is_lost:
  assumes "is_in_loop_thread w"
  shows "loop dispatch exec script (loop_quit w) = loop dispatch exec script w"
  using assms by (simp add: loop_def loop_quit_def Let_def is_in_loop_thread_def)

end
