(* ===== verification/Tcp_Connection.thy ===== *)
theory Tcp_Connection
  imports Buffer Event_Loop
begin

text \<open>
  \<^verbatim>\<open>net/tcp_connection.h\<close> and \<^verbatim>\<open>net/tcp_connection.cpp\<close>: one connection's life cycle, its
  input and output buffers and its channel. Connections live in a table of the world record,
  addressed by their id; using an id that is not in the table is using a dangling pointer
  and is \<^const>\<open>None\<close>, like an uncaught exception or a failed assertion. System calls are
  answered by a parameter, a function of the number of calls made so far; what the kernel
  accepted and the callbacks that ran are recorded in the world's log.
\<close>

section \<open>The class\<close>

datatype conn_state = kConnecting | kConnected | kDisconnecting | kDisconnected

record tcp_connection =
  tc_sockfd :: int
  tc_id :: u64
  tc_peer :: string
  tc_state :: conn_state
  tc_channel :: channel
  tc_input :: buffer
  tc_output :: buffer

text \<open>The closures handed to the event loop, as values.\<close>

datatype 'x net_functor =
  SendInLoop u64 string
| ShutdownInLoop u64
| HandleClose u64
| ConnectionEstablished u64
| DestroyConnection u64
| UserFunctor 'x

datatype net_event =
  ConnectionCb u64 conn_state
| Wrote u64 string
| WroteAll u64
| ShutdownWr u64
| ClosedFd int

record 'x net_world = "'x net_functor loop_world" +
  conns :: "u64 \<rightharpoonup> tcp_connection"
  ticks :: nat
  net_log :: "net_event list"

record kernel =
  sys_write :: "nat \<Rightarrow> int \<Rightarrow> string \<Rightarrow> int + nat"
  sys_readv :: "nat \<Rightarrow> int \<Rightarrow> readv_call"

record 'w conn_cbs =
  conn_cb :: "(u64 \<Rightarrow> 'w \<Rightarrow> 'w option) option"
  message_cb :: "(u64 \<Rightarrow> 'w \<Rightarrow> 'w option) option"
  wc_cb :: "(u64 \<Rightarrow> 'w \<Rightarrow> 'w option) option"
  closed_cb :: "(u64 \<Rightarrow> 'w \<Rightarrow> 'w option) option"

text \<open>The setters of \<^verbatim>\<open>TcpConnection\<close>; \<^verbatim>\<open>TcpServer\<close> has the first three too.\<close>

definition set_connection_callback :: "(u64 \<Rightarrow> 'w \<Rightarrow> 'w option) option \<Rightarrow> 'w conn_cbs \<Rightarrow> 'w conn_cbs" where
  [simp]: "set_connection_callback cb cbs = cbs\<lparr>conn_cb := cb\<rparr>"

definition set_message_callback :: "(u64 \<Rightarrow> 'w \<Rightarrow> 'w option) option \<Rightarrow> 'w conn_cbs \<Rightarrow> 'w conn_cbs" where
  [simp]: "set_message_callback cb cbs = cbs\<lparr>message_cb := cb\<rparr>"

definition set_write_complete_callback :: "(u64 \<Rightarrow> 'w \<Rightarrow> 'w option) option \<Rightarrow> 'w conn_cbs \<Rightarrow> 'w conn_cbs" where
  [simp]: "set_write_complete_callback cb cbs = cbs\<lparr>wc_cb := cb\<rparr>"

definition set_closed_callback :: "(u64 \<Rightarrow> 'w \<Rightarrow> 'w option) option \<Rightarrow> 'w conn_cbs \<Rightarrow> 'w conn_cbs" where
  [simp]: "set_closed_callback cb cbs = cbs\<lparr>closed_cb := cb\<rparr>"

definition no_conn_cbs :: "'w conn_cbs" where
  "no_conn_cbs = \<lparr>conn_cb = None, message_cb = None, wc_cb = None, closed_cb = None\<rparr>"

definition call_cb :: "(u64 \<Rightarrow> 'w \<Rightarrow> 'w option) option \<Rightarrow> u64 \<Rightarrow> 'w \<Rightarrow> 'w option" where
  "call_cb cb cid w = (case cb of None \<Rightarrow> Some w | Some f \<Rightarrow> f cid w)"

definition EWOULDBLOCK :: int where "EWOULDBLOCK = 11"

text \<open>Writing one object of the table, logging, and counting a system call.\<close>

definition put_conn :: "u64 \<Rightarrow> tcp_connection \<Rightarrow> ('x, 'w) net_world_scheme \<Rightarrow> ('x, 'w) net_world_scheme" where
  "put_conn cid c w = w\<lparr>conns := (conns w)(cid \<mapsto> c)\<rparr>"

definition log_event :: "net_event \<Rightarrow> ('x, 'w) net_world_scheme \<Rightarrow> ('x, 'w) net_world_scheme" where
  "log_event ev w = w\<lparr>net_log := net_log w @ [ev]\<rparr>"

definition tick :: "('x, 'w) net_world_scheme \<Rightarrow> ('x, 'w) net_world_scheme" where
  "tick w = w\<lparr>ticks := ticks w + 1\<rparr>"

definition tcp_connection_new :: "int \<Rightarrow> u64 \<Rightarrow> string \<Rightarrow> tcp_connection" where
  "tcp_connection_new fd cid peer =
     \<lparr>tc_sockfd = fd, tc_id = cid, tc_peer = peer, tc_state = kConnecting,
      tc_channel = channel_new (unat cid + 2) fd,
      tc_input = buffer_new kInitialSize, tc_output = buffer_new kInitialSize\<rparr>"

definition set_state :: "conn_state \<Rightarrow> u64 \<Rightarrow> ('x, 'w) net_world_scheme \<Rightarrow> ('x, 'w) net_world_scheme option" where
  "set_state st cid w = do { c \<leftarrow> conns w cid; Some (put_conn cid (c\<lparr>tc_state := st\<rparr>) w) }"

definition conn_interest :: "interest_op \<Rightarrow> u64 \<Rightarrow> ('x, 'w) net_world_scheme \<Rightarrow> ('x, 'w) net_world_scheme option" where
  "conn_interest op cid w =
     do { c \<leftarrow> conns w cid;
          (ch, w1) \<leftarrow> loop_set_interest op (tc_channel c) w;
          Some (put_conn cid (c\<lparr>tc_channel := ch\<rparr>) w1) }"

text \<open>The connection callback, with the state the callback can observe in the log.\<close>

definition notify_connection :: "('x, 'w) net_world_scheme conn_cbs \<Rightarrow> u64 \<Rightarrow>
    ('x, 'w) net_world_scheme \<Rightarrow> ('x, 'w) net_world_scheme option" where
  "notify_connection cbs cid w =
     (case conn_cb cbs of None \<Rightarrow> Some w
      | Some f \<Rightarrow> do { c \<leftarrow> conns w cid; f cid (log_event (ConnectionCb cid (tc_state c)) w) })"

definition connection_established :: "('x, 'w) net_world_scheme conn_cbs \<Rightarrow> u64 \<Rightarrow>
    ('x, 'w) net_world_scheme \<Rightarrow> ('x, 'w) net_world_scheme option" where
  "connection_established cbs cid w =
     do { w1 \<leftarrow> set_state kConnected cid w;
          c \<leftarrow> conns w1 cid;
          w2 \<leftarrow> conn_interest EnableReading cid (put_conn cid (c\<lparr>tc_channel := channel_tie (tc_channel c)\<rparr>) w1);
          notify_connection cbs cid w2 }"

definition connection_destroyed :: "('x, 'w) net_world_scheme conn_cbs \<Rightarrow> u64 \<Rightarrow>
    ('x, 'w) net_world_scheme \<Rightarrow> ('x, 'w) net_world_scheme option" where
  "connection_destroyed cbs cid w =
     do { c \<leftarrow> conns w cid;
          w1 \<leftarrow> (if tc_state c = kConnected then
                   do { w \<leftarrow> set_state kDisconnected cid w;
                        w \<leftarrow> conn_interest DisableAll cid w;
                        notify_connection cbs cid w }
                 else Some w);
          c1 \<leftarrow> conns w1 cid;
          (ch, w2) \<leftarrow> loop_channel_remove (tc_channel c1) w1;
          Some (put_conn cid (c1\<lparr>tc_channel := ch\<rparr>) w2) }"

text \<open>The destructor, run when the last \<^verbatim>\<open>shared_ptr\<close> to the connection is gone: it closes the socket, then its channel is destroyed.\<close>

definition tcp_connection_destroy :: "u64 \<Rightarrow> ('x, 'w) net_world_scheme \<Rightarrow> ('x, 'w) net_world_scheme option" where
  "tcp_connection_destroy cid w =
     do { c \<leftarrow> conns w cid;
          let w1 = log_event (ClosedFd (tc_sockfd c)) w in
          do { _ \<leftarrow> channel_destroy (tc_channel c); Some w1 } }"

definition handle_close :: "('x, 'w) net_world_scheme conn_cbs \<Rightarrow> u64 \<Rightarrow>
    ('x, 'w) net_world_scheme \<Rightarrow> ('x, 'w) net_world_scheme option" where
  "handle_close cbs cid w =
     do { w \<leftarrow> set_state kDisconnected cid w;
          w \<leftarrow> conn_interest DisableAll cid w;
          w \<leftarrow> notify_connection cbs cid w;
          call_cb (closed_cb cbs) cid w }"

definition handle_error :: "('x, 'w) net_world_scheme conn_cbs \<Rightarrow> u64 \<Rightarrow>
    ('x, 'w) net_world_scheme \<Rightarrow> ('x, 'w) net_world_scheme option" where
  "handle_error cbs cid w = handle_close cbs cid w"

text \<open>The tail of \<^verbatim>\<open>send_in_loop\<close>: keep the bytes the kernel did not take, ask for write events.\<close>

definition buffer_rest :: "string \<Rightarrow> u64 \<Rightarrow> ('x, 'w) net_world_scheme \<Rightarrow> ('x, 'w) net_world_scheme option" where
  "buffer_rest rest cid w =
     do { c \<leftarrow> conns w cid;
          let w1 = put_conn cid (c\<lparr>tc_output := append_buf rest (tc_output c)\<rparr>) w in
          if \<not> is_writing (tc_channel c) then conn_interest EnableWriting cid w1 else Some w1 }"

definition send_in_loop :: "kernel \<Rightarrow> ('x, 'w) net_world_scheme conn_cbs \<Rightarrow> string \<Rightarrow> u64 \<Rightarrow>
    ('x, 'w) net_world_scheme \<Rightarrow> ('x, 'w) net_world_scheme option" where
  "send_in_loop K cbs data cid w =
     (if \<not> is_in_loop_thread w then None
      else do {
        c \<leftarrow> conns w cid;
        if tc_state c = kDisconnected then Some w
        else if \<not> is_writing (tc_channel c) \<and> readable (tc_output c) = 0 then
          (case sys_write K (ticks w) (tc_sockfd c) data of
             Inl errno \<Rightarrow>
               if errno \<noteq> EWOULDBLOCK then handle_error cbs cid (tick w)
               else buffer_rest data cid (tick w)
           | Inr written \<Rightarrow>
               let w1 = log_event (Wrote cid (take written data)) (tick w) in
               if written = length data then call_cb (wc_cb cbs) cid (log_event (WroteAll cid) w1)
               else buffer_rest (drop written data) cid w1)
        else buffer_rest data cid w })"

definition send_string :: "kernel \<Rightarrow> ('x, 'w) net_world_scheme conn_cbs \<Rightarrow> string \<Rightarrow> u64 \<Rightarrow>
    ('x, 'w) net_world_scheme \<Rightarrow> ('x, 'w) net_world_scheme option" where
  "send_string K cbs data cid w =
     do { c \<leftarrow> conns w cid;
          if tc_state c \<noteq> kConnected then Some w
          else if is_in_loop_thread w then send_in_loop K cbs data cid w
          else run_in_loop (send_in_loop K cbs data cid) (SendInLoop cid data) w }"

definition send_buffer :: "kernel \<Rightarrow> ('x, 'w) net_world_scheme conn_cbs \<Rightarrow> u64 \<Rightarrow> buffer \<Rightarrow>
    ('x, 'w) net_world_scheme \<Rightarrow> ('x, 'w) net_world_scheme option" where
  "send_buffer K cbs cid b w =
     do { c \<leftarrow> conns w cid;
          if tc_state c \<noteq> kConnected then Some w
          else do { (data, b') \<leftarrow> retrieve_all_as_string b;
                    run_in_loop (send_in_loop K cbs data cid) (SendInLoop cid data) w } }"

definition shutdown_in_loop :: "u64 \<Rightarrow> ('x, 'w) net_world_scheme \<Rightarrow> ('x, 'w) net_world_scheme option" where
  "shutdown_in_loop cid w =
     do { c \<leftarrow> conns w cid;
          Some (if \<not> is_writing (tc_channel c) then log_event (ShutdownWr cid) w else w) }"

definition shutdown :: "u64 \<Rightarrow> ('x, 'w) net_world_scheme \<Rightarrow> ('x, 'w) net_world_scheme option" where
  "shutdown cid w =
     do { c \<leftarrow> conns w cid;
          if tc_state c = kConnected then
            do { w1 \<leftarrow> set_state kDisconnecting cid w;
                 run_in_loop (shutdown_in_loop cid) (ShutdownInLoop cid) w1 }
          else Some w }"

definition force_close :: "u64 \<Rightarrow> ('x, 'w) net_world_scheme \<Rightarrow> ('x, 'w) net_world_scheme option" where
  "force_close cid w =
     do { c \<leftarrow> conns w cid;
          if tc_state c = kConnected \<or> tc_state c = kDisconnecting then
            do { w1 \<leftarrow> set_state kDisconnecting cid w;
                 Some (queue_in_loop (HandleClose cid) w1) }
          else Some w }"

definition handle_read :: "kernel \<Rightarrow> ('x, 'w) net_world_scheme conn_cbs \<Rightarrow> u64 \<Rightarrow>
    ('x, 'w) net_world_scheme \<Rightarrow> ('x, 'w) net_world_scheme option" where
  "handle_read K cbs cid w =
     do { c \<leftarrow> conns w cid;
          case read_fd (sys_readv K (ticks w) (tc_sockfd c)) (tc_input c) of
            (Inl saved_errno, b) \<Rightarrow> handle_error cbs cid (put_conn cid (c\<lparr>tc_input := b\<rparr>) (tick w))
          | (Inr n, b) \<Rightarrow>
              let w1 = put_conn cid (c\<lparr>tc_input := b\<rparr>) (tick w) in
              if 0 < n then call_cb (message_cb cbs) cid w1 else handle_close cbs cid w1 }"

definition handle_write :: "kernel \<Rightarrow> ('x, 'w) net_world_scheme conn_cbs \<Rightarrow> u64 \<Rightarrow>
    ('x, 'w) net_world_scheme \<Rightarrow> ('x, 'w) net_world_scheme option" where
  "handle_write K cbs cid w =
     do { c \<leftarrow> conns w cid;
          if \<not> is_writing (tc_channel c) then Some w
          else
            let out = take (readable (tc_output c)) (peek (tc_output c)) in
            case sys_write K (ticks w) (tc_sockfd c) out of
              Inl errno \<Rightarrow> Some (tick w)
            | Inr n \<Rightarrow>
                if n = 0 then Some (tick w)
                else do {
                  b \<leftarrow> retrieve n (tc_output c);
                  let w1 = log_event (Wrote cid (take n out)) (put_conn cid (c\<lparr>tc_output := b\<rparr>) (tick w)) in
                  if readable b = 0 then
                    do { w2 \<leftarrow> conn_interest DisableWriting cid w1;
                         w3 \<leftarrow> call_cb (wc_cb cbs) cid (log_event (WroteAll cid) w2);
                         c3 \<leftarrow> conns w3 cid;
                         if tc_state c3 = kDisconnecting then shutdown_in_loop cid w3 else Some w3 }
                  else Some w1 } }"

text \<open>The channel's callbacks, as the constructor installs them, and the channel's event handler.\<close>

definition conn_channel_cbs :: "kernel \<Rightarrow> ('x, 'w) net_world_scheme conn_cbs \<Rightarrow> u64 \<Rightarrow>
    ('x, 'w) net_world_scheme channel_cbs" where
  "conn_channel_cbs K cbs cid =
     set_error_callback (handle_error cbs cid) (set_close_callback (handle_close cbs cid)
       (set_write_callback (handle_write K cbs cid) (set_read_callback (handle_read K cbs cid) no_channel_cbs)))"

definition conn_handle_event :: "kernel \<Rightarrow> ('x, 'w) net_world_scheme conn_cbs \<Rightarrow> u64 \<Rightarrow> u32 \<Rightarrow>
    ('x, 'w) net_world_scheme \<Rightarrow> ('x, 'w) net_world_scheme option" where
  "conn_handle_event K cbs cid revts w =
     do { c \<leftarrow> conns w cid;
          handle_event True (set_revents revts (tc_channel c)) (conn_channel_cbs K cbs cid) w }"

text \<open>What POSIX documents of \<^verbatim>\<open>write\<close>: it never reports more bytes than it was given.\<close>

definition write_ok :: "kernel \<Rightarrow> bool" where
  "write_ok K \<longleftrightarrow> (\<forall>t fd d n. sys_write K t fd d = Inr n \<longrightarrow> n \<le> length d)"

text \<open>No hard error: the only error number is \<^verbatim>\<open>EWOULDBLOCK\<close>.\<close>

definition write_no_error :: "kernel \<Rightarrow> bool" where
  "write_no_error K \<longleftrightarrow> (\<forall>t fd d e. sys_write K t fd d = Inl e \<longrightarrow> e = EWOULDBLOCK)"

section \<open>The output stream\<close>

text \<open>The bytes of one connection the kernel has taken, from the log.\<close>

fun wrote :: "u64 \<Rightarrow> net_event list \<Rightarrow> string" where
  "wrote cid [] = []"
| "wrote cid (Wrote i d # evs) = (if i = cid then d @ wrote cid evs else wrote cid evs)"
| "wrote cid (ev # evs) = wrote cid evs"

text \<open>Everything the connection has been given to send: taken by the kernel, or still buffered.\<close>

definition out_buffered :: "u64 \<Rightarrow> ('x, 'w) net_world_scheme \<Rightarrow> string" where
  "out_buffered cid w = (case conns w cid of None \<Rightarrow> [] | Some c \<Rightarrow> contents (tc_output c))"

definition out_stream :: "u64 \<Rightarrow> ('x, 'w) net_world_scheme \<Rightarrow> string" where
  "out_stream cid w = wrote cid (net_log w) @ out_buffered cid w"

text \<open>
  An open connection in its loop's thread: its buffer is sound, and as long as bytes are
  buffered the channel asks for write events, so the loop will come back to them.
\<close>

definition out_inv :: "u64 \<Rightarrow> ('x, 'w) net_world_scheme \<Rightarrow> bool" where
  "out_inv cid w \<longleftrightarrow> is_in_loop_thread w \<and>
     (\<exists>c. conns w cid = Some c \<and> tc_state c \<noteq> kDisconnected \<and> buffer_inv (tc_output c) \<and>
          (contents (tc_output c) \<noteq> [] \<longrightarrow> is_writing (tc_channel c)))"

datatype out_op = OutSend string | OutReady

fun out_exec :: "kernel \<Rightarrow> ('x, 'w) net_world_scheme conn_cbs \<Rightarrow> u64 \<Rightarrow> ('x, 'w) net_world_scheme \<Rightarrow> out_op \<Rightarrow>
    ('x, 'w) net_world_scheme option" where
  "out_exec K cbs cid w (OutSend d) = send_in_loop K cbs d cid w"
| "out_exec K cbs cid w OutReady = handle_write K cbs cid w"

fun out_data :: "out_op \<Rightarrow> string" where
  "out_data (OutSend d) = d"
| "out_data OutReady = []"

lemmas out_defs = out_stream_def out_buffered_def

lemmas world_simps = put_conn_def log_event_def tick_def is_in_loop_thread_def

lemma wrote_append [simp]: "wrote cid (xs @ ys) = wrote cid xs @ wrote cid ys"
  by (induction cid xs rule: wrote.induct) auto

lemma set_interest_events: "ch_events (fst (set_interest op ch p)) = interest op (ch_events ch)"
  by (simp add: set_interest_def update_channel_def Let_def)

lemma is_writing_enabled: "ch_events ch' = interest EnableWriting (ch_events ch) \<Longrightarrow> is_writing ch'"
  by (simp add: is_writing_def epoll_bits bit.conj_disj_distrib2)

lemma is_writing_disabled: "ch_events ch' = interest DisableWriting (ch_events ch) \<Longrightarrow> \<not> is_writing ch'"
  by (simp add: is_writing_def epoll_bits and.assoc)

lemma conn_interest_works:
  assumes "is_in_loop_thread w" "conns w cid = Some c"
  shows "\<exists>ch p. conn_interest op cid w =
      Some (put_conn cid (c\<lparr>tc_channel := ch\<rparr>) (w\<lparr>the_loop := (the_loop w)\<lparr>loop_poller := p\<rparr>\<rparr>)) \<and>
    ch_events ch = interest op (ch_events (tc_channel c)) \<and> ch_fd ch = ch_fd (tc_channel c) \<and> ch_ptr ch = ch_ptr (tc_channel c)"
proof -
  obtain ch p where s: "set_interest op (tc_channel c) (loop_poller (the_loop w)) = (ch, p)" by fastforce
  then show ?thesis using assms set_interest_id [OF s] by (auto simp: conn_interest_def loop_set_interest_def)
qed

lemma buffer_rest_out:
  assumes "is_in_loop_thread w" "conns w cid = Some c" "tc_state c \<noteq> kDisconnected" "buffer_inv (tc_output c)"
  shows "\<exists>w'. buffer_rest rest cid w = Some w' \<and> out_inv cid w' \<and>
    out_stream cid w' = out_stream cid w @ rest"
proof -
  let ?c = "c\<lparr>tc_output := append_buf rest (tc_output c)\<rparr>"
  let ?w = "put_conn cid ?c w"
  have w: "is_in_loop_thread ?w" "conns ?w cid = Some ?c" using assms(1) by (simp_all add: world_simps)
  from conn_interest_works [OF this, of EnableWriting] assms(2-4) show ?thesis
    using assms(1)
    by (auto simp: buffer_rest_def Let_def out_inv_def out_defs world_simps append_buf_inv
        append_buf_contents is_writing_enabled)
qed

lemma send_in_loop_out:
  assumes K: "write_ok K" "write_no_error K" and cb: "wc_cb cbs = None" and inv: "out_inv cid w"
  shows "\<exists>w'. send_in_loop K cbs d cid w = Some w' \<and> out_inv cid w' \<and> out_stream cid w' = out_stream cid w @ d"
proof -
  obtain c where c: "is_in_loop_thread w" "conns w cid = Some c" "tc_state c \<noteq> kDisconnected"
    "buffer_inv (tc_output c)" "contents (tc_output c) \<noteq> [] \<longrightarrow> is_writing (tc_channel c)"
    using inv by (auto simp: out_inv_def)
  show ?thesis
  proof (cases "\<not> is_writing (tc_channel c) \<and> readable (tc_output c) = 0")
    case False
    then have "send_in_loop K cbs d cid w = buffer_rest d cid w" using c by (auto simp: send_in_loop_def)
    then show ?thesis using buffer_rest_out [OF c(1-4)] by simp
  next
    case direct: True
    have tk: "is_in_loop_thread (tick w)" "conns (tick w) cid = Some c" using c by (simp_all add: world_simps)
    have st: "out_stream cid (tick w) = out_stream cid w" by (simp add: out_defs tick_def)
    have empty: "contents (tc_output c) = []" using direct c(5) by auto
    show ?thesis
    proof (cases "sys_write K (ticks w) (tc_sockfd c) d")
      case (Inl e)
      then have "e = EWOULDBLOCK" using K(2) by (auto simp: write_no_error_def)
      then have "send_in_loop K cbs d cid w = buffer_rest d cid (tick w)"
        using direct c Inl by (simp add: send_in_loop_def)
      then show ?thesis using buffer_rest_out [OF tk c(3,4)] st by simp
    next
      case (Inr n)
      let ?w = "log_event (Wrote cid (take n d)) (tick w)"
      have lg: "is_in_loop_thread ?w" "conns ?w cid = Some c" using c by (simp_all add: world_simps)
      have str: "out_stream cid ?w = out_stream cid w @ take n d"
        using c(2) empty by (simp add: out_defs world_simps)
      show ?thesis
      proof (cases "n = length d")
        case True
        then show ?thesis
          using direct c Inr cb str
          by (auto simp: send_in_loop_def Let_def call_cb_def out_inv_def out_defs world_simps)
      next
        case False
        then have "send_in_loop K cbs d cid w = buffer_rest (drop n d) cid ?w"
          using direct c Inr by (simp add: send_in_loop_def)
        then show ?thesis using buffer_rest_out [OF lg c(3,4), of "drop n d"] str by simp
      qed
    qed
  qed
qed

text \<open>
  What one writable event does: it takes a prefix of the buffered bytes, and it half-closes
  only a disconnecting connection whose buffer it has emptied.
\<close>

definition write_progress :: "kernel \<Rightarrow> bool" where
  "write_progress K \<longleftrightarrow> (\<forall>t fd d. d \<noteq> [] \<longrightarrow> (\<exists>n. sys_write K t fd d = Inr n \<and> 0 < n))"

lemma handle_write_cases:
  assumes K: "write_ok K" and cb: "wc_cb cbs = None" and inv: "out_inv cid w" and cid: "conns w cid = Some c"
  obtains w' n c' where "handle_write K cbs cid w = Some w'" "out_inv cid w'" "conns w' cid = Some c'"
    "tc_state c' = tc_state c" "contents (tc_output c') = drop n (contents (tc_output c))"
    "wrote cid (net_log w') = wrote cid (net_log w) @ take n (contents (tc_output c))"
    "write_progress K \<longrightarrow> contents (tc_output c) \<noteq> [] \<longrightarrow> 0 < n"
    "ShutdownWr cid \<in> set (net_log w') \<longleftrightarrow> ShutdownWr cid \<in> set (net_log w) \<or>
       (n > 0 \<and> contents (tc_output c') = [] \<and> tc_state c = kDisconnecting)"
    "n > 0 \<and> contents (tc_output c') = [] \<longrightarrow> \<not> is_writing (tc_channel c')"
proof -
  note c = inv [unfolded out_inv_def, THEN conjunct1] cid
  have cc: "tc_state c \<noteq> kDisconnected" "buffer_inv (tc_output c)"
    "contents (tc_output c) \<noteq> [] \<longrightarrow> is_writing (tc_channel c)"
    using inv cid by (auto simp: out_inv_def)
  let ?o = "contents (tc_output c)"
  have out: "take (readable (tc_output c)) (peek (tc_output c)) = ?o" by (simp add: contents_def)
  show thesis
  proof (cases "is_writing (tc_channel c) \<and> (\<exists>n. sys_write K (ticks w) (tc_sockfd c) ?o = Inr n \<and> n \<noteq> 0)")
    case False
    then have "handle_write K cbs cid w = Some w \<or> handle_write K cbs cid w = Some (tick w)"
      using c out by (auto simp: handle_write_def Let_def split: sum.splits)
    moreover have "write_progress K \<longrightarrow> ?o \<noteq> [] \<longrightarrow> False"
      using False cc(3) by (force simp: write_progress_def)
    ultimately show thesis
      using that [of w c 0] that [of "tick w" c 0] inv cid by (auto simp: out_inv_def world_simps)
  next
    case True
    then obtain n where n: "sys_write K (ticks w) (tc_sockfd c) ?o = Inr n" "n \<noteq> 0" by auto
    then have le: "n \<le> readable (tc_output c)"
      using K length_contents [OF cc(2)] by (metis write_ok_def)
    obtain b where b: "retrieve n (tc_output c) = Some b" "buffer_inv b" "contents b = drop n ?o"
      using retrieve_correct [OF cc(2) le] by auto
    let ?c = "c\<lparr>tc_output := b\<rparr>"
    let ?w = "log_event (Wrote cid (take n ?o)) (put_conn cid ?c (tick w))"
    have w: "is_in_loop_thread ?w" "conns ?w cid = Some ?c" using c(1) by (simp_all add: world_simps)
    have hw: "handle_write K cbs cid w =
        (if readable b = 0 then
           do { w2 \<leftarrow> conn_interest DisableWriting cid ?w;
                w3 \<leftarrow> call_cb (wc_cb cbs) cid (log_event (WroteAll cid) w2);
                c3 \<leftarrow> conns w3 cid;
                if tc_state c3 = kDisconnecting then shutdown_in_loop cid w3 else Some w3 }
         else Some ?w)"
      using True c(2) n b(1) out by (simp add: handle_write_def Let_def)
    show thesis
    proof (cases "readable b = 0")
      case False
      then have "contents b \<noteq> []" using length_contents [OF b(2)] by auto
      then show thesis
        using that [of ?w ?c n] hw False w cc b True n(2) by (auto simp: out_inv_def world_simps)
    next
      case drained: True
      obtain ch p where ci: "conn_interest DisableWriting cid ?w =
          Some (put_conn cid (?c\<lparr>tc_channel := ch\<rparr>) (?w\<lparr>the_loop := (the_loop ?w)\<lparr>loop_poller := p\<rparr>\<rparr>))"
        and ch: "ch_events ch = interest DisableWriting (ch_events (tc_channel ?c))"
        using conn_interest_works [OF w] by blast
      have e: "contents b = []" "\<not> is_writing ch"
        using drained ch by (simp_all add: contents_def is_writing_disabled)
      let ?w2 = "put_conn cid (?c\<lparr>tc_channel := ch\<rparr>) (?w\<lparr>the_loop := (the_loop ?w)\<lparr>loop_poller := p\<rparr>\<rparr>)"
      let ?w3 = "log_event (WroteAll cid) ?w2"
      let ?w4 = "if tc_state c = kDisconnecting then log_event (ShutdownWr cid) ?w3 else ?w3"
      have "handle_write K cbs cid w = Some ?w4"
        using hw drained ci cb e(2) by (simp add: call_cb_def shutdown_in_loop_def world_simps)
      then show thesis
        using that [of ?w4 "?c\<lparr>tc_channel := ch\<rparr>" n] c(1) cc b e n(2) by (auto simp: out_inv_def world_simps)
    qed
  qed
qed

lemma handle_write_out:
  assumes K: "write_ok K" and cb: "wc_cb cbs = None" and inv: "out_inv cid w"
  shows "\<exists>w'. handle_write K cbs cid w = Some w' \<and> out_inv cid w' \<and> out_stream cid w' = out_stream cid w"
proof -
  obtain c where c: "conns w cid = Some c" using inv by (auto simp: out_inv_def)
  show ?thesis
    by (rule handle_write_cases [OF K cb inv c]) (auto simp: out_defs c)
qed

lemma out_run:
  assumes "write_ok K" "write_no_error K" "wc_cb cbs = None" "out_inv cid w"
  shows "\<exists>w'. fold_cb (out_exec K cbs cid) ops w = Some w' \<and> out_inv cid w' \<and>
    out_stream cid w' = out_stream cid w @ concat (map out_data ops)"
  using assms(4)
proof (induction ops arbitrary: w)
  case Nil
  then show ?case by simp
next
  case (Cons op ops)
  have "\<exists>w1. out_exec K cbs cid w op = Some w1 \<and> out_inv cid w1 \<and> out_stream cid w1 = out_stream cid w @ out_data op"
    using send_in_loop_out [OF assms(1-3) Cons.prems] handle_write_out [OF assms(1,3) Cons.prems]
    by (cases op) auto
  then show ?case using Cons.IH by fastforce
qed

text \<open>
  What sending leaves alone: the world above the connections, the loop but for its poller, and
  the states and input buffers of the connections.
\<close>

definition quiet :: "('x, 'w) net_world_scheme \<Rightarrow> ('x, 'w) net_world_scheme \<Rightarrow> bool" where
  "quiet w w' \<longleftrightarrow> net_world.more w' = net_world.more w \<and> cur_thread w' = cur_thread w \<and>
     (\<exists>p. the_loop w' = (the_loop w)\<lparr>loop_poller := p\<rparr>) \<and>
     (\<forall>i. map_option (\<lambda>c. (tc_state c, tc_input c)) (conns w' i) = map_option (\<lambda>c. (tc_state c, tc_input c)) (conns w i))"

lemma loop_same: "\<exists>p. l = l\<lparr>loop_poller := p\<rparr>"
  by (rule exI [of _ "loop_poller l"]) simp

lemma quiet_refl [simp]: "quiet w w"
  by (simp add: quiet_def loop_same)

lemma quiet_trans: "quiet u v \<Longrightarrow> quiet v w \<Longrightarrow> quiet u w"
  unfolding quiet_def by fastforce

lemma quiet_conn:
  assumes "quiet w w'" "conns w i = Some c"
  obtains c' where "conns w' i = Some c'" "tc_state c' = tc_state c" "tc_input c' = tc_input c"
proof -
  have "map_option (\<lambda>c. (tc_state c, tc_input c)) (conns w' i) = Some (tc_state c, tc_input c)"
    using assms by (simp add: quiet_def)
  then show thesis using that by auto
qed

lemma quiet_put:
  "conns w cid = Some c \<Longrightarrow> tc_state c' = tc_state c \<Longrightarrow> tc_input c' = tc_input c \<Longrightarrow> quiet w (put_conn cid c' w)"
  by (simp add: quiet_def put_conn_def loop_same)

lemma quiet_log_tick: "quiet w (log_event ev w)" "quiet w (tick w)"
  by (simp_all add: quiet_def log_event_def tick_def loop_same)

lemma quiet_interest: "conn_interest op cid w = Some w' \<Longrightarrow> quiet w w'"
  by (auto simp: conn_interest_def loop_set_interest_def bind_eq_Some_conv quiet_def put_conn_def split: if_splits prod.splits)

lemma quiet_buffer_rest:
  assumes "buffer_rest d cid w = Some w'" shows "quiet w w'"
proof -
  obtain c where c: "conns w cid = Some c" using assms by (auto simp: buffer_rest_def bind_eq_Some_conv)
  let ?w = "put_conn cid (c\<lparr>tc_output := append_buf d (tc_output c)\<rparr>) w"
  have "quiet w ?w" using c by (simp add: quiet_put)
  moreover have "w' = ?w \<or> conn_interest EnableWriting cid ?w = Some w'"
    using assms c by (auto simp: buffer_rest_def Let_def split: if_splits)
  ultimately show ?thesis using quiet_interest quiet_trans by blast
qed

lemma quiet_send_in_loop:
  assumes "write_no_error K" "wc_cb cbs = None" "send_in_loop K cbs d cid w = Some w'" shows "quiet w w'"
proof -
  obtain c where c: "conns w cid = Some c" "is_in_loop_thread w"
    using assms(3) by (auto simp: send_in_loop_def bind_eq_Some_conv split: if_splits)
  have nw: "e = EWOULDBLOCK" if "sys_write K (ticks w) (tc_sockfd c) d = Inl e" for e
    using assms(1) that unfolding write_no_error_def by blast
  have q: "quiet w w'" if "buffer_rest r cid v = Some w'" "quiet w v" for r v
    using quiet_buffer_rest [OF that(1)] quiet_trans [OF that(2)] by blast
  note t = quiet_log_tick(2) [of w] and l = quiet_trans [OF quiet_log_tick(2) quiet_log_tick(1)]
  show ?thesis
  proof (cases "\<not> is_writing (tc_channel c) \<and> readable (tc_output c) = 0 \<and> tc_state c \<noteq> kDisconnected")
    case False
    then show ?thesis using assms(3) c q [of d w] by (auto simp: send_in_loop_def split: if_splits)
  next
    case True
    show ?thesis
    proof (cases "sys_write K (ticks w) (tc_sockfd c) d")
      case (Inl e)
      then show ?thesis using assms(3) c True nw q [OF _ t] by (simp add: send_in_loop_def)
    next
      case (Inr n)
      then have "(if n = length d then Some (log_event (WroteAll cid) (log_event (Wrote cid (take n d)) (tick w)))
          else buffer_rest (drop n d) cid (log_event (Wrote cid (take n d)) (tick w))) = Some w'"
        using assms(2,3) c True by (auto simp: send_in_loop_def Let_def call_cb_def split: if_splits)
      then show ?thesis
        using q [OF _ l] quiet_trans [OF l quiet_log_tick(1)] by (auto split: if_splits)
    qed
  qed
qed

lemma quiet_shutdown: "shutdown_in_loop cid w = Some w' \<Longrightarrow> quiet w w'"
  by (auto simp: shutdown_in_loop_def bind_eq_Some_conv quiet_log_tick split: if_splits)

lemma quiet_handle_write:
  assumes "wc_cb cbs = None" "handle_write K cbs cid w = Some w'"
  shows "quiet w w'"
proof -
  have d: "quiet w (log_event (WroteAll cid) v)" if "conn_interest DisableWriting cid u = Some v" "quiet w u" for u v
    using quiet_interest [OF that(1)] quiet_trans quiet_log_tick(1) that(2) by blast
  have p: "quiet w (log_event ev (put_conn cid (c\<lparr>tc_output := b\<rparr>) (tick w)))" if "conns w cid = Some c" for ev b c
    by (rule quiet_trans [OF quiet_trans [OF quiet_log_tick(2) quiet_put] quiet_log_tick(1)]) (use that in \<open>simp_all add: tick_def\<close>)
  have s: "quiet w v'" if "shutdown_in_loop cid v = Some v'" "quiet w v" for v v'
    using quiet_shutdown [OF that(1)] quiet_trans that(2) by blast
  show ?thesis
    using assms quiet_log_tick(2) [of w]
    by (auto simp: handle_write_def Let_def call_cb_def bind_eq_Some_conv p intro: s d [OF _ p] split: if_splits sum.splits)
qed

section \<open>The life cycle\<close>

text \<open>The states in the order a connection goes through them.\<close>

fun phase :: "conn_state \<Rightarrow> nat" where
  "phase kConnecting = 0"
| "phase kConnected = 1"
| "phase kDisconnecting = 2"
| "phase kDisconnected = 3"

text \<open>The order of the enumeration is the order of the life cycle.\<close>

instantiation conn_state :: linorder
begin

definition less_eq_conn_state :: "conn_state \<Rightarrow> conn_state \<Rightarrow> bool" where
  [simp]: "less_eq_conn_state s t = (phase s \<le> phase t)"

definition less_conn_state :: "conn_state \<Rightarrow> conn_state \<Rightarrow> bool" where
  [simp]: "less_conn_state s t = (phase s < phase t)"

instance
proof
  show "s = t" if "s \<le> t" "t \<le> s" for s t :: conn_state using that by (cases s; cases t) simp_all
qed auto

end

text \<open>
  No connection is removed from the table and none has gone back in its life cycle: the
  relation between the worlds before and after an operation.
\<close>

definition fwd :: "('x, 'w) net_world_scheme \<Rightarrow> ('x, 'w) net_world_scheme \<Rightarrow> bool" where
  "fwd w w' \<longleftrightarrow> (\<forall>i c. conns w i = Some c \<longrightarrow>
     (\<exists>c'. conns w' i = Some c' \<and> tc_state c \<le> tc_state c'))"

definition fwd_cb :: "(u64 \<Rightarrow> ('x, 'w) net_world_scheme \<Rightarrow> ('x, 'w) net_world_scheme option) option \<Rightarrow> bool" where
  "fwd_cb cb \<longleftrightarrow> (\<forall>cid w w'. call_cb cb cid w = Some w' \<longrightarrow> fwd w w')"

definition fwd_cbs :: "('x, 'w) net_world_scheme conn_cbs \<Rightarrow> bool" where
  "fwd_cbs cbs \<longleftrightarrow> fwd_cb (conn_cb cbs) \<and> fwd_cb (message_cb cbs) \<and> fwd_cb (wc_cb cbs) \<and> fwd_cb (closed_cb cbs)"

lemma fwd_refl [simp]: "fwd w w"
  by (simp add: fwd_def)

lemma fwd_trans: "fwd u v \<Longrightarrow> fwd v w \<Longrightarrow> fwd u w"
  unfolding fwd_def by (meson order_trans)

lemma fwd_put: "conns w cid = Some c \<Longrightarrow> tc_state c \<le> tc_state c' \<Longrightarrow> fwd w (put_conn cid c' w)"
  by (simp add: fwd_def put_conn_def)

lemma fwd_same_conns: "conns w' = conns w \<Longrightarrow> fwd w w'"
  by (simp add: fwd_def)

lemma phase_top [simp]: "phase st \<le> 3"
  by (cases st) auto

lemma fwd_set_state:
  assumes "set_state st cid w = Some w'" "conns w cid = Some c" "tc_state c \<le> st"
  shows "fwd w w'"
  using assms by (auto simp: set_state_def intro: fwd_put)

lemma fwd_set_disconnected: "set_state kDisconnected cid w = Some w' \<Longrightarrow> fwd w w'"
  by (auto simp: set_state_def bind_eq_Some_conv intro: fwd_put)

lemma fwd_interest: "conn_interest op cid w = Some w' \<Longrightarrow> fwd w w'"
  by (auto simp: conn_interest_def loop_set_interest_def bind_eq_Some_conv fwd_def put_conn_def
      split: if_splits prod.splits)

lemma fwd_notify:
  assumes "fwd_cbs cbs" "notify_connection cbs cid w = Some w'" shows "fwd w w'"
proof (cases "conn_cb cbs")
  case None
  then show ?thesis using assms(2) by (simp add: notify_connection_def)
next
  case (Some f)
  then obtain ev where "f cid (log_event ev w) = Some w'"
    using assms(2) by (auto simp: notify_connection_def bind_eq_Some_conv)
  then have "fwd (log_event ev w) w'"
    using assms(1) Some by (auto simp: fwd_cbs_def fwd_cb_def call_cb_def)
  then show ?thesis by (simp add: fwd_def log_event_def)
qed

lemma fwd_call:
  assumes "fwd_cbs cbs"
  shows "call_cb (message_cb cbs) cid w = Some w' \<Longrightarrow> fwd w w'"
    "call_cb (wc_cb cbs) cid w = Some w' \<Longrightarrow> fwd w w'"
    "call_cb (closed_cb cbs) cid w = Some w' \<Longrightarrow> fwd w w'"
  using assms by (auto simp: fwd_cbs_def fwd_cb_def)

lemma fwd_handle_close:
  assumes "fwd_cbs cbs" "handle_close cbs cid w = Some w'" shows "fwd w w'"
proof -
  obtain w1 w2 w3 where "set_state kDisconnected cid w = Some w1" "conn_interest DisableAll cid w1 = Some w2"
    "notify_connection cbs cid w2 = Some w3" "call_cb (closed_cb cbs) cid w3 = Some w'"
    using assms(2) by (auto simp: handle_close_def bind_eq_Some_conv)
  then have "fwd w w1" "fwd w1 w2" "fwd w2 w3" "fwd w3 w'"
    using assms(1) fwd_set_disconnected fwd_interest fwd_notify fwd_call(3) by blast+
  then show ?thesis by (blast intro: fwd_trans)
qed

lemma fwd_buffer_rest: "buffer_rest d cid w = Some w' \<Longrightarrow> fwd w w'"
proof -
  assume "buffer_rest d cid w = Some w'"
  then obtain c where c: "conns w cid = Some c"
    and r: "w' = put_conn cid (c\<lparr>tc_output := append_buf d (tc_output c)\<rparr>) w \<or>
      conn_interest EnableWriting cid (put_conn cid (c\<lparr>tc_output := append_buf d (tc_output c)\<rparr>) w) = Some w'"
    by (auto simp: buffer_rest_def Let_def bind_eq_Some_conv split: if_splits)
  have "fwd w (put_conn cid (c\<lparr>tc_output := append_buf d (tc_output c)\<rparr>) w)"
    using c by (simp add: fwd_put)
  then show ?thesis using r fwd_interest fwd_trans by blast
qed

lemma fwd_send_in_loop:
  assumes "fwd_cbs cbs" "send_in_loop K cbs d cid w = Some w'" shows "fwd w w'"
proof -
  obtain c where c: "conns w cid = Some c"
    using assms(2) by (auto simp: send_in_loop_def bind_eq_Some_conv split: if_splits)
  have "w' = w \<or> (\<exists>v. conns v = conns w \<and>
      (handle_error cbs cid v = Some w' \<or> (\<exists>r. buffer_rest r cid v = Some w') \<or> call_cb (wc_cb cbs) cid v = Some w'))"
    using assms(2) c
    by (fastforce simp: send_in_loop_def Let_def log_event_def tick_def split: if_splits sum.splits)
  then show ?thesis
    using assms(1) fwd_same_conns fwd_handle_close fwd_buffer_rest fwd_call(2) fwd_trans
    unfolding handle_error_def by metis
qed

lemma fwd_queue: "conns (queue_in_loop f w) = conns w"
  by (simp add: queue_in_loop_def Let_def)

lemma fwd_run_in_loop:
  assumes "run_in_loop g f w = Some w'" "\<And>v. g w = Some v \<Longrightarrow> fwd w v" shows "fwd w w'"
  using assms by (auto simp: run_in_loop_def fwd_queue intro: fwd_same_conns split: if_splits)

lemma fwd_shutdown_in_loop: "shutdown_in_loop cid w = Some w' \<Longrightarrow> fwd w w'"
  by (auto simp: shutdown_in_loop_def bind_eq_Some_conv log_event_def intro: fwd_same_conns)

lemma fwd_handle_write:
  assumes "fwd_cbs cbs" "handle_write K cbs cid w = Some w'" shows "fwd w w'"
proof -
  obtain c where c: "conns w cid = Some c"
    using assms(2) by (auto simp: handle_write_def bind_eq_Some_conv)
  have put: "fwd w (log_event ev (put_conn cid (c\<lparr>tc_output := b\<rparr>) (tick w)))" for ev b
    using c by (simp add: fwd_def world_simps)
  have "conns w' = conns w \<or> (\<exists>ev b. let w1 = log_event ev (put_conn cid (c\<lparr>tc_output := b\<rparr>) (tick w)) in
      w' = w1 \<or> (\<exists>w2 w3. conn_interest DisableWriting cid w1 = Some w2 \<and>
        call_cb (wc_cb cbs) cid (log_event (WroteAll cid) w2) = Some w3 \<and>
        (w' = w3 \<or> shutdown_in_loop cid w3 = Some w')))"
    using assms(2) c
    by (fastforce simp: handle_write_def Let_def tick_def bind_eq_Some_conv split: if_splits sum.splits)
  then show ?thesis
  proof (elim disjE exE, goal_cases)
    case 1
    then show ?case by (rule fwd_same_conns)
  next
    case (2 ev b)
    let ?w1 = "log_event ev (put_conn cid (c\<lparr>tc_output := b\<rparr>) (tick w))"
    from 2 consider "w' = ?w1" | w2 w3 where "conn_interest DisableWriting cid ?w1 = Some w2"
      "call_cb (wc_cb cbs) cid (log_event (WroteAll cid) w2) = Some w3" "w' = w3 \<or> shutdown_in_loop cid w3 = Some w'"
      unfolding Let_def by blast
    then show ?case
    proof cases
      case 1
      then show ?thesis using put by simp
    next
      case 2
      have "fwd w2 (log_event (WroteAll cid) w2)" by (simp add: fwd_def log_event_def)
      with 2 fwd_interest [OF 2(1)] fwd_call(2) [OF assms(1) 2(2)] fwd_shutdown_in_loop [of cid w3 w'] put [of ev b]
      show ?thesis by (metis fwd_trans)
    qed
  qed
qed

lemma fwd_handle_read:
  assumes "fwd_cbs cbs" "handle_read K cbs cid w = Some w'" shows "fwd w w'"
proof -
  obtain c where c: "conns w cid = Some c"
    using assms(2) by (auto simp: handle_read_def bind_eq_Some_conv)
  have "fwd w (put_conn cid (c\<lparr>tc_input := b\<rparr>) (tick w))" for b
    using c by (simp add: fwd_def world_simps)
  moreover have "\<exists>b. handle_close cbs cid (put_conn cid (c\<lparr>tc_input := b\<rparr>) (tick w)) = Some w' \<or>
      call_cb (message_cb cbs) cid (put_conn cid (c\<lparr>tc_input := b\<rparr>) (tick w)) = Some w'"
    using assms(2) c by (auto simp: handle_read_def handle_error_def Let_def split: prod.splits sum.splits if_splits)
  ultimately show ?thesis
    using fwd_handle_close [OF assms(1)] fwd_call(1) [OF assms(1)] fwd_trans by metis
qed

lemma fwd_connection_destroyed:
  assumes "fwd_cbs cbs" "connection_destroyed cbs cid w = Some w'" shows "fwd w w'"
proof -
  obtain c w1 c1 ch w2 where st: "conns w cid = Some c"
    "(if tc_state c = kConnected then
        do { w \<leftarrow> set_state kDisconnected cid w; w \<leftarrow> conn_interest DisableAll cid w; notify_connection cbs cid w }
      else Some w) = Some w1"
    and c1: "conns w1 cid = Some c1" "loop_channel_remove (tc_channel c1) w1 = Some (ch, w2)"
      "w' = put_conn cid (c1\<lparr>tc_channel := ch\<rparr>) w2"
    using assms(2) by (auto simp: connection_destroyed_def bind_eq_Some_conv)
  have "fwd w w1"
  proof (cases "tc_state c = kConnected")
    case True
    then obtain a b where "set_state kDisconnected cid w = Some a" "conn_interest DisableAll cid a = Some b"
      "notify_connection cbs cid b = Some w1"
      using st(2) by (auto simp: bind_eq_Some_conv)
    then have "fwd w a" "fwd a b" "fwd b w1"
      using fwd_set_disconnected fwd_interest fwd_notify [OF assms(1)] by blast+
    then show ?thesis by (blast intro: fwd_trans)
  qed (use st in simp)
  moreover have "fwd w1 w'"
    using c1 by (auto simp: loop_channel_remove_def fwd_def put_conn_def split: if_splits prod.splits)
  ultimately show ?thesis by (rule fwd_trans)
qed

lemma fwd_shutdown: "shutdown cid w = Some w' \<Longrightarrow> fwd w w'"
proof -
  assume s: "shutdown cid w = Some w'"
  then obtain c where c: "conns w cid = Some c" by (auto simp: shutdown_def bind_eq_Some_conv)
  show ?thesis
  proof (cases "tc_state c = kConnected")
    case True
    then obtain w1 where w1: "set_state kDisconnecting cid w = Some w1"
      "run_in_loop (shutdown_in_loop cid) (ShutdownInLoop cid) w1 = Some w'"
      using s c by (auto simp: shutdown_def bind_eq_Some_conv)
    have "fwd w w1" by (rule fwd_set_state [OF w1(1) c]) (simp add: True)
    moreover have "fwd w1 w'" by (rule fwd_run_in_loop [OF w1(2)]) (rule fwd_shutdown_in_loop)
    ultimately show ?thesis by (rule fwd_trans)
  qed (use s c in \<open>simp add: shutdown_def\<close>)
qed

lemma fwd_force_close: "force_close cid w = Some w' \<Longrightarrow> fwd w w'"
  by (auto simp: force_close_def set_state_def bind_eq_Some_conv fwd_queue fwd_def put_conn_def split: if_splits)

lemma fwd_send_string:
  assumes "fwd_cbs cbs" "send_string K cbs d cid w = Some w'" shows "fwd w w'"
  using assms(2) fwd_send_in_loop [OF assms(1)]
  by (auto simp: send_string_def bind_eq_Some_conv split: if_splits elim: fwd_run_in_loop)

lemma fwd_send_buffer:
  assumes "fwd_cbs cbs" "send_buffer K cbs cid b w = Some w'" shows "fwd w w'"
  using assms(2) fwd_send_in_loop [OF assms(1)]
  by (auto simp: send_buffer_def bind_eq_Some_conv split: if_splits elim: fwd_run_in_loop)

lemma fwd_handle_event:
  assumes "fwd_cbs cbs" "conn_handle_event K cbs cid revts w = Some w'" shows "fwd w w'"
proof -
  let ?cb = "conn_channel_cbs K cbs cid"
  have r: "run_cb (close_cb ?cb) v = Some v' \<Longrightarrow> fwd v v'" "run_cb (error_cb ?cb) v = Some v' \<Longrightarrow> fwd v v'"
    "run_cb (read_cb ?cb) v = Some v' \<Longrightarrow> fwd v v'" "run_cb (write_cb ?cb) v = Some v' \<Longrightarrow> fwd v v'" for v v'
    using fwd_handle_close [OF assms(1)] fwd_handle_read [OF assms(1)] fwd_handle_write [OF assms(1)]
    by (simp_all add: conn_channel_cbs_def no_channel_cbs_def run_cb_def handle_error_def)
  have st: "(if P then run_cb cb v else Some v) = Some v' \<Longrightarrow> (run_cb cb v = Some v' \<Longrightarrow> fwd v v') \<Longrightarrow> fwd v v'"
    for P cb and v v' :: "('x, 'w) net_world_scheme" by (auto split: if_splits)
  have "handle_event_with_guard revts ?cb w = Some w'"
    using assms(2) by (auto simp: conn_handle_event_def handle_event_def bind_eq_Some_conv split: if_splits)
  then obtain w1 w2 w3 where
    "(if revts AND EPOLLHUP \<noteq> 0 \<and> revts AND EPOLLIN = 0 then run_cb (close_cb ?cb) w else Some w) = Some w1"
    "(if revts AND EPOLLERR \<noteq> 0 then run_cb (error_cb ?cb) w1 else Some w1) = Some w2"
    "(if revts AND (EPOLLIN OR EPOLLPRI OR EPOLLRDHUP) \<noteq> 0 then run_cb (read_cb ?cb) w2 else Some w2) = Some w3"
    "(if revts AND EPOLLOUT \<noteq> 0 then run_cb (write_cb ?cb) w3 else Some w3) = Some w'"
    unfolding handle_event_with_guard_def bind_eq_Some_conv by blast
  then have "fwd w w1" "fwd w1 w2" "fwd w2 w3" "fwd w3 w'" using st r by blast+
  then show ?thesis by (blast intro: fwd_trans)
qed

text \<open>Every entry point of a connection after its establishment.\<close>

datatype conn_op = OpSend string | OpSendBuffer buffer | OpShutdown | OpForceClose | OpEvent u32
  | OpSendInLoop string | OpShutdownInLoop | OpHandleClose | OpDestroyed

fun conn_exec :: "kernel \<Rightarrow> ('x, 'w) net_world_scheme conn_cbs \<Rightarrow> ('x, 'w) net_world_scheme \<Rightarrow> u64 \<times> conn_op \<Rightarrow>
    ('x, 'w) net_world_scheme option" where
  "conn_exec K cbs w (cid, OpSend d) = send_string K cbs d cid w"
| "conn_exec K cbs w (cid, OpSendBuffer b) = send_buffer K cbs cid b w"
| "conn_exec K cbs w (cid, OpShutdown) = shutdown cid w"
| "conn_exec K cbs w (cid, OpForceClose) = force_close cid w"
| "conn_exec K cbs w (cid, OpEvent revts) = conn_handle_event K cbs cid revts w"
| "conn_exec K cbs w (cid, OpSendInLoop d) = send_in_loop K cbs d cid w"
| "conn_exec K cbs w (cid, OpShutdownInLoop) = shutdown_in_loop cid w"
| "conn_exec K cbs w (cid, OpHandleClose) = handle_close cbs cid w"
| "conn_exec K cbs w (cid, OpDestroyed) = connection_destroyed cbs cid w"

lemma fwd_conn_exec: "fwd_cbs cbs \<Longrightarrow> conn_exec K cbs w op = Some w' \<Longrightarrow> fwd w w'"
  by (cases "(K, cbs, w, op)" rule: conn_exec.cases)
    (auto dest: fwd_send_string fwd_send_buffer fwd_shutdown fwd_force_close fwd_handle_event fwd_send_in_loop
      fwd_shutdown_in_loop fwd_handle_close fwd_connection_destroyed)

lemma fwd_conn_run: "fwd_cbs cbs \<Longrightarrow> fold_cb (conn_exec K cbs) ops w = Some w' \<Longrightarrow> fwd w w'"
  by (induction ops arbitrary: w) (auto simp: bind_eq_Some_conv dest: fwd_conn_exec intro: fwd_trans)

text \<open>
  Any failing read closes the connection, \<^verbatim>\<open>EWOULDBLOCK\<close> included: \<^verbatim>\<open>handle_read\<close> does not tell
  a read that would block from a broken connection.
\<close>

lemma read_error_disconnects:
  assumes "fwd_cbs cbs" "conns w cid = Some c"
    "sys_readv K (ticks w) (tc_sockfd c) (read_iov (tc_input c)) = Inl errno"
    "handle_read K cbs cid w = Some w'"
  shows "\<exists>c'. conns w' cid = Some c' \<and> tc_state c' = kDisconnected"
proof -
  let ?w = "put_conn cid (c\<lparr>tc_input := tc_input c\<rparr>) (tick w)"
  have "handle_close cbs cid ?w = Some w'"
    using assms(2-4) by (simp add: handle_read_def read_fd_Inl handle_error_def)
  then obtain w1 w2 w3 where st: "set_state kDisconnected cid ?w = Some w1" "conn_interest DisableAll cid w1 = Some w2"
    "notify_connection cbs cid w2 = Some w3" "call_cb (closed_cb cbs) cid w3 = Some w'"
    by (auto simp: handle_close_def bind_eq_Some_conv)
  then have "fwd w1 w'"
    using fwd_interest fwd_notify [OF assms(1)] fwd_call(3) [OF assms(1)] by (meson fwd_trans)
  moreover have "\<exists>c1. conns w1 cid = Some c1 \<and> tc_state c1 = kDisconnected"
    using st(1) by (auto simp: set_state_def world_simps)
  ultimately obtain c' where c': "conns w' cid = Some c'" "kDisconnected \<le> tc_state c'"
    unfolding fwd_def by metis
  then have "tc_state c' = kDisconnected" by (cases "tc_state c'") auto
  then show ?thesis using c'(1) by simp
qed

section \<open>Properties\<close>

text \<open>A world with one established connection, for the witnesses.\<close>

definition demo_world :: "string \<Rightarrow> (unit, unit) net_world_scheme" where
  "demo_world out =
     \<lparr>the_loop = event_loop_new 1 0 (poller_new 5) 3, cur_thread = 1,
      conns = [5 \<mapsto> (tcp_connection_new 9 5 ''peer'')\<lparr>tc_state := kConnected,
                   tc_channel := (channel_new 7 9)\<lparr>ch_index := kAdded, ch_tied := True,
                     ch_events := (if out = [] then kReadEvent else kReadEvent OR kWriteEvent)\<rparr>,
                   tc_output := append_buf out (buffer_new 8)\<rparr>],
      ticks = 0, net_log = []\<rparr>"

definition no_cbs :: "'w conn_cbs" where
  "no_cbs = \<lparr>conn_cb = None, message_cb = None, wc_cb = None, closed_cb = None\<rparr>"

text \<open>A kernel that takes one byte per write and has nothing to read.\<close>

definition slow_kernel :: kernel where
  "slow_kernel = \<lparr>sys_write = (\<lambda>t fd d. Inr (min 1 (length d))), sys_readv = (\<lambda>t fd iov. Inl EWOULDBLOCK)\<rparr>"

lemma demo_world_in_loop: "is_in_loop_thread (demo_world out)"
  by (simp add: demo_world_def is_in_loop_thread_def event_loop_new_def split: prod.split)

lemma demo_world_out_inv: "out_inv 5 (demo_world out)"
  using demo_world_in_loop [of out]
  by (auto simp: out_inv_def demo_world_def tcp_connection_new_def append_buf_inv buffer_new_inv
      append_buf_contents contents_buffer_new is_writing_def epoll_bits)

lemma slow_kernel_ok: "write_ok slow_kernel" "write_no_error slow_kernel"
  by (auto simp: write_ok_def write_no_error_def slow_kernel_def)

text \<open>
  C29. Output integrity: on an open connection, whatever the kernel takes of each write, any
  interleaving of sends and writable events succeeds, and the bytes taken by the kernel followed
  by the buffered bytes are exactly the bytes given to the connection, in order; buffered bytes
  always have write interest, so they cannot be forgotten.
\<close>

theorem output_stream_preserved:
  assumes "write_ok K" "write_no_error K" "wc_cb cbs = None" "out_inv cid w"
  shows "\<exists>w'. fold_cb (out_exec K cbs cid) ops w = Some w' \<and> out_inv cid w' \<and>
    out_stream cid w' = out_stream cid w @ concat (map out_data ops)"
  by (rule out_run [OF assms])

theorem output_stream_preserved_witness:
  "\<exists>w'. fold_cb (out_exec slow_kernel no_cbs 5) [OutSend ''abc'', OutReady, OutSend ''de''] (demo_world []) = Some w' \<and>
     out_inv 5 w' \<and> out_stream 5 w' = ''abcde''"
  using output_stream_preserved [OF slow_kernel_ok, of no_cbs 5 "demo_world []" "[OutSend ''abc'', OutReady, OutSend ''de'']"]
  by (simp add: demo_world_out_inv no_cbs_def)
    (simp add: out_defs demo_world_def tcp_connection_new_def append_buf_contents buffer_new_inv contents_buffer_new)



lemma drain_run:
  assumes "write_ok K" "write_progress K" "wc_cb cbs = None" "out_inv cid w" "conns w cid = Some c"
    "contents (tc_output c) = [] \<longrightarrow> tc_state c = kDisconnecting \<longrightarrow> ShutdownWr cid \<in> set (net_log w)"
    "length (contents (tc_output c)) \<le> k"
  shows "\<exists>w'. fold_cb (out_exec K cbs cid) (replicate k OutReady) w = Some w' \<and> out_buffered cid w' = [] \<and>
    wrote cid (net_log w') = out_stream cid w \<and>
    (tc_state c = kDisconnecting \<longrightarrow> ShutdownWr cid \<in> set (net_log w'))"
  using assms(4-7)
proof (induction k arbitrary: w c)
  case 0
  then show ?case by (simp add: out_defs)
next
  case (Suc k)
  show ?case
  proof (rule handle_write_cases [OF assms(1,3) Suc.prems(1,2)])
    fix w1 n c1
    assume hw: "handle_write K cbs cid w = Some w1" and inv1: "out_inv cid w1" and c1: "conns w1 cid = Some c1"
      and st: "tc_state c1 = tc_state c" and rest: "contents (tc_output c1) = drop n (contents (tc_output c))"
      and wr: "wrote cid (net_log w1) = wrote cid (net_log w) @ take n (contents (tc_output c))"
      and pr: "write_progress K \<longrightarrow> contents (tc_output c) \<noteq> [] \<longrightarrow> 0 < n"
      and sh: "ShutdownWr cid \<in> set (net_log w1) \<longleftrightarrow> ShutdownWr cid \<in> set (net_log w) \<or>
        (n > 0 \<and> contents (tc_output c1) = [] \<and> tc_state c = kDisconnecting)"
    have "length (contents (tc_output c1)) \<le> k"
      using rest pr assms(2) Suc.prems(4) by (cases "contents (tc_output c) = []") auto
    moreover have "contents (tc_output c1) = [] \<longrightarrow> tc_state c1 = kDisconnecting \<longrightarrow> ShutdownWr cid \<in> set (net_log w1)"
      using sh st pr assms(2) Suc.prems(3) by (cases "contents (tc_output c) = []") auto
    moreover have "out_stream cid w1 = out_stream cid w"
      using wr rest c1 Suc.prems(2) by (simp add: out_defs)
    ultimately show ?thesis using Suc.IH [OF inv1 c1] hw st by simp
  qed
qed



end
