(* ===== verification/Tcp_Server.thy ===== *)
theory Tcp_Server
  imports Tcp_Connection
begin

text \<open>
  \<^verbatim>\<open>net/tcp_server.h\<close> and \<^verbatim>\<open>net/tcp_server.cpp\<close>: the acceptor and the table of live connections.
  The server's fields extend the world of the connections, and the event loop's dispatch of
  ready channels and of queued closures is given for the whole server, so that the theorems
  are about turns of the real loop. The address of the wake-up channel is 0, that of the
  accepting channel 1, and that of the channel of connection \<open>i\<close> is \<open>i + 2\<close>.
\<close>

section \<open>The listening socket\<close>

text \<open>
  The answers of the system calls \<^verbatim>\<open>create_listen_fd\<close> makes, and \<^verbatim>\<open>inet_addr\<close>. The result is
  the message of the exception or the descriptor, with the descriptors that were closed.
\<close>

record listen_calls =
  sys_socket :: int
  sys_bind :: "int \<Rightarrow> u32 \<Rightarrow> u16 \<Rightarrow> int"
  sys_listen :: "int \<Rightarrow> int"
  inet_addr :: "string \<Rightarrow> u32"

definition INADDR_ANY :: u32 where "INADDR_ANY = 0"

definition create_listen_fd :: "listen_calls \<Rightarrow> string \<Rightarrow> u16 \<Rightarrow> (string + int) \<times> int list" where
  "create_listen_fd L host port =
     (let fd = sys_socket L in
      if fd < 0 then (Inl ''socket() failed'', [])
      else
        let s_addr = (if host = [] then INADDR_ANY else inet_addr L host) in
        if sys_bind L fd s_addr port < 0 then
          (Inl (''bind() failed on port '' @ decimal (unat port)), [fd])
        else if sys_listen L fd < 0 then (Inl ''listen() failed'', [fd])
        else (Inr fd, []))"

section \<open>The class\<close>

record tcp_server =
  ts_listen_fd :: int
  ts_accept_channel :: channel
  ts_next_conn_id :: u64
  ts_connections :: "u64 set"
  ts_started :: bool
  ts_io_pool :: "nat option"

record 'x server_world = "'x net_world" +
  tcp_srv :: tcp_server

definition accept_ptr :: nat where "accept_ptr = 1"

definition conn_ptr :: "u64 \<Rightarrow> nat" where "conn_ptr cid = unat cid + 2"

definition tcp_server_new :: "listen_calls \<Rightarrow> string \<Rightarrow> u16 \<Rightarrow> (string + tcp_server) \<times> int list" where
  "tcp_server_new L host port =
     (case create_listen_fd L host port of
        (Inl err, closed) \<Rightarrow> (Inl err, closed)
      | (Inr fd, closed) \<Rightarrow>
          (Inr \<lparr>ts_listen_fd = fd, ts_accept_channel = channel_new accept_ptr fd, ts_next_conn_id = 1,
                ts_connections = {}, ts_started = False, ts_io_pool = None\<rparr>, closed))"

definition upd_srv :: "(tcp_server \<Rightarrow> tcp_server) \<Rightarrow> ('x, 'w) server_world_scheme \<Rightarrow> ('x, 'w) server_world_scheme" where
  "upd_srv f w = w\<lparr>tcp_srv := f (tcp_srv w)\<rparr>"

text \<open>\<^verbatim>\<open>set_thread_num\<close> casts to \<^verbatim>\<open>size_t\<close> and makes a pool that nothing uses.\<close>

definition set_thread_num :: "int \<Rightarrow> ('x, 'w) server_world_scheme \<Rightarrow> ('x, 'w) server_world_scheme" where
  "set_thread_num n = upd_srv (\<lambda>s. s\<lparr>ts_io_pool := Some (unat (of_int n :: u64))\<rparr>)"

definition accept_interest :: "interest_op \<Rightarrow> ('x, 'w) server_world_scheme \<Rightarrow> ('x, 'w) server_world_scheme option" where
  "accept_interest op w =
     do { (ch, w1) \<leftarrow> loop_set_interest op (ts_accept_channel (tcp_srv w)) w;
          Some (upd_srv (\<lambda>s. s\<lparr>ts_accept_channel := ch\<rparr>) w1) }"

definition tcp_server_start :: "('x, 'w) server_world_scheme \<Rightarrow> ('x, 'w) server_world_scheme option" where
  "tcp_server_start w =
     (if ts_started (tcp_srv w) then Some w
      else accept_interest EnableReading (upd_srv (\<lambda>s. s\<lparr>ts_started := True\<rparr>) w))"

text \<open>
  \<open>u\<close> holds the user's connection, message and write-complete callbacks (its \<^const>\<open>closed_cb\<close> is
  not used); the closure of \<^verbatim>\<open>remove_connection\<close> is \<open>remove_in_loop\<close>.
\<close>

definition remove_in_loop :: "('x, 'w) server_world_scheme conn_cbs \<Rightarrow> u64 \<Rightarrow>
    ('x, 'w) server_world_scheme \<Rightarrow> ('x, 'w) server_world_scheme option" where
  "remove_in_loop u cid w =
     connection_destroyed u cid (upd_srv (\<lambda>s. s\<lparr>ts_connections := ts_connections s - {cid}\<rparr>) w)"

definition remove_connection :: "('x, 'w) server_world_scheme conn_cbs \<Rightarrow> u64 \<Rightarrow>
    ('x, 'w) server_world_scheme \<Rightarrow> ('x, 'w) server_world_scheme option" where
  "remove_connection u cid w = run_in_loop (remove_in_loop u cid) (DestroyConnection cid) w"

definition server_cbs :: "('x, 'w) server_world_scheme conn_cbs \<Rightarrow> ('x, 'w) server_world_scheme conn_cbs" where
  "server_cbs u =
     set_closed_callback (Some (remove_connection u)) (set_write_complete_callback (wc_cb u)
       (set_message_callback (message_cb u) (set_connection_callback (conn_cb u) no_conn_cbs)))"

lemma server_cbs_alt: "server_cbs u = u\<lparr>closed_cb := Some (remove_connection u)\<rparr>"
  by (cases u) (simp add: server_cbs_def no_conn_cbs_def)

definition new_connection :: "('x, 'w) server_world_scheme conn_cbs \<Rightarrow> int \<Rightarrow> string \<Rightarrow>
    ('x, 'w) server_world_scheme \<Rightarrow> ('x, 'w) server_world_scheme option" where
  "new_connection u sockfd peer_addr w =
     (let cid = ts_next_conn_id (tcp_srv w);
          w1 = upd_srv (\<lambda>s. s\<lparr>ts_next_conn_id := cid + 1\<rparr>) w;
          w2 = put_conn cid (tcp_connection_new sockfd cid peer_addr) w1;
          w3 = upd_srv (\<lambda>s. s\<lparr>ts_connections := insert cid (ts_connections s)\<rparr>) w2
      in run_in_loop (connection_established (server_cbs u) cid) (ConnectionEstablished cid) w3)"

text \<open>\<^verbatim>\<open>accept4\<close>: a descriptor with the peer's address bytes and port, or an error.\<close>

type_synonym accept_call = "nat \<Rightarrow> int \<Rightarrow> (int \<times> (nat \<times> nat \<times> nat \<times> nat) \<times> u16) option"

fun peer_text :: "nat \<times> nat \<times> nat \<times> nat \<Rightarrow> u16 \<Rightarrow> string" where
  "peer_text (a, b, c, d) port =
     decimal a @ ''.'' @ decimal b @ ''.'' @ decimal c @ ''.'' @ decimal d @ '':'' @ decimal (unat port)"

definition handle_accept :: "accept_call \<Rightarrow> ('x, 'w) server_world_scheme conn_cbs \<Rightarrow>
    ('x, 'w) server_world_scheme \<Rightarrow> ('x, 'w) server_world_scheme option" where
  "handle_accept A u w =
     (case A (ticks w) (ts_listen_fd (tcp_srv w)) of
        None \<Rightarrow> Some (tick w)
      | Some (conn_fd, addr, port) \<Rightarrow> new_connection u conn_fd (peer_text addr port) (tick w))"

text \<open>
  The connections that closures of the loop's queue keep alive: those that capture a
  \<^verbatim>\<open>shared_ptr\<close>; the closures of \<^verbatim>\<open>send\<close> and \<^verbatim>\<open>shutdown\<close> capture \<^verbatim>\<open>this\<close> only.
\<close>

fun holds :: "('x \<Rightarrow> u64) \<Rightarrow> 'x net_functor \<Rightarrow> u64 option" where
  "holds fcid (SendInLoop cid d) = None"
| "holds fcid (ShutdownInLoop cid) = None"
| "holds fcid (HandleClose cid) = Some cid"
| "holds fcid (ConnectionEstablished cid) = Some cid"
| "holds fcid (DestroyConnection cid) = Some cid"
| "holds fcid (UserFunctor x) = Some (fcid x)"

definition held_ids :: "('x \<Rightarrow> u64) \<Rightarrow> ('x, 'w) server_world_scheme \<Rightarrow> u64 list" where
  "held_ids fcid w = remdups (List.map_filter (holds fcid) (pending_functors (the_loop w)))"

definition destroy_conns :: "u64 list \<Rightarrow> ('x, 'w) server_world_scheme \<Rightarrow> ('x, 'w) server_world_scheme option" where
  "destroy_conns = fold_cb (\<lambda>w cid. tcp_connection_destroy cid w)"

text \<open>
  The destructor; \<open>ids\<close> is the order in which the \<^verbatim>\<open>unordered_map\<close> iterates over the connections. After
  its body the members go: the table with the connections only it refers to, then the
  accepting channel.
\<close>

definition tcp_server_destroy :: "('x \<Rightarrow> u64) \<Rightarrow> ('x, 'w) server_world_scheme conn_cbs \<Rightarrow> u64 list \<Rightarrow>
    ('x, 'w) server_world_scheme \<Rightarrow> ('x, 'w) server_world_scheme option" where
  "tcp_server_destroy fcid u ids w =
     do { w1 \<leftarrow> accept_interest DisableAll w;
          (ch, w2) \<leftarrow> loop_channel_remove (ts_accept_channel (tcp_srv w1)) w1;
          let w3 = upd_srv (\<lambda>s. s\<lparr>ts_accept_channel := ch\<rparr>) w2;
              w4 = log_event (ClosedFd (ts_listen_fd (tcp_srv w3))) w3
          in do { w5 \<leftarrow> fold_cb (\<lambda>w cid. connection_destroyed (server_cbs u) cid w) ids w4;
                  w6 \<leftarrow> destroy_conns (filter (\<lambda>cid. cid \<notin> set (held_ids fcid w5)) ids) w5;
                  _ \<leftarrow> channel_destroy (ts_accept_channel (tcp_srv w6));
                  Some w6 } }"

section \<open>The server in the event loop\<close>

text \<open>The handler of one ready channel, found by its address.\<close>

definition server_dispatch :: "kernel \<Rightarrow> accept_call \<Rightarrow> ('x, 'w) server_world_scheme conn_cbs \<Rightarrow>
    ('x, 'w) server_world_scheme \<Rightarrow> nat \<times> u32 \<Rightarrow> ('x, 'w) server_world_scheme option" where
  "server_dispatch K A u w ev =
     (case ev of (ptr, revts) \<Rightarrow>
        if ptr = 0 then
          handle_event True (set_revents revts (wakeup_channel (the_loop w)))
            (set_read_callback (\<lambda>w. Some (w\<lparr>the_loop := wakeup_handle_read (the_loop w)\<rparr>)) no_channel_cbs) w
        else if ptr = accept_ptr then
          handle_event True (set_revents revts (ts_accept_channel (tcp_srv w)))
            (set_read_callback (handle_accept A u) no_channel_cbs) w
        else conn_handle_event K (server_cbs u) (of_nat (ptr - 2)) revts w)"

text \<open>The closures of the queue; \<open>user\<close> runs those the layer above has queued.\<close>

fun server_exec :: "kernel \<Rightarrow> ('x, 'w) server_world_scheme conn_cbs \<Rightarrow>
    ('x \<Rightarrow> ('x, 'w) server_world_scheme \<Rightarrow> ('x, 'w) server_world_scheme option) \<Rightarrow>
    ('x, 'w) server_world_scheme \<Rightarrow> 'x net_functor \<Rightarrow> ('x, 'w) server_world_scheme option" where
  "server_exec K u user w (SendInLoop cid d) = send_in_loop K (server_cbs u) d cid w"
| "server_exec K u user w (ShutdownInLoop cid) = shutdown_in_loop cid w"
| "server_exec K u user w (HandleClose cid) = handle_close (server_cbs u) cid w"
| "server_exec K u user w (ConnectionEstablished cid) = connection_established (server_cbs u) cid w"
| "server_exec K u user w (DestroyConnection cid) = remove_in_loop u cid w"
| "server_exec K u user w (UserFunctor x) = user x w"

section \<open>The invariant of the server\<close>

text \<open>
  The ids a queued closure refers to are ids of existing connections; \<open>fcid\<close> gives the id of a
  closure of the layer above.
\<close>

fun functor_ok :: "('x \<Rightarrow> u64) \<Rightarrow> u64 set \<Rightarrow> 'x net_functor \<Rightarrow> bool" where
  "functor_ok fcid D (SendInLoop cid d) \<longleftrightarrow> cid \<in> D"
| "functor_ok fcid D (ShutdownInLoop cid) \<longleftrightarrow> cid \<in> D"
| "functor_ok fcid D (HandleClose cid) \<longleftrightarrow> cid \<in> D"
| "functor_ok fcid D (ConnectionEstablished cid) \<longleftrightarrow> False"
| "functor_ok fcid D (DestroyConnection cid) \<longleftrightarrow> False"
| "functor_ok fcid D (UserFunctor x) \<longleftrightarrow> fcid x \<in> D"

text \<open>
  A connection is stored under its own id, its channel has the address and the descriptor that
  belong to it, and its buffers are sound. The table holds exactly the connections that are not
  disconnected, apart from those of \<open>X\<close>, whose closing is in progress; a connection out of the
  table watches for no event; ids in use are below the next id; \<open>I\<close> is the invariant of the
  layer above on the known ids and its part of the world.
\<close>

definition conn_wf :: "u64 \<Rightarrow> tcp_connection \<Rightarrow> bool" where
  "conn_wf cid c \<longleftrightarrow> tc_id c = cid \<and> ch_ptr (tc_channel c) = conn_ptr cid \<and> ch_fd (tc_channel c) = tc_sockfd c \<and>
     buffer_inv (tc_input c) \<and> buffer_inv (tc_output c)"

definition srv_inv :: "('x \<Rightarrow> u64) \<Rightarrow> (u64 set \<Rightarrow> 'w \<Rightarrow> bool) \<Rightarrow> u64 set \<Rightarrow> ('x, 'w) server_world_scheme \<Rightarrow> bool" where
  "srv_inv fcid I X w \<longleftrightarrow> is_in_loop_thread w \<and> I (dom (conns w)) (server_world.more w) \<and>
     ts_connections (tcp_srv w) \<subseteq> dom (conns w) \<and>
     list_all (functor_ok fcid (dom (conns w))) (pending_functors (the_loop w)) \<and>
     (\<forall>cid c. conns w cid = Some c \<longrightarrow> cid < ts_next_conn_id (tcp_srv w) \<and> conn_wf cid c \<and>
        (tc_state c \<noteq> kDisconnected \<longleftrightarrow> cid \<in> ts_connections (tcp_srv w) - X) \<and>
        (cid \<notin> ts_connections (tcp_srv w) \<longrightarrow> is_none_event (tc_channel c)))"

text \<open>The invariant again, the known connections still known, and no id given out.\<close>

definition srv_ext :: "('x \<Rightarrow> u64) \<Rightarrow> (u64 set \<Rightarrow> 'w \<Rightarrow> bool) \<Rightarrow> u64 set \<Rightarrow> ('x, 'w) server_world_scheme \<Rightarrow>
    ('x, 'w) server_world_scheme \<Rightarrow> bool" where
  "srv_ext fcid I X w w' \<longleftrightarrow> srv_inv fcid I X w' \<and> dom (conns w) \<subseteq> dom (conns w') \<and>
     ts_next_conn_id (tcp_srv w') = ts_next_conn_id (tcp_srv w)"

text \<open>The contract of a handler for connection \<open>cid\<close>: it succeeds and keeps the invariant.\<close>

definition keeps :: "('x \<Rightarrow> u64) \<Rightarrow> (u64 set \<Rightarrow> 'w \<Rightarrow> bool) \<Rightarrow>
    (('x, 'w) server_world_scheme \<Rightarrow> ('x, 'w) server_world_scheme option) \<Rightarrow> u64 \<Rightarrow> bool" where
  "keeps fcid I f cid \<longleftrightarrow> (\<forall>X w. srv_inv fcid I X w \<and> cid \<in> dom (conns w) \<longrightarrow>
     (\<exists>w'. f w = Some w' \<and> srv_ext fcid I X w w'))"

lemma functor_ok_mono: "functor_ok fcid D f \<Longrightarrow> D \<subseteq> D' \<Longrightarrow> functor_ok fcid D' f"
  by (cases f) auto

lemma srv_ext_refl: "srv_inv fcid I X w \<Longrightarrow> srv_ext fcid I X w w"
  by (simp add: srv_ext_def)

lemma srv_ext_trans: "srv_ext fcid I X u v \<Longrightarrow> srv_ext fcid I Y v w \<Longrightarrow> srv_ext fcid I Y u w"
  by (auto simp: srv_ext_def)

lemma srv_ext_inv: "srv_ext fcid I X w w' \<Longrightarrow> srv_inv fcid I X w'"
  by (simp add: srv_ext_def)

lemma srv_ext_dom: "srv_ext fcid I X w w' \<Longrightarrow> cid \<in> dom (conns w) \<Longrightarrow> cid \<in> dom (conns w')"
  by (auto simp: srv_ext_def)

lemma keepsE:
  assumes "keeps fcid I f cid" "srv_inv fcid I X w" "cid \<in> dom (conns w)"
  obtains w' where "f w = Some w'" "srv_ext fcid I X w w'"
  using assms unfolding keeps_def by blast

lemma keepsI:
  assumes "\<And>X w c. srv_inv fcid I X w \<Longrightarrow> conns w cid = Some c \<Longrightarrow> \<exists>w'. f w = Some w' \<and> srv_ext fcid I X w w'"
  shows "keeps fcid I f cid"
  using assms by (auto simp: keeps_def)

lemma keeps_Some [simp]: "keeps fcid I Some cid"
  by (auto simp: keeps_def intro: srv_ext_refl)

lemma keeps_bind:
  assumes "keeps fcid I f cid" "keeps fcid I g cid" shows "keeps fcid I (\<lambda>w. f w \<bind> g) cid"
proof (rule keepsI)
  fix X w c assume w: "srv_inv fcid I X w" "conns w cid = Some c"
  then obtain w1 where 1: "f w = Some w1" "srv_ext fcid I X w w1" by (auto elim: keepsE [OF assms(1)])
  moreover have "cid \<in> dom (conns w1)" using srv_ext_dom [OF 1(2)] w(2) by blast
  ultimately obtain w2 where "g w1 = Some w2" "srv_ext fcid I X w1 w2"
    using keepsE [OF assms(2) srv_ext_inv] by metis
  then show "\<exists>w'. f w \<bind> g = Some w' \<and> srv_ext fcid I X w w'" using 1 srv_ext_trans by fastforce
qed

lemma keeps_call: "(\<And>f. cb = Some f \<Longrightarrow> keeps fcid I (f cid) cid) \<Longrightarrow> keeps fcid I (call_cb cb cid) cid"
  by (cases cb) (auto simp: call_cb_def keeps_def intro: srv_ext_refl)

text \<open>Updates that touch neither the table nor the states.\<close>

lemma srv_ext_put:
  assumes "srv_inv fcid I X w" "conns w cid = Some c" "tc_state c' = tc_state c" "conn_wf cid c'"
    "is_none_event (tc_channel c) \<Longrightarrow> tc_state c = kDisconnected \<Longrightarrow> is_none_event (tc_channel c')"
  shows "srv_ext fcid I X w (put_conn cid c' w)"
  using assms by (auto simp: srv_ext_def srv_inv_def put_conn_def is_in_loop_thread_def insert_dom)

lemma srv_ext_log: "srv_inv fcid I X w \<Longrightarrow> srv_ext fcid I X w (log_event ev w)"
  by (auto simp: srv_ext_def srv_inv_def world_simps)

lemma srv_ext_tick: "srv_inv fcid I X w \<Longrightarrow> srv_ext fcid I X w (tick w)"
  by (auto simp: srv_ext_def srv_inv_def world_simps)

lemma srv_ext_poller: "srv_inv fcid I X w \<Longrightarrow> srv_ext fcid I X w (w\<lparr>the_loop := (the_loop w)\<lparr>loop_poller := p\<rparr>\<rparr>)"
  by (auto simp: srv_ext_def srv_inv_def world_simps)

lemma srv_ext_queue:
  "srv_inv fcid I X w \<Longrightarrow> functor_ok fcid (dom (conns w)) f \<Longrightarrow> srv_ext fcid I X w (queue_in_loop f w)"
  by (auto simp: srv_ext_def srv_inv_def loop_defs)

lemma srv_inv_in_loop: "srv_inv fcid I X w \<Longrightarrow> is_in_loop_thread w"
  by (simp add: srv_inv_def)

lemma srv_inv_conn:
  "srv_inv fcid I X w \<Longrightarrow> conns w cid = Some c \<Longrightarrow> conn_wf cid c \<and> buffer_inv (tc_input c) \<and> buffer_inv (tc_output c)"
  by (simp add: srv_inv_def conn_wf_def)

lemma run_in_loop_here: "is_in_loop_thread w \<Longrightarrow> run_in_loop g f w = g w"
  by (simp add: run_in_loop_def)

lemma run_cb_Some: "run_cb (Some f) = f"
  by (rule ext) (simp add: run_cb_def)

text \<open>A connection stops watching at any time, and starts to only while it is not disconnected.\<close>

lemma interest_ext:
  assumes w: "srv_inv fcid I X w" "conns w cid = Some c"
    and op: "op = DisableAll \<or> op = DisableWriting \<or> tc_state c \<noteq> kDisconnected"
  shows "\<exists>w'. conn_interest op cid w = Some w' \<and> srv_ext fcid I X w w'"
proof -
  from conn_interest_works [OF srv_inv_in_loop [OF w(1)] w(2)] obtain ch p where
    ch: "conn_interest op cid w = Some (put_conn cid (c\<lparr>tc_channel := ch\<rparr>) (w\<lparr>the_loop := (the_loop w)\<lparr>loop_poller := p\<rparr>\<rparr>))"
      "ch_events ch = interest op (ch_events (tc_channel c))" "ch_fd ch = ch_fd (tc_channel c)" "ch_ptr ch = ch_ptr (tc_channel c)"
    by blast
  let ?w = "w\<lparr>the_loop := (the_loop w)\<lparr>loop_poller := p\<rparr>\<rparr>"
  have p: "srv_ext fcid I X w ?w" by (rule srv_ext_poller [OF w(1)])
  have "is_none_event ch" if "is_none_event (tc_channel c)" "tc_state c = kDisconnected"
    using that op ch(2) interest_none by (auto simp: is_none_event_def)
  then have "srv_ext fcid I X ?w (put_conn cid (c\<lparr>tc_channel := ch\<rparr>) ?w)"
    by (intro srv_ext_put [OF srv_ext_inv [OF p]]) (use w(2) srv_inv_conn [OF w] ch(3,4) in \<open>auto simp: conn_wf_def\<close>)
  then show ?thesis using ch(1) srv_ext_trans [OF p] by blast
qed

lemma keeps_interest: "op = DisableAll \<or> op = DisableWriting \<Longrightarrow> keeps fcid I (conn_interest op cid) cid"
  by (rule keepsI) (blast intro: interest_ext)

text \<open>
  What a turn relies on: \<^verbatim>\<open>epoll_wait\<close> reports the wake-up channel, the accepting channel and
  channels of connections in the table, and the 64-bit connection ids are not used up.
\<close>

definition ready :: "epoll_wait_call \<Rightarrow> ('x, 'w) server_world_scheme \<Rightarrow> (nat \<times> u32) list" where
  "ready ew w = fst (poll ew (loop_poller (the_loop w)))"

definition reports_live :: "epoll_wait_call \<Rightarrow> ('x, 'w) server_world_scheme \<Rightarrow> bool" where
  "reports_live ew w \<longleftrightarrow>
     list_all (\<lambda>(ptr, revts). ptr \<le> accept_ptr \<or> (\<exists>cid \<in> ts_connections (tcp_srv w). ptr = conn_ptr cid)) (ready ew w)"

definition ids_left :: "epoll_wait_call \<Rightarrow> ('x, 'w) server_world_scheme \<Rightarrow> bool" where
  "ids_left ew w \<longleftrightarrow> unat (ts_next_conn_id (tcp_srv w)) + length (ready ew w) < 2 ^ 64"

text \<open>The ids of the connections that are not disconnected.\<close>

definition live_ids :: "('x, 'w) server_world_scheme \<Rightarrow> u64 set" where
  "live_ids w = {cid. \<exists>c. conns w cid = Some c \<and> tc_state c \<noteq> kDisconnected}"

lemma srv_inv_live: "srv_inv fcid I {} w \<Longrightarrow> ts_connections (tcp_srv w) = live_ids w"
  by (fastforce simp: srv_inv_def live_ids_def)

section \<open>What callbacks must keep\<close>

text \<open>
  The contract between the connections and the layer above: its callbacks succeed and keep
  the server's invariant. The closing and sending operations rely on the connection and
  write-complete callbacks only.
\<close>

locale base_callbacks =
  fixes K :: kernel and u :: "('x, 'w) server_world_scheme conn_cbs"
    and fcid :: "'x \<Rightarrow> u64" and I :: "u64 set \<Rightarrow> 'w \<Rightarrow> bool"
  assumes kernel_write: "write_ok K"
    and layer_mono: "I D r \<Longrightarrow> D \<subseteq> D' \<Longrightarrow> I D' r"
    and conn_keeps: "conn_cb u = Some f \<Longrightarrow> keeps fcid I (f cid) cid"
    and wc_keeps: "wc_cb u = Some f \<Longrightarrow> keeps fcid I (f cid) cid"
begin

lemma keeps_notify: "keeps fcid I (notify_connection (server_cbs u) cid) cid"
proof (cases "conn_cb u")
  case None
  then show ?thesis by (simp add: notify_connection_def server_cbs_alt keeps_def srv_ext_refl)
next
  case (Some f)
  show ?thesis
  proof (rule keepsI)
    fix X w c assume w: "srv_inv fcid I X w" "conns w cid = Some c"
    have "srv_ext fcid I X w (log_event (ConnectionCb cid (tc_state c)) w)" by (rule srv_ext_log [OF w(1)])
    moreover from this obtain w' where "f cid (log_event (ConnectionCb cid (tc_state c)) w) = Some w'"
      "srv_ext fcid I X (log_event (ConnectionCb cid (tc_state c)) w) w'"
      using keepsE [OF conn_keeps [OF Some] srv_ext_inv] w(2) by (metis domI srv_ext_dom)
    ultimately show "\<exists>w'. notify_connection (server_cbs u) cid w = Some w' \<and> srv_ext fcid I X w w'"
      using Some w(2) srv_ext_trans by (fastforce simp: notify_connection_def server_cbs_alt)
  qed
qed

lemma keeps_wc: "keeps fcid I (call_cb (wc_cb (server_cbs u)) cid) cid"
  by (rule keeps_call) (simp add: server_cbs_alt wc_keeps)

text \<open>Removing a connection that is being closed ends the exception for it.\<close>

lemma remove_in_loop_ends:
  assumes "srv_inv fcid I (insert cid X) w" "cid \<in> dom (conns w)"
  shows "\<exists>w'. remove_in_loop u cid w = Some w' \<and> srv_ext fcid I X w w'"
proof -
  obtain c where c: "conns w cid = Some c" "tc_state c = kDisconnected" "is_in_loop_thread w"
    using assms by (auto simp: srv_inv_def)
  let ?w = "upd_srv (\<lambda>s. s\<lparr>ts_connections := ts_connections s - {cid}\<rparr>) w"
  obtain ch p where r: "channel_remove (tc_channel c) (loop_poller (the_loop w)) = (ch, p)" by fastforce
  let ?w' = "put_conn cid (c\<lparr>tc_channel := ch\<rparr>) (?w\<lparr>the_loop := (the_loop ?w)\<lparr>loop_poller := p\<rparr>\<rparr>)"
  have "remove_in_loop u cid w = Some ?w'"
    using c r by (simp add: remove_in_loop_def connection_destroyed_def loop_channel_remove_def upd_srv_def is_in_loop_thread_def)
  moreover have "srv_ext fcid I X w ?w'"
    using assms c channel_remove_id [OF r] by (auto simp: srv_ext_def srv_inv_def conn_wf_def upd_srv_def world_simps insert_dom)
  ultimately show ?thesis by blast
qed

lemma keeps_handle_close: "keeps fcid I (handle_close (server_cbs u) cid) cid"
proof (rule keepsI)
  fix X w c assume w: "srv_inv fcid I X w" "conns w cid = Some c"
  let ?w = "put_conn cid (c\<lparr>tc_state := kDisconnected\<rparr>) w" and ?X = "insert cid X"
  have s: "set_state kDisconnected cid w = Some ?w" using w(2) by (simp add: set_state_def)
  have 1: "srv_ext fcid I ?X w ?w"
    using w by (auto simp: srv_ext_def srv_inv_def conn_wf_def world_simps insert_dom)
  from keeps_bind [OF keeps_interest [of DisableAll fcid I cid] keeps_notify]
  obtain w3 where 3: "conn_interest DisableAll cid ?w \<bind> notify_connection (server_cbs u) cid = Some w3"
    "srv_ext fcid I ?X ?w w3"
    using keepsE srv_ext_inv [OF 1] srv_ext_dom [OF 1] w(2) by (metis (no_types, lifting) domI)
  moreover have "cid \<in> dom (conns w3)" using srv_ext_dom [OF 1] srv_ext_dom [OF 3(2)] w(2) by blast
  ultimately obtain w4 where 4: "remove_in_loop u cid w3 = Some w4" "srv_ext fcid I X w3 w4"
    using remove_in_loop_ends srv_ext_inv by metis
  have "call_cb (closed_cb (server_cbs u)) cid w3 = Some w4"
    using 4 srv_inv_in_loop [OF srv_ext_inv [OF 3(2)]]
    by (simp add: call_cb_def server_cbs_alt remove_connection_def run_in_loop_here)
  then have "handle_close (server_cbs u) cid w = Some w4"
    using 3(1) s by (auto simp: handle_close_def bind_eq_Some_conv)
  then show "\<exists>w'. handle_close (server_cbs u) cid w = Some w' \<and> srv_ext fcid I X w w'"
    using srv_ext_trans [OF srv_ext_trans [OF 1 3(2)] 4(2)] by blast
qed

lemma keeps_handle_error: "keeps fcid I (handle_error (server_cbs u) cid) cid"
  using keeps_handle_close by (simp add: keeps_def handle_error_def)

lemma buffer_rest_ext:
  assumes w: "srv_inv fcid I X w" "conns w cid = Some c" and st: "tc_state c \<noteq> kDisconnected"
  shows "\<exists>w'. buffer_rest d cid w = Some w' \<and> srv_ext fcid I X w w'"
proof -
  let ?c = "c\<lparr>tc_output := append_buf d (tc_output c)\<rparr>"
  let ?w = "put_conn cid ?c w"
  have 1: "srv_ext fcid I X w ?w"
    by (rule srv_ext_put [OF w]) (use srv_inv_conn [OF w] in \<open>simp_all add: append_buf_inv conn_wf_def\<close>)
  obtain w2 where "conn_interest EnableWriting cid ?w = Some w2" "srv_ext fcid I X ?w w2"
    using interest_ext [OF srv_ext_inv [OF 1], of cid ?c EnableWriting] st by (auto simp: put_conn_def)
  then show ?thesis using w(2) 1 srv_ext_trans [OF 1] by (auto simp: buffer_rest_def Let_def)
qed

text \<open>A handler after changes that keep the invariant.\<close>

lemma keeps_after:
  assumes "keeps fcid I f cid" "srv_ext fcid I X w v" "cid \<in> dom (conns w)"
  shows "\<exists>w'. f v = Some w' \<and> srv_ext fcid I X w w'"
  using keepsE [OF assms(1) srv_ext_inv [OF assms(2)] srv_ext_dom [OF assms(2,3)]] srv_ext_trans [OF assms(2)] by metis

lemma buffer_rest_after:
  assumes "srv_ext fcid I X w v" "conns v cid = Some c" "tc_state c \<noteq> kDisconnected"
  shows "\<exists>w'. buffer_rest d cid v = Some w' \<and> srv_ext fcid I X w w'"
  using buffer_rest_ext [OF srv_ext_inv [OF assms(1)] assms(2,3)] srv_ext_trans [OF assms(1)] by blast

lemma keeps_send_in_loop: "keeps fcid I (send_in_loop K (server_cbs u) d cid) cid"
proof (rule keepsI)
  fix X w c assume w: "srv_inv fcid I X w" "conns w cid = Some c"
  have d: "cid \<in> dom (conns w)" using w(2) by blast
  note t = srv_ext_tick [OF w(1)]
  have l: "srv_ext fcid I X w (log_event ev (tick w))" for ev
    by (rule srv_ext_trans [OF t srv_ext_log [OF srv_ext_inv [OF t]]])
  have l2: "srv_ext fcid I X w (log_event ev (log_event ev' (tick w)))" for ev ev'
    by (rule srv_ext_trans [OF l srv_ext_log [OF srv_ext_inv [OF l]]])
  have c: "conns (tick w) cid = Some c" "conns (log_event ev (tick w)) cid = Some c" for ev using w(2) by (simp_all add: world_simps)
  show "\<exists>w'. send_in_loop K (server_cbs u) d cid w = Some w' \<and> srv_ext fcid I X w w'"
  proof (cases "tc_state c = kDisconnected")
    case False
    then show ?thesis
      using w(2) srv_inv_in_loop [OF w(1)] keeps_after [OF keeps_handle_error t d] buffer_rest_after [OF t c(1)]
        buffer_rest_after [OF l c(2)] keeps_after [OF keeps_wc l2 d] buffer_rest_ext [OF w]
      by (simp add: send_in_loop_def Let_def split: sum.split)
  qed (use w srv_inv_in_loop [OF w(1)] srv_ext_refl [OF w(1)] in \<open>simp add: send_in_loop_def\<close>)
qed

lemma keeps_send_string: "keeps fcid I (send_string K (server_cbs u) d cid) cid"
proof (rule keepsI)
  fix X w c assume w: "srv_inv fcid I X w" "conns w cid = Some c"
  then show "\<exists>w'. send_string K (server_cbs u) d cid w = Some w' \<and> srv_ext fcid I X w w'"
    using keepsE [OF keeps_send_in_loop w(1), of cid d] srv_inv_in_loop [OF w(1)] srv_ext_refl [OF w(1)]
    by (auto simp: send_string_def)
qed

lemma keeps_send_buffer:
  assumes "buffer_inv b" shows "keeps fcid I (send_buffer K (server_cbs u) cid b) cid"
proof (rule keepsI)
  fix X w c assume w: "srv_inv fcid I X w" "conns w cid = Some c"
  obtain b' where b: "retrieve_all_as_string b = Some (contents b, b')" using retrieve_all_correct [OF assms] by blast
  obtain w' where "send_in_loop K (server_cbs u) (contents b) cid w = Some w'" "srv_ext fcid I X w w'"
    using keepsE [OF keeps_send_in_loop w(1)] w(2) by blast
  then show "\<exists>w'. send_buffer K (server_cbs u) cid b w = Some w' \<and> srv_ext fcid I X w w'"
    using w(2) b run_in_loop_here [OF srv_inv_in_loop [OF w(1)]] srv_ext_refl [OF w(1)]
    by (simp add: send_buffer_def)
qed

lemma keeps_shutdown_in_loop: "keeps fcid I (shutdown_in_loop cid) cid"
  by (rule keepsI) (auto simp: shutdown_in_loop_def srv_ext_refl srv_ext_log)

lemma set_disconnecting:
  assumes "srv_inv fcid I X w" "conns w cid = Some c" "tc_state c \<noteq> kDisconnected"
  shows "\<exists>w'. set_state kDisconnecting cid w = Some w' \<and> srv_ext fcid I X w w'"
  using assms by (auto simp: set_state_def srv_ext_def srv_inv_def conn_wf_def world_simps insert_dom)

lemma keeps_shutdown: "keeps fcid I (shutdown cid) cid"
proof (rule keepsI)
  fix X w c assume w: "srv_inv fcid I X w" "conns w cid = Some c"
  show "\<exists>w'. shutdown cid w = Some w' \<and> srv_ext fcid I X w w'"
  proof (cases "tc_state c = kConnected")
    case True
    then obtain w1 where 1: "set_state kDisconnecting cid w = Some w1" "srv_ext fcid I X w w1"
      using set_disconnecting [OF w] by auto
    then show ?thesis
      using keeps_after [OF keeps_shutdown_in_loop 1(2)] w(2) True
        run_in_loop_here [OF srv_inv_in_loop [OF srv_ext_inv [OF 1(2)]]]
      by (auto simp: shutdown_def)
  qed (use w srv_ext_refl [OF w(1)] in \<open>simp add: shutdown_def\<close>)
qed

lemma keeps_force_close: "keeps fcid I (force_close cid) cid"
proof (rule keepsI)
  fix X w c assume w: "srv_inv fcid I X w" "conns w cid = Some c"
  show "\<exists>w'. force_close cid w = Some w' \<and> srv_ext fcid I X w w'"
  proof (cases "tc_state c = kConnected \<or> tc_state c = kDisconnecting")
    case True
    then obtain w1 where 1: "set_state kDisconnecting cid w = Some w1" "srv_ext fcid I X w w1"
      using set_disconnecting [OF w] by auto
    have "functor_ok fcid (dom (conns w1)) (HandleClose cid)" using srv_ext_dom [OF 1(2)] w(2) by auto
    then have "srv_ext fcid I X w (queue_in_loop (HandleClose cid) w1)"
      using srv_ext_trans [OF 1(2)] srv_ext_queue [OF srv_ext_inv [OF 1(2)]] by blast
    then show ?thesis using w(2) True 1(1) by (simp add: force_close_def)
  qed (use w srv_ext_refl [OF w(1)] in \<open>simp add: force_close_def\<close>)
qed

lemma keeps_handle_write: "keeps fcid I (handle_write K (server_cbs u) cid) cid"
proof (rule keepsI)
  fix X w c assume w: "srv_inv fcid I X w" "conns w cid = Some c"
  have inv: "buffer_inv (tc_output c)" "buffer_inv (tc_input c)" using srv_inv_conn [OF w] by auto
  let ?o = "take (readable (tc_output c)) (peek (tc_output c))"
  show "\<exists>w'. handle_write K (server_cbs u) cid w = Some w' \<and> srv_ext fcid I X w w'"
  proof (cases "is_writing (tc_channel c) \<and> (\<exists>n. sys_write K (ticks w) (tc_sockfd c) ?o = Inr n \<and> n \<noteq> 0)")
    case False
    then show ?thesis
      using w srv_ext_refl [OF w(1)] srv_ext_tick [OF w(1)]
      by (auto simp: handle_write_def Let_def split: sum.splits)
  next
    case True
    then obtain n where n: "sys_write K (ticks w) (tc_sockfd c) ?o = Inr n" "n \<noteq> 0" by auto
    then have "n \<le> readable (tc_output c)" using kernel_write unfolding write_ok_def by fastforce
    then obtain b where b: "retrieve n (tc_output c) = Some b" "buffer_inv b" using retrieve_correct [OF inv(1)] by blast
    let ?w = "log_event (Wrote cid (take n ?o)) (put_conn cid (c\<lparr>tc_output := b\<rparr>) (tick w))"
    have 1: "srv_ext fcid I X w ?w"
      using w inv b(2) by (auto simp: srv_ext_def srv_inv_def conn_wf_def world_simps insert_dom)
    obtain w2 where 2: "conn_interest DisableWriting cid ?w = Some w2" "srv_ext fcid I X w w2"
      using keeps_after [OF keeps_interest [of DisableWriting] 1] w(2) by blast
    have 3: "srv_ext fcid I X w (log_event (WroteAll cid) w2)"
      by (rule srv_ext_trans [OF 2(2) srv_ext_log [OF srv_ext_inv [OF 2(2)]]])
    obtain w4 where 4: "call_cb (wc_cb (server_cbs u)) cid (log_event (WroteAll cid) w2) = Some w4" "srv_ext fcid I X w w4"
      using keeps_after [OF keeps_wc 3] w(2) by blast
    obtain c4 where c4: "conns w4 cid = Some c4" using srv_ext_dom [OF 4(2)] w(2) by blast
    obtain w5 where "shutdown_in_loop cid w4 = Some w5" "srv_ext fcid I X w w5"
      using keeps_after [OF keeps_shutdown_in_loop 4(2)] w(2) by blast
    then show ?thesis using w(2) True n b(1) 1 2(1) 4 c4 by (simp add: handle_write_def Let_def)
  qed
qed

end

text \<open>
  The whole contract, with the message callback and the closures of the layer above; every
  turn of the loop then keeps the server's invariant.
\<close>

locale server_callbacks = base_callbacks K u fcid I
  for K :: kernel and u :: "('x, 'w) server_world_scheme conn_cbs" and fcid :: "'x \<Rightarrow> u64" and I :: "u64 set \<Rightarrow> 'w \<Rightarrow> bool" +
  fixes user :: "'x \<Rightarrow> ('x, 'w) server_world_scheme \<Rightarrow> ('x, 'w) server_world_scheme option"
  assumes kernel_readv: "readv_ok (sys_readv K t fd)"
    and message_keeps: "message_cb u = Some f \<Longrightarrow> keeps fcid I (f cid) cid"
    and user_keeps: "keeps fcid I (user x) (fcid x)"
begin

lemma keeps_message: "keeps fcid I (call_cb (message_cb (server_cbs u)) cid) cid"
  by (rule keeps_call) (simp add: server_cbs_alt message_keeps)

lemma keeps_handle_read: "keeps fcid I (handle_read K (server_cbs u) cid) cid"
proof (rule keepsI)
  fix X w c assume w: "srv_inv fcid I X w" "conns w cid = Some c"
  have inv: "buffer_inv (tc_output c)" "buffer_inv (tc_input c)" using srv_inv_conn [OF w] by auto
  obtain r b where rb: "read_fd (sys_readv K (ticks w) (tc_sockfd c)) (tc_input c) = (r, b)" by fastforce
  have b: "buffer_inv b"
    using rb read_fd_Inl [of "sys_readv K (ticks w) (tc_sockfd c)"]
      read_fd_Inr [OF inv(2) kernel_readv, of "ticks w" "tc_sockfd c"] inv
    by (cases "sys_readv K (ticks w) (tc_sockfd c) (read_iov (tc_input c))") auto
  have 1: "srv_ext fcid I X w (put_conn cid (c\<lparr>tc_input := b\<rparr>) (tick w))"
    using w inv b by (auto simp: srv_ext_def srv_inv_def conn_wf_def world_simps insert_dom)
  have d: "cid \<in> dom (conns w)" using w(2) by blast
  show "\<exists>w'. handle_read K (server_cbs u) cid w = Some w' \<and> srv_ext fcid I X w w'"
    using keeps_after [OF keeps_message 1 d] keeps_after [OF keeps_handle_close 1 d] keeps_after [OF keeps_handle_error 1 d] w(2) rb
    by (simp add: handle_read_def Let_def split: sum.split)
qed

lemma keeps_conn_event: "keeps fcid I (conn_handle_event K (server_cbs u) cid revts) cid"
proof -
  let ?cb = "conn_channel_cbs K (server_cbs u) cid"
  have r: "keeps fcid I (run_cb (close_cb ?cb)) cid" "keeps fcid I (run_cb (error_cb ?cb)) cid"
    "keeps fcid I (run_cb (read_cb ?cb)) cid" "keeps fcid I (run_cb (write_cb ?cb)) cid"
    using keeps_handle_close keeps_handle_error keeps_handle_read keeps_handle_write
    by (simp_all add: conn_channel_cbs_def no_channel_cbs_def run_cb_Some)
  have c: "keeps fcid I f cid \<Longrightarrow> keeps fcid I (\<lambda>w. if P then f w else Some w) cid" for P f by (cases P) auto
  have "keeps fcid I (handle_event_with_guard revts ?cb) cid"
    unfolding handle_event_with_guard_def
    by (intro keeps_bind [OF c [OF r(1)]] keeps_bind [OF c [OF r(2)]] keeps_bind [OF c [OF r(3)]] c [OF r(4)])
  then show ?thesis
    by (intro keepsI) (auto simp: conn_handle_event_def handle_event_def elim: keepsE)
qed

lemma accept_inv:
  assumes w: "srv_inv fcid I {} w" and n: "unat (ts_next_conn_id (tcp_srv w)) + 1 < 2 ^ 64"
  shows "\<exists>w'. handle_accept A u w = Some w' \<and> srv_inv fcid I {} w' \<and> dom (conns w) \<subseteq> dom (conns w') \<and>
    unat (ts_next_conn_id (tcp_srv w')) \<le> unat (ts_next_conn_id (tcp_srv w)) + 1"
proof (cases "A (ticks w) (ts_listen_fd (tcp_srv w))")
  case None
  then show ?thesis using srv_ext_tick [OF w] by (auto simp: handle_accept_def srv_ext_def)
next
  case (Some acc)
  obtain fd addr port where a: "acc = (fd, addr, port)" by (metis prod_cases3)
  let ?i = "ts_next_conn_id (tcp_srv w)"
  let ?c = "(tcp_connection_new fd ?i (peer_text addr port))\<lparr>tc_state := kConnected\<rparr>"
  let ?c' = "?c\<lparr>tc_channel := channel_tie (tc_channel ?c)\<rparr>"
  let ?v = "upd_srv (\<lambda>s. s\<lparr>ts_next_conn_id := ?i + 1, ts_connections := insert ?i (ts_connections s)\<rparr>) (tick w)"
  let ?w = "put_conn ?i ?c' ?v"
  have fresh: "?i \<notin> dom (conns w)" using w by (auto simp: srv_inv_def)
  have lt: "cid < ?i \<Longrightarrow> cid < ?i + 1" "unat (?i + 1) = unat ?i + 1" "?i < ?i + 1" for cid
    using n by (auto simp: word_less_nat_alt unat_word_ariths)
  have inv: "srv_inv fcid I {} ?w"
    unfolding srv_inv_def
    using w fresh lt
    by (auto simp: srv_inv_def conn_wf_def upd_srv_def world_simps tcp_connection_new_def buffer_new_inv list_all_iff
        channel_new_def channel_tie_def conn_ptr_def intro: functor_ok_mono layer_mono)
  have run: "handle_accept A u w = conn_interest EnableReading ?i ?w \<bind> notify_connection (server_cbs u) ?i"
    using Some a srv_inv_in_loop [OF w]
    by (simp add: handle_accept_def new_connection_def Let_def run_in_loop_def connection_established_def set_state_def
        upd_srv_def world_simps)
  have dom: "?i \<in> dom (conns ?w)" by (simp add: put_conn_def)
  obtain w1 where 1: "conn_interest EnableReading ?i ?w = Some w1" "srv_ext fcid I {} ?w w1"
    using interest_ext [OF inv, of ?i ?c' EnableReading] by (auto simp: put_conn_def)
  obtain w' where w': "conn_interest EnableReading ?i ?w \<bind> notify_connection (server_cbs u) ?i = Some w'"
    "srv_ext fcid I {} ?w w'"
    using keeps_after [OF keeps_notify 1(2) dom] 1(1) by auto
  have "dom (conns w) \<subseteq> dom (conns w')" "ts_next_conn_id (tcp_srv w') = ?i + 1"
    using w'(2) by (auto simp: srv_ext_def put_conn_def upd_srv_def tick_def)
  then show ?thesis using run w' srv_ext_inv [OF w'(2)] lt(2) by auto
qed

lemma dispatch_inv:
  assumes w: "srv_inv fcid I {} w" and n: "unat (ts_next_conn_id (tcp_srv w)) + 1 < 2 ^ 64"
    and p: "ptr \<le> accept_ptr \<or> (\<exists>cid \<in> dom (conns w). ptr = conn_ptr cid)"
  shows "\<exists>w'. server_dispatch K A u w (ptr, revts) = Some w' \<and> srv_inv fcid I {} w' \<and>
    dom (conns w) \<subseteq> dom (conns w') \<and>
    unat (ts_next_conn_id (tcp_srv w')) \<le> unat (ts_next_conn_id (tcp_srv w)) + 1"
proof -
  consider "ptr = 0" | "ptr = accept_ptr" | cid where "cid \<in> dom (conns w)" "ptr = conn_ptr cid"
    using p by (auto simp: accept_ptr_def le_Suc_eq)
  then show ?thesis
  proof cases
    case 1
    have "srv_ext fcid I {} w (w\<lparr>the_loop := wakeup_handle_read (the_loop w)\<rparr>)"
      using w by (auto simp: srv_ext_def srv_inv_def loop_defs)
    then show ?thesis
      using 1 srv_ext_refl [OF w]
      by (auto simp: server_dispatch_def handle_event_def handle_event_with_guard_def no_channel_cbs_def run_cb_def srv_ext_def)
  next
    case 2
    then show ?thesis
      using accept_inv [OF w n] w
      by (auto simp: server_dispatch_def handle_event_def handle_event_with_guard_def no_channel_cbs_def run_cb_def
          accept_ptr_def)
  next
    case 3
    then have "server_dispatch K A u w (ptr, revts) = conn_handle_event K (server_cbs u) cid revts w"
      by (simp add: server_dispatch_def conn_ptr_def accept_ptr_def)
    moreover obtain w' where "conn_handle_event K (server_cbs u) cid revts w = Some w'" "srv_ext fcid I {} w w'"
      by (rule keepsE [OF keeps_conn_event w 3(1)])
    ultimately show ?thesis by (auto simp: srv_ext_def)
  qed
qed

lemma dispatch_all_inv:
  assumes "srv_inv fcid I {} w" "unat (ts_next_conn_id (tcp_srv w)) + length evs < 2 ^ 64"
    "list_all (\<lambda>(ptr, revts). ptr \<le> accept_ptr \<or> (\<exists>cid \<in> dom (conns w). ptr = conn_ptr cid)) evs"
  shows "\<exists>w'. fold_cb (server_dispatch K A u) evs w = Some w' \<and> srv_inv fcid I {} w' \<and> dom (conns w) \<subseteq> dom (conns w')"
  using assms
proof (induction evs arbitrary: w)
  case Nil
  then show ?case by simp
next
  case (Cons ev evs)
  obtain ptr revts where ev: "ev = (ptr, revts)" by fastforce
  obtain w1 where 1: "server_dispatch K A u w ev = Some w1" "srv_inv fcid I {} w1" "dom (conns w) \<subseteq> dom (conns w1)"
    "unat (ts_next_conn_id (tcp_srv w1)) \<le> unat (ts_next_conn_id (tcp_srv w)) + 1"
    using dispatch_inv [OF Cons.prems(1), of ptr A revts] Cons.prems(2,3) ev by auto
  have "list_all (\<lambda>(ptr, revts). ptr \<le> accept_ptr \<or> (\<exists>cid \<in> dom (conns w1). ptr = conn_ptr cid)) evs"
    using Cons.prems(3) 1(3) by (fastforce simp: list_all_iff)
  then show ?case using Cons.IH [OF 1(2)] 1 Cons.prems(2) by fastforce
qed

lemma exec_inv:
  assumes "srv_inv fcid I X w" "functor_ok fcid (dom (conns w)) f"
  shows "\<exists>w'. server_exec K u user w f = Some w' \<and> srv_ext fcid I X w w'"
proof (cases f)
  case (SendInLoop cid d)
  then show ?thesis using keepsE [OF keeps_send_in_loop assms(1), of cid d] assms(2) by auto
next
  case (ShutdownInLoop cid)
  then show ?thesis using keepsE [OF keeps_shutdown_in_loop assms(1), of cid] assms(2) by auto
next
  case (HandleClose cid)
  then show ?thesis using keepsE [OF keeps_handle_close assms(1), of cid] assms(2) by auto
next
  case (UserFunctor x)
  then show ?thesis using keepsE [OF user_keeps assms(1), of x] assms(2) by auto
qed (use assms in simp_all)

lemma exec_all_inv:
  assumes "srv_inv fcid I X w" "list_all (functor_ok fcid (dom (conns w))) fs"
  shows "\<exists>w'. fold_cb (server_exec K u user) fs w = Some w' \<and> srv_ext fcid I X w w'"
  using assms
proof (induction fs arbitrary: w)
  case Nil
  then show ?case by (simp add: srv_ext_refl)
next
  case (Cons f fs)
  then obtain w1 where 1: "server_exec K u user w f = Some w1" "srv_ext fcid I X w w1" using exec_inv by fastforce
  have "list_all (functor_ok fcid (dom (conns w1))) fs"
    using Cons.prems(2) 1(2) by (auto simp: list_all_iff srv_ext_def intro: functor_ok_mono)
  then show ?case using Cons.IH [OF srv_ext_inv [OF 1(2)]] 1 srv_ext_trans [OF 1(2)] by fastforce
qed

lemma functors_inv:
  assumes "srv_inv fcid I X w"
  shows "\<exists>w'. do_pending_functors (server_exec K u user) w = Some w' \<and> srv_ext fcid I X w w'"
proof -
  let ?w = "w\<lparr>the_loop := (the_loop w)\<lparr>pending_functors := [], calling_pending_functors := True\<rparr>\<rparr>"
  have 1: "srv_ext fcid I X w ?w" "list_all (functor_ok fcid (dom (conns ?w))) (pending_functors (the_loop w))"
    using assms by (auto simp: srv_ext_def srv_inv_def loop_defs)
  obtain w1 where 2: "fold_cb (server_exec K u user) (pending_functors (the_loop w)) ?w = Some w1" "srv_ext fcid I X ?w w1"
    using exec_all_inv [OF srv_ext_inv [OF 1(1)] 1(2)] by blast
  have "srv_ext fcid I X w1 (w1\<lparr>the_loop := (the_loop w1)\<lparr>calling_pending_functors := False\<rparr>\<rparr>)"
    using srv_ext_inv [OF 2(2)] by (auto simp: srv_ext_def srv_inv_def loop_defs)
  then show ?thesis
    using 2 srv_ext_trans [OF srv_ext_trans [OF 1(1) 2(2)]] by (auto simp: do_pending_functors_def swap_functors_def)
qed

lemma turn_inv:
  assumes w: "srv_inv fcid I {} w" and live: "reports_live ew w" and ids: "ids_left ew w"
  shows "\<exists>w'. loop_turn (server_dispatch K A u) (server_exec K u user) ew w = Some w' \<and> srv_inv fcid I {} w'"
proof -
  obtain evs p where p: "poll ew (loop_poller (the_loop w)) = (evs, p)" by fastforce
  let ?w = "w\<lparr>the_loop := (the_loop w)\<lparr>loop_poller := p\<rparr>\<rparr>"
  have inv: "srv_inv fcid I {} ?w" using srv_ext_inv [OF srv_ext_poller [OF w]] .
  have "ts_connections (tcp_srv w) \<subseteq> dom (conns w)" using w by (simp add: srv_inv_def)
  then have "list_all (\<lambda>(ptr, revts). ptr \<le> accept_ptr \<or> (\<exists>cid \<in> dom (conns ?w). ptr = conn_ptr cid)) evs"
    using live p by (fastforce simp: reports_live_def ready_def list_all_iff)
  moreover have "unat (ts_next_conn_id (tcp_srv ?w)) + length evs < 2 ^ 64" using ids p by (simp add: ids_left_def ready_def)
  ultimately obtain w1 where 1: "fold_cb (server_dispatch K A u) evs ?w = Some w1" "srv_inv fcid I {} w1"
    using dispatch_all_inv [OF inv] by blast
  obtain w2 where "do_pending_functors (server_exec K u user) w1 = Some w2" "srv_ext fcid I {} w1 w2"
    using functors_inv [OF 1(2)] by blast
  then show ?thesis using p 1 srv_ext_inv by (fastforce simp: loop_turn_def)
qed

end

section \<open>Closing\<close>

text \<open>What closing does when the connection callback only prints, as the RPC server's does.\<close>

definition print_only :: "(u64 \<Rightarrow> 'w \<Rightarrow> 'w option) option" where
  "print_only = Some (\<lambda>cid w. Some w)"

lemma handle_close_effect:
  assumes "conn_cb u = print_only" "is_in_loop_thread w" "conns w cid = Some c"
  shows "\<exists>w' c'. handle_close (server_cbs u) cid w = Some w' \<and> net_log w' = net_log w @ [ConnectionCb cid kDisconnected] \<and>
    conns w' = (conns w)(cid \<mapsto> c') \<and> tc_state c' = kDisconnected \<and> tc_input c' = tc_input c \<and>
    tc_sockfd c' = tc_sockfd c \<and> ch_tied (tc_channel c') = ch_tied (tc_channel c) \<and> ch_index (tc_channel c') = kNew \<and>
    is_in_loop_thread w' \<and> ticks w' = ticks w \<and>
    ts_connections (tcp_srv w') = ts_connections (tcp_srv w) - {cid}"
proof -
  let ?c = "c\<lparr>tc_state := kDisconnected\<rparr>"
  let ?w = "put_conn cid ?c w"
  have w: "is_in_loop_thread ?w" "conns ?w cid = Some ?c" using assms(2) by (simp_all add: world_simps)
  obtain ch p where si: "set_interest DisableAll (tc_channel ?c) (loop_poller (the_loop ?w)) = (ch, p)" by fastforce
  obtain ch' p' where cr: "channel_remove ch p = (ch', p')" by fastforce
  have t: "ch_tied ch = ch_tied (tc_channel c)" "ch_tied ch' = ch_tied ch" "ch_index ch' = kNew"
    using si cr
    by (auto simp: set_interest_def update_channel_def channel_remove_def remove_channel_def Let_def split: if_splits prod.splits)
  show ?thesis
    using assms w si cr t
    by (auto simp: handle_close_def set_state_def conn_interest_def loop_set_interest_def notify_connection_def
        call_cb_def server_cbs_alt print_only_def remove_connection_def run_in_loop_def remove_in_loop_def
        connection_destroyed_def loop_channel_remove_def upd_srv_def world_simps)
qed

section \<open>What resets and failures do\<close>

text \<open>
  A reset connection is reported closed twice: for \<^verbatim>\<open>EPOLLIN | EPOLLERR | EPOLLHUP\<close>, the events of a
  socket that received a reset, the error handler closes and unregisters the connection, and
  then the read handler, whose read fails, closes it again; the connection callback runs
  twice with the state disconnected.
\<close>

lemma reset_closes_twice:
  assumes "conn_cb u = print_only" "is_in_loop_thread w" "conns w cid = Some c"
    "\<And>t iov. sys_readv K t (tc_sockfd c) iov = Inl errno"
  shows "\<exists>w'. conn_handle_event K (server_cbs u) cid (EPOLLIN OR EPOLLERR OR EPOLLHUP) w = Some w' \<and>
    net_log w' = net_log w @ [ConnectionCb cid kDisconnected, ConnectionCb cid kDisconnected] \<and>
    cid \<notin> ts_connections (tcp_srv w')"
proof -
  obtain w1 c1 where 1: "handle_close (server_cbs u) cid w = Some w1" "net_log w1 = net_log w @ [ConnectionCb cid kDisconnected]"
    "conns w1 cid = Some c1" "tc_sockfd c1 = tc_sockfd c" "is_in_loop_thread w1"
    using handle_close_effect [OF assms(1-3)] by auto
  let ?w = "put_conn cid (c1\<lparr>tc_input := tc_input c1\<rparr>) (tick w1)"
  have "is_in_loop_thread ?w" "conns ?w cid = Some (c1\<lparr>tc_input := tc_input c1\<rparr>)" using 1(5) by (simp_all add: world_simps)
  from handle_close_effect [OF assms(1) this] obtain w2 where
    2: "handle_close (server_cbs u) cid ?w = Some w2" "net_log w2 = net_log ?w @ [ConnectionCb cid kDisconnected]"
      "cid \<notin> ts_connections (tcp_srv w2)" by auto
  have "handle_read K (server_cbs u) cid w1 = Some w2"
    using 1(3,4) 2(1) read_fd_Inl [OF assms(4)] by (simp add: handle_read_def handle_error_def)
  then show ?thesis
    using 1 2 assms(3)
    by (simp add: conn_handle_event_def handle_event_def handle_event_with_guard_def conn_channel_cbs_def no_channel_cbs_def run_cb_def
        handle_error_def epoll_bits world_simps)
qed

text \<open>
  Creating the listening socket leaks no descriptor and reports which call failed: on every
  path that throws after \<^verbatim>\<open>socket()\<close> succeeded the descriptor is closed, and the constructor
  returns a server exactly when all three calls succeed, with an empty table and first id 1.
\<close>

lemma create_listen_fd_paths:
  "(case create_listen_fd L host port of
      (Inr fd, closed) \<Rightarrow> fd = sys_socket L \<and> 0 \<le> fd \<and> closed = [] \<and>
        0 \<le> sys_bind L fd (if host = [] then 0 else inet_addr L host) port \<and> 0 \<le> sys_listen L fd
    | (Inl msg, closed) \<Rightarrow>
        (msg = ''socket() failed'' \<and> sys_socket L < 0 \<and> closed = []) \<or>
        (msg = ''bind() failed on port '' @ decimal (unat port) \<and> 0 \<le> sys_socket L \<and> closed = [sys_socket L]) \<or>
        (msg = ''listen() failed'' \<and> 0 \<le> sys_socket L \<and> closed = [sys_socket L]))"
  by (auto simp: create_listen_fd_def Let_def INADDR_ANY_def)

end
