(* ===== verification/Thread_Pool.thy ===== *)
theory Thread_Pool
  imports Prelude "HOL-Library.Multiset"
begin

text \<open>
  \<^verbatim>\<open>net/thread_pool.h\<close> and \<^verbatim>\<open>net/thread_pool.cpp\<close>: the fixed set of workers over one unbounded
  queue. The member functions are definitions on the pool's fields; the interleavings of the
  workers, of the submitting threads and of the destructor are a step relation at the
  granularity of the mutex and the condition variable: a worker holds the mutex while it
  evaluates the predicate and releases it by going to sleep.
\<close>

section \<open>The class\<close>

record 't thread_pool =
  tp_tasks :: "'t list"
  tp_stop :: bool
  tp_threads :: nat

definition thread_pool_new :: "nat \<Rightarrow> 't thread_pool" where
  "thread_pool_new n = \<lparr>tp_tasks = [], tp_stop = False, tp_threads = n\<rparr>"

datatype pool_error = SubmitOnStoppedPool

text \<open>\<^verbatim>\<open>submit\<close> up to the end of the critical section; the notification follows it.\<close>

definition submit :: "'t \<Rightarrow> 't thread_pool \<Rightarrow> pool_error + 't thread_pool" where
  "submit task p =
     (if tp_stop p then Inl SubmitOnStoppedPool else Inr (p\<lparr>tp_tasks := tp_tasks p @ [task]\<rparr>))"

text \<open>The predicate of \<^verbatim>\<open>cv_.wait\<close> and what a worker does once it holds.\<close>

definition wait_pred :: "'t thread_pool \<Rightarrow> bool" where
  "wait_pred p \<longleftrightarrow> tp_stop p \<or> tp_tasks p \<noteq> []"

datatype 't fetched = WorkerReturns | Fetched 't

text \<open>\<^const>\<open>None\<close>: \<^verbatim>\<open>front()\<close> of an empty queue.\<close>

definition worker_fetch :: "'t thread_pool \<Rightarrow> ('t fetched \<times> 't thread_pool) option" where
  "worker_fetch p =
     (if tp_stop p \<and> tp_tasks p = [] then Some (WorkerReturns, p)
      else case tp_tasks p of [] \<Rightarrow> None
           | t # ts \<Rightarrow> Some (Fetched t, p\<lparr>tp_tasks := ts\<rparr>))"

section \<open>The concurrent machine\<close>

datatype 't worker_pc =
  Locking            \<comment> \<open>about to take the mutex\<close>
| Checking           \<comment> \<open>holds the mutex, evaluates the predicate\<close>
| GoingToSleep       \<comment> \<open>holds the mutex, predicate was false\<close>
| Sleeping           \<comment> \<open>blocked on the condition variable, mutex released\<close>
| Executing 't
| Exited

datatype dtor_pc = NotDestroyed | StopStored | Joining

record 't pool_sys =
  ps_pool :: "'t thread_pool"
  ps_workers :: "'t worker_pc list"
  ps_owner :: "nat option"
  ps_notify :: nat
  ps_dtor :: dtor_pc
  ps_submitted :: "'t list"
  ps_started :: "'t list"
  ps_finished :: "'t list"

definition pool_init :: "nat \<Rightarrow> 't pool_sys \<Rightarrow> bool" where
  "pool_init n s \<longleftrightarrow> s = \<lparr>ps_pool = thread_pool_new n, ps_workers = replicate n Locking, ps_owner = None,
     ps_notify = 0, ps_dtor = NotDestroyed, ps_submitted = [], ps_started = [], ps_finished = []\<rparr>"

text \<open>
  \<open>ps_notify\<close> counts submitters between their critical section and \<^verbatim>\<open>notify_one\<close>. The destructor
  stores the flag without taking the mutex, notifies all, and then waits for the workers.
\<close>

inductive pool_step :: "'t pool_sys \<Rightarrow> 't pool_sys \<Rightarrow> bool" where
  submit_task: "ps_owner s = None \<Longrightarrow> submit t (ps_pool s) = Inr p \<Longrightarrow>
    pool_step s (s\<lparr>ps_pool := p, ps_notify := ps_notify s + 1, ps_submitted := ps_submitted s @ [t]\<rparr>)"
| notify_one_wakes: "0 < ps_notify s \<Longrightarrow> i < length (ps_workers s) \<Longrightarrow> ps_workers s ! i = Sleeping \<Longrightarrow>
    pool_step s (s\<lparr>ps_notify := ps_notify s - 1, ps_workers := (ps_workers s)[i := Locking]\<rparr>)"
| notify_one_none: "0 < ps_notify s \<Longrightarrow> Sleeping \<notin> set (ps_workers s) \<Longrightarrow>
    pool_step s (s\<lparr>ps_notify := ps_notify s - 1\<rparr>)"
| lock: "ps_owner s = None \<Longrightarrow> i < length (ps_workers s) \<Longrightarrow> ps_workers s ! i = Locking \<Longrightarrow>
    pool_step s (s\<lparr>ps_owner := Some i, ps_workers := (ps_workers s)[i := Checking]\<rparr>)"
| pred_false: "i < length (ps_workers s) \<Longrightarrow> ps_workers s ! i = Checking \<Longrightarrow> \<not> wait_pred (ps_pool s) \<Longrightarrow>
    pool_step s (s\<lparr>ps_workers := (ps_workers s)[i := GoingToSleep]\<rparr>)"
| sleep: "i < length (ps_workers s) \<Longrightarrow> ps_workers s ! i = GoingToSleep \<Longrightarrow>
    pool_step s (s\<lparr>ps_owner := None, ps_workers := (ps_workers s)[i := Sleeping]\<rparr>)"
| fetch: "i < length (ps_workers s) \<Longrightarrow> ps_workers s ! i = Checking \<Longrightarrow> wait_pred (ps_pool s) \<Longrightarrow>
    worker_fetch (ps_pool s) = Some (Fetched t, p) \<Longrightarrow>
    pool_step s (s\<lparr>ps_pool := p, ps_owner := None, ps_workers := (ps_workers s)[i := Executing t],
                   ps_started := ps_started s @ [t]\<rparr>)"
| exit: "i < length (ps_workers s) \<Longrightarrow> ps_workers s ! i = Checking \<Longrightarrow> wait_pred (ps_pool s) \<Longrightarrow>
    worker_fetch (ps_pool s) = Some (WorkerReturns, p) \<Longrightarrow>
    pool_step s (s\<lparr>ps_pool := p, ps_owner := None, ps_workers := (ps_workers s)[i := Exited]\<rparr>)"
| finish: "i < length (ps_workers s) \<Longrightarrow> ps_workers s ! i = Executing t \<Longrightarrow>
    pool_step s (s\<lparr>ps_workers := (ps_workers s)[i := Locking], ps_finished := ps_finished s @ [t]\<rparr>)"
| store_stop: "ps_dtor s = NotDestroyed \<Longrightarrow>
    pool_step s (s\<lparr>ps_pool := (ps_pool s)\<lparr>tp_stop := True\<rparr>, ps_dtor := StopStored\<rparr>)"
| notify_all: "ps_dtor s = StopStored \<Longrightarrow>
    pool_step s (s\<lparr>ps_dtor := Joining,
      ps_workers := map (\<lambda>pc. if pc = Sleeping then Locking else pc) (ps_workers s)\<rparr>)"

text \<open>A condition variable may also wake a thread for no reason.\<close>

inductive spurious :: "'t pool_sys \<Rightarrow> 't pool_sys \<Rightarrow> bool" where
  spurious_wakeup: "i < length (ps_workers s) \<Longrightarrow> ps_workers s ! i = Sleeping \<Longrightarrow>
    spurious s (s\<lparr>ps_workers := (ps_workers s)[i := Locking]\<rparr>)"

definition pool_any_step :: "'t pool_sys \<Rightarrow> 't pool_sys \<Rightarrow> bool" where
  "pool_any_step s t \<longleftrightarrow> pool_step s t \<or> spurious s t"

section \<open>Invariants\<close>

fun exec_tasks :: "'t worker_pc list \<Rightarrow> 't multiset" where
  "exec_tasks [] = {#}"
| "exec_tasks (Executing t # ws) = add_mset t (exec_tasks ws)"
| "exec_tasks (_ # ws) = exec_tasks ws"

text \<open>Exactly the owner of the mutex is inside the critical section.\<close>

definition owner_ok :: "'t worker_pc list \<Rightarrow> nat option \<Rightarrow> bool" where
  "owner_ok ws own \<longleftrightarrow> (\<forall>i < length ws. (ws ! i \<in> {Checking, GoingToSleep}) = (own = Some i)) \<and>
     (\<forall>i. own = Some i \<longrightarrow> i < length ws)"

definition pool_inv :: "'t pool_sys \<Rightarrow> bool" where
  "pool_inv s \<longleftrightarrow>
     ps_submitted s = ps_started s @ tp_tasks (ps_pool s) \<and>
     mset (ps_started s) = exec_tasks (ps_workers s) + mset (ps_finished s) \<and>
     (Exited \<in> set (ps_workers s) \<longrightarrow> tp_stop (ps_pool s) \<and> tp_tasks (ps_pool s) = []) \<and>
     (tp_stop (ps_pool s) \<longleftrightarrow> ps_dtor s \<noteq> NotDestroyed) \<and>
     owner_ok (ps_workers s) (ps_owner s)"

lemma exec_tasks_append: "exec_tasks (xs @ ys) = exec_tasks xs + exec_tasks ys"
  by (induction xs rule: exec_tasks.induct) auto

lemma exec_tasks_single: "exec_tasks [pc] = (case pc of Executing t \<Rightarrow> {#t#} | _ \<Rightarrow> {#})"
  by (cases pc) auto

lemma exec_tasks_update:
  assumes "i < length ws"
  shows "exec_tasks (ws[i := pc]) + exec_tasks [ws ! i] = exec_tasks ws + exec_tasks [pc]"
proof -
  have "ws = take i ws @ [ws ! i] @ drop (Suc i) ws" using assms by (simp add: id_take_nth_drop)
  then have "exec_tasks ws = exec_tasks (take i ws) + exec_tasks [ws ! i] + exec_tasks (drop (Suc i) ws)"
    by (metis exec_tasks_append add.assoc)
  moreover have "exec_tasks (ws[i := pc]) = exec_tasks (take i ws) + exec_tasks [pc] + exec_tasks (drop (Suc i) ws)"
    using assms by (simp add: upd_conv_take_nth_drop exec_tasks_append) (metis exec_tasks_append append_Cons append_Nil)
  ultimately show ?thesis by simp
qed

lemma exec_tasks_wake: "exec_tasks (map (\<lambda>pc. if pc = Sleeping then Locking else pc) ws) = exec_tasks ws"
  by (induction ws rule: exec_tasks.induct) auto

lemma Exited_update: "Exited \<in> set (ws[i := pc]) \<Longrightarrow> pc \<noteq> Exited \<Longrightarrow> Exited \<in> set ws"
  using set_update_subset_insert [of ws i pc] by auto

text \<open>The three shapes of a worker's step, for the bookkeeping of running tasks.\<close>

lemma exec_tasks_quiet:
  assumes "i < length ws" "exec_tasks [ws ! i] = {#}" "exec_tasks [pc] = {#}"
  shows "exec_tasks (ws[i := pc]) = exec_tasks ws"
  using exec_tasks_update [OF assms(1), of pc] assms(2,3) by simp

lemma exec_tasks_start:
  assumes "i < length ws" "exec_tasks [ws ! i] = {#}"
  shows "exec_tasks (ws[i := Executing t]) = add_mset t (exec_tasks ws)"
  using exec_tasks_update [OF assms(1), of "Executing t"] assms(2) by simp

lemma exec_tasks_stop:
  assumes "i < length ws" "ws ! i = Executing t" "exec_tasks [pc] = {#}"
  shows "add_mset t (exec_tasks (ws[i := pc])) = exec_tasks ws"
  using exec_tasks_update [OF assms(1), of pc] assms(2,3) by simp

lemma owner_ok_take: "owner_ok ws None \<Longrightarrow> i < length ws \<Longrightarrow> owner_ok (ws[i := Checking]) (Some i)"
  by (auto simp: owner_ok_def nth_list_update)

lemma owner_ok_hold:
  "owner_ok ws own \<Longrightarrow> i < length ws \<Longrightarrow> ws ! i = Checking \<Longrightarrow> owner_ok (ws[i := GoingToSleep]) own"
  by (auto simp: owner_ok_def nth_list_update)

lemma owner_ok_release:
  assumes "owner_ok ws own" "i < length ws" "ws ! i \<in> {Checking, GoingToSleep}" "pc \<notin> {Checking, GoingToSleep}"
  shows "owner_ok (ws[i := pc]) None"
proof -
  have "own = Some i" using assms(1-3) by (auto simp: owner_ok_def)
  then show ?thesis using assms by (auto simp: owner_ok_def nth_list_update)
qed

lemma owner_ok_other:
  "owner_ok ws own \<Longrightarrow> i < length ws \<Longrightarrow> ws ! i \<notin> {Checking, GoingToSleep} \<Longrightarrow> pc \<notin> {Checking, GoingToSleep} \<Longrightarrow>
    owner_ok (ws[i := pc]) own"
  by (auto simp: owner_ok_def nth_list_update)

lemma owner_ok_wake: "owner_ok ws own \<Longrightarrow> owner_ok (map (\<lambda>pc. if pc = Sleeping then Locking else pc) ws) own"
  by (auto simp: owner_ok_def)

lemmas owner_ok_steps = owner_ok_take owner_ok_hold owner_ok_release owner_ok_other owner_ok_wake

lemma pool_step_inv: "pool_step s t \<Longrightarrow> pool_inv s \<Longrightarrow> pool_inv t"
proof (induction rule: pool_step.induct)
  case (submit_task s t p)
  then show ?case by (auto simp: pool_inv_def submit_def split: if_splits)
next
  case (fetch i s t p)
  then have "tp_tasks (ps_pool s) = t # tp_tasks p" "tp_stop p = tp_stop (ps_pool s)"
    by (auto simp: worker_fetch_def split: if_splits list.splits)
  then show ?case
    using fetch by (auto simp: pool_inv_def exec_tasks_start owner_ok_steps dest: Exited_update)
next
  case (exit i s p)
  then have "p = ps_pool s" "tp_stop p" "tp_tasks p = []"
    by (auto simp: worker_fetch_def split: if_splits list.splits)
  then show ?case using exit by (auto simp: pool_inv_def exec_tasks_quiet owner_ok_steps)
next
  case (finish i s t)
  then show ?case
    using exec_tasks_stop [OF finish(1,2), of Locking]
    by (auto simp: pool_inv_def owner_ok_steps dest: Exited_update)
next
  case (notify_all s)
  then show ?case by (auto simp: pool_inv_def exec_tasks_wake owner_ok_steps split: if_splits)
qed (auto simp: pool_inv_def exec_tasks_quiet owner_ok_steps dest: Exited_update)

lemma spurious_inv: "spurious s t \<Longrightarrow> pool_inv s \<Longrightarrow> pool_inv t"
  by (induction rule: spurious.induct)
    (auto simp: pool_inv_def exec_tasks_quiet owner_ok_steps dest: Exited_update)

lemma pool_init_inv: "pool_init n s \<Longrightarrow> pool_inv s"
proof -
  have "exec_tasks (replicate n Locking) = ({#} :: 'a multiset)" by (induction n) auto
  then show "pool_init n s \<Longrightarrow> ?thesis" by (auto simp: pool_init_def pool_inv_def thread_pool_new_def owner_ok_def)
qed

interpretation tp: invariant_system "pool_init n" pool_any_step pool_inv for n
  by unfold_locales (auto simp: pool_any_step_def intro: pool_init_inv pool_step_inv spurious_inv)

lemma pool_step_length: "pool_step s t \<Longrightarrow> length (ps_workers t) = length (ps_workers s)"
  by (induction rule: pool_step.induct) auto

inductive_cases pool_stepE: "pool_step s t"

text \<open>Concrete states of a pool with one worker, and two runs through them.\<close>

definition one_worker :: "nat list \<Rightarrow> bool \<Rightarrow> nat worker_pc \<Rightarrow> nat option \<Rightarrow> nat \<Rightarrow> dtor_pc \<Rightarrow>
    nat list \<Rightarrow> nat list \<Rightarrow> nat list \<Rightarrow> nat pool_sys" where
  "one_worker ts stp pc own nt d sub sta fin =
     \<lparr>ps_pool = \<lparr>tp_tasks = ts, tp_stop = stp, tp_threads = 1\<rparr>, ps_workers = [pc], ps_owner = own,
      ps_notify = nt, ps_dtor = d, ps_submitted = sub, ps_started = sta, ps_finished = fin\<rparr>"

lemma one_worker_start: "pool_init 1 (one_worker [] False Locking None 0 NotDestroyed [] [] [])"
  by (simp add: pool_init_def one_worker_def thread_pool_new_def)

lemma one_worker_steps:
  "pool_step (one_worker [] False Locking None 0 NotDestroyed [] [] [])
             (one_worker [t] False Locking None 1 NotDestroyed [t] [] [])"
  "pool_step (one_worker ts stp Locking None nt d sub sta fin) (one_worker ts stp Checking (Some 0) nt d sub sta fin)"
  "pool_step (one_worker (t # ts) stp Checking (Some 0) nt d sub sta fin)
             (one_worker ts stp (Executing t) None nt d sub (sta @ [t]) fin)"
  "pool_step (one_worker ts stp (Executing t) None nt d sub sta fin) (one_worker ts stp Locking None nt d sub sta (fin @ [t]))"
  "pool_step (one_worker ts False pc own nt NotDestroyed sub sta fin) (one_worker ts True pc own nt StopStored sub sta fin)"
  "pool_step (one_worker [] True Checking (Some 0) nt d sub sta fin) (one_worker [] True Exited None nt d sub sta fin)"
  "pool_step (one_worker [] False Checking (Some 0) nt d sub sta fin) (one_worker [] False GoingToSleep (Some 0) nt d sub sta fin)"
  "pc \<noteq> Sleeping \<Longrightarrow> pool_step (one_worker ts True pc own nt StopStored sub sta fin) (one_worker ts True pc own nt Joining sub sta fin)"
  "pool_step (one_worker [] True GoingToSleep (Some 0) nt d sub sta fin) (one_worker [] True Sleeping None nt d sub sta fin)"
proof -
  show "pool_step (one_worker [] False Locking None 0 NotDestroyed [] [] []) (one_worker [t] False Locking None 1 NotDestroyed [t] [] [])"
    using pool_step.submit_task [of "one_worker [] False Locking None 0 NotDestroyed [] [] []" t] by (simp add: one_worker_def submit_def)
  show "pool_step (one_worker ts stp Locking None nt d sub sta fin) (one_worker ts stp Checking (Some 0) nt d sub sta fin)"
    using pool_step.lock [of "one_worker ts stp Locking None nt d sub sta fin" 0] by (simp add: one_worker_def)
  show "pool_step (one_worker (t # ts) stp Checking (Some 0) nt d sub sta fin) (one_worker ts stp (Executing t) None nt d sub (sta @ [t]) fin)"
    using pool_step.fetch [of 0 "one_worker (t # ts) stp Checking (Some 0) nt d sub sta fin" t]
    by (simp add: one_worker_def wait_pred_def worker_fetch_def)
  show "pool_step (one_worker ts stp (Executing t) None nt d sub sta fin) (one_worker ts stp Locking None nt d sub sta (fin @ [t]))"
    using pool_step.finish [of 0 "one_worker ts stp (Executing t) None nt d sub sta fin" t] by (simp add: one_worker_def)
  show "pool_step (one_worker ts False pc own nt NotDestroyed sub sta fin) (one_worker ts True pc own nt StopStored sub sta fin)"
    using pool_step.store_stop [of "one_worker ts False pc own nt NotDestroyed sub sta fin"] by (simp add: one_worker_def)
  show "pool_step (one_worker [] True Checking (Some 0) nt d sub sta fin) (one_worker [] True Exited None nt d sub sta fin)"
    using pool_step.exit [of 0 "one_worker [] True Checking (Some 0) nt d sub sta fin"]
    by (simp add: one_worker_def wait_pred_def worker_fetch_def)
  show "pool_step (one_worker [] False Checking (Some 0) nt d sub sta fin) (one_worker [] False GoingToSleep (Some 0) nt d sub sta fin)"
    using pool_step.pred_false [of 0 "one_worker [] False Checking (Some 0) nt d sub sta fin"] by (simp add: one_worker_def wait_pred_def)
  show "pc \<noteq> Sleeping \<Longrightarrow> pool_step (one_worker ts True pc own nt StopStored sub sta fin) (one_worker ts True pc own nt Joining sub sta fin)"
    using pool_step.notify_all [of "one_worker ts True pc own nt StopStored sub sta fin"] by (simp add: one_worker_def)
  show "pool_step (one_worker [] True GoingToSleep (Some 0) nt d sub sta fin) (one_worker [] True Sleeping None nt d sub sta fin)"
    using pool_step.sleep [of 0 "one_worker [] True GoingToSleep (Some 0) nt d sub sta fin"] by (simp add: one_worker_def)
qed

lemma pool_step_any: "reachable init pool_any_step s \<Longrightarrow> pool_step s t \<Longrightarrow> reachable init pool_any_step t"
  by (erule reach_step) (simp add: pool_any_step_def)

lemma one_worker_stopped:
  "reachable (pool_init 1) pool_any_step (one_worker [] True Locking None 1 StopStored [42] [42] [42])"
proof -
  have "reachable (pool_init 1) pool_any_step (one_worker [] False Locking None 0 NotDestroyed [] [] [])"
    by (rule reach_init) (rule one_worker_start)
  note r1 = pool_step_any [OF this one_worker_steps(1) [of 42]]
  note r4 = pool_step_any [OF pool_step_any [OF pool_step_any [OF r1 one_worker_steps(2)] one_worker_steps(3)] one_worker_steps(4)]
  from pool_step_any [OF r4 one_worker_steps(5)] show ?thesis by simp
qed

lemma one_worker_drained:
  "reachable (pool_init 1) pool_any_step (one_worker [] True Exited None 1 StopStored [42] [42] [42])"
  using pool_step_any [OF pool_step_any [OF one_worker_stopped one_worker_steps(2)] one_worker_steps(6)] by simp

lemma one_worker_hung:
  "reachable (pool_init 1) pool_step (one_worker [] True Sleeping None 0 Joining [] [] [])"
proof -
  have "reachable (pool_init 1) pool_step (one_worker [] False Locking None 0 NotDestroyed [] [] [])"
    by (rule reach_init) (rule one_worker_start)
  note r2 = reach_step [OF reach_step [OF this one_worker_steps(2)] one_worker_steps(7)]
  from reach_step [OF reach_step [OF reach_step [OF r2 one_worker_steps(5)] one_worker_steps(8)] one_worker_steps(9)]
  show ?thesis by simp
qed

section \<open>Shutting down\<close>

text \<open>
  Once the flag is set no task is added, and each step brings a worker closer to its return:
  \<open>distance\<close> bounds the steps a worker has left, and a task costs a worker at most three.
\<close>

fun distance :: "'t worker_pc \<Rightarrow> nat" where
  "distance Exited = 0"
| "distance Checking = 1"
| "distance Locking = 2"
| "distance (Executing t) = 3"
| "distance Sleeping = 3"
| "distance GoingToSleep = 4"

definition steps_left :: "'t pool_sys \<Rightarrow> nat" where
  "steps_left s = sum_list (map distance (ps_workers s)) + 3 * length (tp_tasks (ps_pool s)) + ps_notify s +
     (if ps_dtor s = StopStored then 1 else 0)"

lemma distance_update:
  "i < length ws \<Longrightarrow>
   sum_list (map distance (ws[i := pc])) + distance (ws ! i) = sum_list (map distance ws) + distance pc"
  by (induction ws arbitrary: i) (auto split: nat.split)

lemma distance_wake: "sum_list (map distance (map (\<lambda>pc. if pc = Sleeping then Locking else pc) ws)) \<le> sum_list (map distance ws)"
  by (induction ws) auto

text \<open>A step keeps the flag and comes closer.\<close>

lemma stopped_step:
  assumes "pool_any_step s t" "pool_inv s" "tp_stop (ps_pool s)"
  shows "tp_stop (ps_pool t) \<and> steps_left t < steps_left s"
proof -
  have d: "ps_dtor s \<noteq> NotDestroyed" using assms(2,3) by (simp add: pool_inv_def)
  consider "pool_step s t" | "spurious s t" using assms(1) by (auto simp: pool_any_step_def)
  then show ?thesis
  proof cases
    case 2
    then show ?thesis
    proof cases
      case (spurious_wakeup i)
      then show ?thesis using assms(3) distance_update [of i "ps_workers s" Locking] by (auto simp: steps_left_def)
    qed
  next
    case 1
    then show ?thesis
    proof cases
      case (notify_one_wakes i)
      then show ?thesis using assms(3) distance_update [of i "ps_workers s" Locking] by (auto simp: steps_left_def)
    next
      case (lock i)
      then show ?thesis using assms(3) distance_update [of i "ps_workers s" Checking] by (auto simp: steps_left_def)
    next
      case (sleep i)
      then show ?thesis using assms(3) distance_update [of i "ps_workers s" Sleeping] by (auto simp: steps_left_def)
    next
      case (fetch i task p)
      then have "tp_tasks (ps_pool s) = task # tp_tasks p" "tp_stop p"
        using assms(3) by (auto simp: worker_fetch_def split: if_splits list.splits)
      then show ?thesis using fetch distance_update [of i "ps_workers s" "Executing task"] by (auto simp: steps_left_def)
    next
      case (exit i p)
      then have "p = ps_pool s" by (auto simp: worker_fetch_def split: if_splits list.splits)
      then show ?thesis using exit assms(3) distance_update [of i "ps_workers s" Exited] by (auto simp: steps_left_def)
    next
      case (finish i task)
      then show ?thesis using assms(3) distance_update [of i "ps_workers s" Locking] by (auto simp: steps_left_def)
    next
      case notify_all
      then show ?thesis using assms(3) distance_wake [of "ps_workers s"] by (auto simp: steps_left_def)
    qed (use assms(3) d in \<open>auto simp: submit_def wait_pred_def steps_left_def\<close>)
  qed
qed

text \<open>A worker that has not returned can be moved, so a state without steps has none left.\<close>

lemma stuck_exited:
  assumes "pool_inv s" "tp_stop (ps_pool s)" "\<nexists>t. pool_any_step s t" "i < length (ps_workers s)"
  shows "ps_workers s ! i = Exited"
proof -
  have stuck: "\<not> pool_step s t" "\<not> spurious s t" for t using assms(3) by (auto simp: pool_any_step_def)
  have fetches: "\<exists>r p. worker_fetch (ps_pool s) = Some (r, p)"
    using assms(2) by (cases "tp_tasks (ps_pool s)") (auto simp: worker_fetch_def)
  have pc: "ps_workers s ! j \<notin> {Checking, GoingToSleep, Sleeping}" "ps_workers s ! j \<noteq> Executing task" if j: "j < length (ps_workers s)" for j task
  proof -
    have "ps_workers s ! j \<noteq> Checking"
    proof
      assume c: "ps_workers s ! j = Checking"
      have w: "wait_pred (ps_pool s)" using assms(2) by (simp add: wait_pred_def)
      obtain r p where "worker_fetch (ps_pool s) = Some (r, p)" using fetches by blast
      then show False
        using pool_step.fetch [OF j c w] pool_step.exit [OF j c w] stuck(1) by (cases r) blast+
    qed
    moreover have "ps_workers s ! j \<noteq> GoingToSleep" using pool_step.sleep [OF j] stuck(1) by blast
    moreover have "ps_workers s ! j \<noteq> Sleeping" using spurious_wakeup [OF j] stuck(2) by blast
    moreover have "ps_workers s ! j \<noteq> Executing task" using pool_step.finish [OF j] stuck(1) by blast
    ultimately show "ps_workers s ! j \<notin> {Checking, GoingToSleep, Sleeping}" "ps_workers s ! j \<noteq> Executing task" by simp_all
  qed
  have own: "owner_ok (ps_workers s) (ps_owner s)" using assms(1) by (simp add: pool_inv_def)
  have "ps_owner s = None"
  proof (cases "ps_owner s")
    case (Some j)
    then show ?thesis using own pc(1) [of j] unfolding owner_ok_def by blast
  qed
  then have "ps_workers s ! i \<noteq> Locking" using pool_step.lock [of s i] assms(4) stuck(1) by blast
  then show ?thesis using pc [OF assms(4)] by (cases "ps_workers s ! i") auto
qed

lemma exited_finished:
  assumes "pool_inv s" "list_all (\<lambda>pc. pc = Exited) (ps_workers s)"
  shows "ps_workers s \<noteq> [] \<longrightarrow> tp_tasks (ps_pool s) = [] \<and> mset (ps_finished s) = mset (ps_submitted s)"
proof
  assume "ps_workers s \<noteq> []"
  then have "Exited \<in> set (ps_workers s)" using assms(2) by (cases "ps_workers s") auto
  moreover have "exec_tasks ws = {#}" if "list_all (\<lambda>pc. pc = Exited) ws" for ws :: "'a worker_pc list"
    using that by (induction ws rule: exec_tasks.induct) auto
  ultimately show "tp_tasks (ps_pool s) = [] \<and> mset (ps_finished s) = mset (ps_submitted s)"
    using assms by (simp add: pool_inv_def)
qed

section \<open>Properties\<close>

text \<open>
  C34. Tasks are started in the order they were submitted, each exactly once, and none is left: in
  every reachable state the submitted tasks are the started ones followed by the queue, and
  the started ones are, as a multiset, the running and the finished ones; once every worker
  has exited, so that the destructor can return, every submitted task has run to completion.
\<close>

theorem pool_tasks_once_in_order:
  assumes "reachable (pool_init n) pool_any_step s"
  shows "ps_submitted s = ps_started s @ tp_tasks (ps_pool s) \<and>
    mset (ps_started s) = exec_tasks (ps_workers s) + mset (ps_finished s) \<and>
    (ps_workers s \<noteq> [] \<and> list_all (\<lambda>pc. pc = Exited) (ps_workers s) \<longrightarrow>
       tp_tasks (ps_pool s) = [] \<and> mset (ps_finished s) = mset (ps_submitted s))"
  using tp.reachable_inv [OF assms] exited_finished [OF tp.reachable_inv [OF assms]] by (simp add: pool_inv_def)

theorem pool_tasks_once_in_order_witness:
  "ps_submitted (one_worker [] True Exited None 1 StopStored [42] [42] [42]) = [42] @ [] \<and>
   mset [42] = exec_tasks [Exited] + mset [42] \<and>
   mset [42] = mset (ps_submitted (one_worker [] True Exited None 1 StopStored [42] [42] [42]))"
  using pool_tasks_once_in_order [OF one_worker_drained] by (simp add: one_worker_def)

text \<open>
  C36. The destructor can hang: because it stores \<^verbatim>\<open>stop_\<close> and notifies without the mutex, it can do so
  between a worker's evaluation of the predicate and its going to sleep. The state that follows is
  reachable, the destructor waits for a worker that sleeps, and no further step is possible.
\<close>

theorem pool_destructor_can_hang:
  "\<exists>s :: nat pool_sys. reachable (pool_init 1) pool_step s \<and> tp_stop (ps_pool s) \<and> ps_dtor s = Joining \<and>
     ps_workers s = [Sleeping] \<and> (\<nexists>t. pool_step s t)"
proof -
  have "\<not> pool_step (one_worker [] True Sleeping None 0 Joining [] [] []) t" for t
    by (auto simp: one_worker_def submit_def elim!: pool_stepE)
  then show ?thesis
    by (intro exI [of _ "one_worker [] True Sleeping None 0 Joining [] [] []"] conjI one_worker_hung)
      (auto simp: one_worker_def)
qed

text \<open>
  C35. Shutting down terminates: once the destructor has set \<^verbatim>\<open>stop_\<close>, no run of workers, notifications
  and spurious wake-ups is infinite, and in a state where nothing can move any more every
  worker has returned and every submitted task has been run.
\<close>

theorem pool_shutdown_terminates:
  assumes "reachable (pool_init n) pool_any_step s" "tp_stop (ps_pool s)"
  shows "(\<nexists>run. run 0 = s \<and> (\<forall>k. pool_any_step (run k) (run (Suc k)))) \<and>
    (\<forall>t. pool_any_step\<^sup>*\<^sup>* s t \<and> (\<nexists>u. pool_any_step t u) \<longrightarrow>
       list_all (\<lambda>pc. pc = Exited) (ps_workers t) \<and> (ps_workers t \<noteq> [] \<longrightarrow> mset (ps_finished t) = mset (ps_submitted t)))"
proof -
  have keep: "pool_inv t \<and> tp_stop (ps_pool t)" if "pool_any_step\<^sup>*\<^sup>* s t" for t
    using that
  proof (induction rule: rtranclp_induct)
    case base
    then show ?case using tp.reachable_inv [OF assms(1)] assms(2) by simp
  next
    case (step t u)
    then show ?case using stopped_step [of t u] pool_step_inv spurious_inv by (auto simp: pool_any_step_def)
  qed
  have "False" if run: "run 0 = s" "\<And>k. pool_any_step (run k) (run (Suc k))" for run
  proof -
    have r: "pool_any_step\<^sup>*\<^sup>* s (run k)" for k
      by (induction k) (use run in \<open>auto intro: rtranclp.rtrancl_into_rtrancl\<close>)
    have "steps_left (run k) + k \<le> steps_left s" for k
    proof (induction k)
      case (Suc k)
      have "steps_left (run (Suc k)) < steps_left (run k)" using stopped_step [OF run(2)] keep [OF r] by blast
      then show ?case using Suc by simp
    qed (use run(1) in simp)
    from this [of "Suc (steps_left s)"] show False by simp
  qed
  moreover have "list_all (\<lambda>pc. pc = Exited) (ps_workers t) \<and>
      (ps_workers t \<noteq> [] \<longrightarrow> mset (ps_finished t) = mset (ps_submitted t))"
    if t: "pool_any_step\<^sup>*\<^sup>* s t" "\<nexists>u. pool_any_step t u" for t
  proof -
    have e: "list_all (\<lambda>pc. pc = Exited) (ps_workers t)"
      using stuck_exited [of t] keep [OF t(1)] t(2) by (auto simp: list_all_length)
    then show ?thesis using exited_finished keep [OF t(1)] by blast
  qed
  ultimately show ?thesis by blast
qed

theorem pool_shutdown_terminates_witness:
  "\<nexists>run. run 0 = one_worker [] True Locking None 1 StopStored [42] [42] [42] \<and> (\<forall>k. pool_any_step (run k) (run (Suc k)))"
  using pool_shutdown_terminates [OF one_worker_stopped] by (simp add: one_worker_def)

end
