(* ===== verification/Rpc_Server.thy ===== *)
theory Rpc_Server
  imports Rpc_Messages Codec Tcp_Server Thread_Pool
begin

text \<open>
  \<^verbatim>\<open>rpc/rpc_server.h\<close> and \<^verbatim>\<open>rpc/rpc_server.cpp\<close>: the server that puts the event loop, the TCP server,
  the codec and the worker pool together. Services are user code behind protobuf's
  \<^verbatim>\<open>Service\<close> interface: a record of functions. The world adds the table of services and the
  worker pool to the world of the TCP server; a closure the workers queue into the loop is
  the response to send on a connection. \<open>in_flight\<close> is the task each worker is running.
\<close>

section \<open>The class\<close>

text \<open>
  A service: its full name, whether a method exists, the parsing of a method's request, and
  \<^verbatim>\<open>CallMethod\<close>, which gives the controller and the serialised response when the closure
  \<^verbatim>\<open>done\<close> is run, and \<^const>\<open>None\<close> when it never is.
\<close>

record 'm service =
  svc_full_name :: string
  svc_find_method :: "string \<Rightarrow> bool"
  svc_parse :: "string \<Rightarrow> string \<Rightarrow> 'm option"
  svc_call :: "string \<Rightarrow> 'm \<Rightarrow> rpc_controller \<Rightarrow> (rpc_controller \<times> string) option"

datatype rpc_functor = SendResponse u64 rpc_response

record 'm rpc_task =
  tk_conn :: u64
  tk_id :: u32
  tk_service :: "'m service"
  tk_method :: string
  tk_request :: 'm

record 'm rpc_world = "rpc_functor server_world" +
  rpc_services :: "string \<rightharpoonup> 'm service"
  worker_pool :: "'m rpc_task thread_pool"
  in_flight :: "nat \<rightharpoonup> 'm rpc_task"

text \<open>What a run of the server is parameterised by: the host, the serialisers, the system calls.\<close>

record rpc_env =
  env_endian :: endian
  env_pb :: protobuf
  env_kernel :: kernel
  env_accept :: accept_call

definition register_service :: "'m service \<Rightarrow> 'm rpc_world \<Rightarrow> 'm rpc_world" where
  "register_service service w = w\<lparr>rpc_services := (rpc_services w)(svc_full_name service \<mapsto> service)\<rparr>"

text \<open>
  The callbacks the server installs. \<^verbatim>\<open>on_connection\<close> only prints. Sending a response runs at
  most the connection's closing callbacks, so \<open>reply_cbs\<close> leaves the message callback out.
\<close>

definition reply_cbs :: "'m rpc_world conn_cbs" where
  "reply_cbs = set_connection_callback print_only no_conn_cbs"

definition codec_send :: "rpc_env \<Rightarrow> u64 \<Rightarrow> rpc_response \<Rightarrow> 'm rpc_world \<Rightarrow> 'm rpc_world option" where
  "codec_send E cid resp w =
     send (env_endian E) (ser_response (env_pb E))
       (\<lambda>b. send_buffer (env_kernel E) (server_cbs reply_cbs) cid b) resp w"

definition error_response :: "u32 \<Rightarrow> string \<Rightarrow> rpc_response" where
  "error_response rid msg = \<lparr>rs_id = rid, rs_success = False, rs_result = [], rs_error = msg\<rparr>"

definition on_frame :: "rpc_env \<Rightarrow> u64 \<Rightarrow> 'm rpc_world \<Rightarrow> string \<Rightarrow> 'm rpc_world option" where
  "on_frame E cid w frame =
     (case parse_request (env_pb E) frame of
        None \<Rightarrow> Some w
      | Some req \<Rightarrow>
          (case rpc_services w (rq_service req) of
             None \<Rightarrow> codec_send E cid (error_response (rq_id req) (''service not found: '' @ rq_service req)) w
           | Some service \<Rightarrow>
               if \<not> svc_find_method service (rq_method req) then
                 codec_send E cid (error_response (rq_id req) (''method not found: '' @ rq_method req)) w
               else
                 (case svc_parse service (rq_method req) (rq_args req) of
                    None \<Rightarrow> codec_send E cid (error_response (rq_id req) ''failed to parse request args'') w
                  | Some request_msg \<Rightarrow>
                      (case submit \<lparr>tk_conn = cid, tk_id = rq_id req, tk_service = service,
                                    tk_method = rq_method req, tk_request = request_msg\<rparr> (worker_pool w) of
                         Inl err \<Rightarrow> None
                       | Inr p \<Rightarrow> Some (w\<lparr>worker_pool := p\<rparr>)))))"

definition rpc_codec :: "rpc_env \<Rightarrow> u64 \<Rightarrow> 'm rpc_world codec" where
  "rpc_codec E cid = \<lparr>msg_cb = on_frame E cid, err_cb = None, conn_force_close = force_close cid\<rparr>"

text \<open>The message callback works on the connection's input buffer.\<close>

definition rpc_on_message :: "rpc_env \<Rightarrow> u64 \<Rightarrow> 'm rpc_world \<Rightarrow> 'm rpc_world option" where
  "rpc_on_message E cid w =
     do { c \<leftarrow> conns w cid;
          (b, w1) \<leftarrow> on_message (env_endian E) (rpc_codec E cid) (tc_input c) w;
          c1 \<leftarrow> conns w1 cid;
          Some (put_conn cid (c1\<lparr>tc_input := b\<rparr>) w1) }"

definition rpc_cbs :: "rpc_env \<Rightarrow> 'm rpc_world conn_cbs" where
  "rpc_cbs E = set_message_callback (Some (rpc_on_message E)) reply_cbs"

text \<open>The closure that sends a response from the loop's thread.\<close>

fun run_rpc_functor :: "rpc_env \<Rightarrow> rpc_functor \<Rightarrow> 'm rpc_world \<Rightarrow> 'm rpc_world option" where
  "run_rpc_functor E (SendResponse cid resp) w = codec_send E cid resp w"

definition response_of :: "u32 \<Rightarrow> rpc_controller \<times> string \<Rightarrow> rpc_response" where
  "response_of rid r =
     (case r of (controller, serialized) \<Rightarrow>
        if ctl_failed controller then error_response rid (ctl_err_text controller)
        else \<lparr>rs_id = rid, rs_success = True, rs_result = serialized, rs_error = []\<rparr>)"

definition dispatch_request :: "rpc_env \<Rightarrow> 'm rpc_task \<Rightarrow> 'm rpc_world \<Rightarrow> 'm rpc_world option" where
  "dispatch_request E t w =
     (case svc_call (tk_service t) (tk_method t) (tk_request t) controller_new of
        None \<Rightarrow> None
      | Some r \<Rightarrow>
          let resp = response_of (tk_id t) r in
          run_in_loop (codec_send E (tk_conn t) resp) (UserFunctor (SendResponse (tk_conn t) resp)) w)"

text \<open>
  A worker takes a task, runs it on its own thread and, when the service has run its closure,
  queues the response; other threads run in between. \<open>worker_round\<close> is both in one.
\<close>

definition worker_take :: "nat \<Rightarrow> 'm rpc_world \<Rightarrow> 'm rpc_world option" where
  "worker_take tid w =
     (case worker_fetch (worker_pool w) of
        Some (Fetched t, p) \<Rightarrow> Some (w\<lparr>worker_pool := p, in_flight := (in_flight w)(tid \<mapsto> t)\<rparr>)
      | _ \<Rightarrow> None)"

definition worker_reply :: "rpc_env \<Rightarrow> nat \<Rightarrow> 'm rpc_world \<Rightarrow> 'm rpc_world option" where
  "worker_reply E tid w =
     do { t \<leftarrow> in_flight w tid;
          w' \<leftarrow> dispatch_request E t (w\<lparr>cur_thread := tid\<rparr>);
          Some (w'\<lparr>cur_thread := cur_thread w, in_flight := (in_flight w')(tid := None)\<rparr>) }"

definition worker_round :: "rpc_env \<Rightarrow> nat \<Rightarrow> 'm rpc_world \<Rightarrow> 'm rpc_world option" where
  "worker_round E tid w = do { w1 \<leftarrow> worker_take tid w; worker_reply E tid w1 }"

text \<open>
  Construction (the loop and its thread, then the TCP server, then the pool), start and quit. When
  the TCP server's constructor throws, the loop is destroyed again; the result holds the message of
  the exception or the server, and the descriptors that were closed.
\<close>

definition rpc_server_new :: "loop_calls \<Rightarrow> listen_calls \<Rightarrow> nat \<Rightarrow> string \<Rightarrow> u16 \<Rightarrow> int \<Rightarrow>
    ((string + 'm rpc_world) \<times> int list) option" where
  "rpc_server_new S L tid host port io_threads =
     (case event_loop_create S tid 0 of
        (Inl err, closed) \<Rightarrow> Some (Inl err, closed)
      | (Inr l, closed) \<Rightarrow>
          (case tcp_server_new L host port of
             (Inl err, closed') \<Rightarrow> do { fds \<leftarrow> loop_unwind tid l; Some (Inl err, closed @ closed' @ fds) }
           | (Inr srv, closed') \<Rightarrow>
               Some (Inr \<lparr>the_loop = l, cur_thread = tid, conns = Map.empty, ticks = 0, net_log = [],
                 tcp_srv = srv, rpc_services = Map.empty,
                 worker_pool = thread_pool_new (unat (of_int io_threads :: u64)), in_flight = Map.empty\<rparr>, closed @ closed')))"

definition rpc_turn :: "rpc_env \<Rightarrow> epoll_wait_call \<Rightarrow> 'm rpc_world \<Rightarrow> 'm rpc_world option" where
  "rpc_turn E = loop_turn (server_dispatch (env_kernel E) (env_accept E) (rpc_cbs E))
                  (server_exec (env_kernel E) (rpc_cbs E) (run_rpc_functor E))"

definition rpc_server_start :: "rpc_env \<Rightarrow> epoll_wait_call list \<Rightarrow> 'm rpc_world \<Rightarrow> (bool \<times> 'm rpc_world) option" where
  "rpc_server_start E script w =
     do { w1 \<leftarrow> tcp_server_start w;
          loop (server_dispatch (env_kernel E) (env_accept E) (rpc_cbs E))
               (server_exec (env_kernel E) (rpc_cbs E) (run_rpc_functor E)) script w1 }"

definition rpc_server_quit :: "'m rpc_world \<Rightarrow> 'm rpc_world" where
  "rpc_server_quit w = loop_quit w"

section \<open>The server keeps the contract of the connections\<close>

text \<open>
  POSIX bounds on \<^verbatim>\<open>write\<close> and \<^verbatim>\<open>readv\<close>: never more bytes than offered or than there is room for.
  \<open>posix_kernel\<close> enforces them, and is the identity on a kernel that respects them.
\<close>

definition kernel_ok :: "kernel \<Rightarrow> bool" where
  "kernel_ok K \<longleftrightarrow> write_ok K \<and> (\<forall>t fd. readv_ok (sys_readv K t fd))"

definition posix_kernel :: "kernel \<Rightarrow> kernel" where
  "posix_kernel K =
     \<lparr>sys_write = (\<lambda>t fd d. map_sum id (min (length d)) (sys_write K t fd d)),
      sys_readv = (\<lambda>t fd iov. map_sum id (take (sum_list iov)) (sys_readv K t fd iov))\<rparr>"

definition posix_env :: "rpc_env \<Rightarrow> rpc_env" where
  "posix_env E = E\<lparr>env_kernel := posix_kernel (env_kernel E)\<rparr>"

lemma posix_kernel_write: "write_ok (posix_kernel K)"
  by (auto simp: write_ok_def posix_kernel_def map_sum_def split: sum.splits)

lemma posix_kernel_readv: "readv_ok (sys_readv (posix_kernel K) t fd)"
  by (auto simp: readv_ok_def posix_kernel_def map_sum_def split: sum.splits)

lemma posix_kernel_id: assumes "kernel_ok K" shows "posix_kernel K = K"
proof -
  have "map_sum id (min (length d)) (sys_write K t fd d) = sys_write K t fd d" for t fd d
    using assms by (auto simp: kernel_ok_def write_ok_def map_sum_def split: sum.splits intro: min_absorb2)
  moreover have "map_sum id (take (sum_list iov)) (sys_readv K t fd iov) = sys_readv K t fd iov" for t fd iov
    using assms by (auto simp: kernel_ok_def readv_ok_def map_sum_def split: sum.splits)
  ultimately show ?thesis by (simp add: posix_kernel_def)
qed

lemma posix_env_id: "kernel_ok (env_kernel E) \<Longrightarrow> posix_env E = E"
  by (simp add: posix_env_def posix_kernel_id)

text \<open>The layer's own invariant: the worker pool still takes tasks, and its tasks are for known connections.\<close>

definition pool_ok :: "u64 set \<Rightarrow> ('m, unit) rpc_world_ext \<Rightarrow> bool" where
  "pool_ok D r \<longleftrightarrow>
     (let w = server_world.extend undefined r; p = worker_pool w
      in \<not> tp_stop p \<and> list_all (\<lambda>t. tk_conn t \<in> D) (tp_tasks p) \<and> (\<forall>t \<in> ran (in_flight w). tk_conn t \<in> D))"

fun rpc_fcid :: "rpc_functor \<Rightarrow> u64" where
  "rpc_fcid (SendResponse cid resp) = cid"

lemma pool_ok_iff:
  "pool_ok D (server_world.more w) \<longleftrightarrow>
     \<not> tp_stop (worker_pool w) \<and> list_all (\<lambda>t. tk_conn t \<in> D) (tp_tasks (worker_pool w)) \<and>
     (\<forall>t \<in> ran (in_flight w). tk_conn t \<in> D)"
  by (cases w) (simp add: pool_ok_def server_world.extend_def)

lemma pool_ok_mono: "pool_ok D r \<Longrightarrow> D \<subseteq> D' \<Longrightarrow> pool_ok D' r"
  by (auto simp: pool_ok_def Let_def list_all_iff)

interpretation rb: base_callbacks "posix_kernel K" reply_cbs rpc_fcid pool_ok for K
  by unfold_locales (auto simp: posix_kernel_write reply_cbs_def no_conn_cbs_def print_only_def intro: pool_ok_mono)

lemma keeps_codec_send: "keeps rpc_fcid pool_ok (codec_send (posix_env E) cid resp) cid"
proof (cases "ser_response (env_pb E) resp")
  case None
  then show ?thesis by (auto simp: codec_send_def send_def posix_env_def keeps_def intro: srv_ext_refl)
next
  case (Some body)
  from rb.keeps_send_buffer [OF frame_buffer_inv, of "env_kernel E" cid "env_endian E" body] Some show ?thesis
    by (auto simp: codec_send_def send_def send_raw_def posix_env_def keeps_def)
qed

lemma keeps_on_frame: "keeps rpc_fcid pool_ok (\<lambda>w. on_frame (posix_env E) cid w frame) cid"
proof (rule keepsI)
  fix X and w :: "'m rpc_world" and c assume w: "srv_inv rpc_fcid pool_ok X w" "conns w cid = Some c"
  have s: "\<exists>w'. codec_send (posix_env E) cid resp w = Some w' \<and> srv_ext rpc_fcid pool_ok X w w'" for resp
    by (rule keepsE [OF keeps_codec_send w(1) domI [of "conns w", OF w(2)]]) blast
  have p: "\<not> tp_stop (worker_pool w)" using w(1) by (simp add: srv_inv_def pool_ok_iff)
  have t: "srv_ext rpc_fcid pool_ok X w (w\<lparr>worker_pool := (worker_pool w)\<lparr>tp_tasks := tp_tasks (worker_pool w) @ [t]\<rparr>\<rparr>)"
    if "tk_conn t = cid" for t
    using w p that by (auto simp: srv_ext_def srv_inv_def pool_ok_iff is_in_loop_thread_def)
  show "\<exists>w'. on_frame (posix_env E) cid w frame = Some w' \<and> srv_ext rpc_fcid pool_ok X w w'"
    using s t p srv_ext_refl [OF w(1)] by (auto simp: on_frame_def submit_def split: option.split)
qed

lemma keeps_fold:
  "(\<And>x. x \<in> set xs \<Longrightarrow> keeps fcid I (\<lambda>w. f w x) cid) \<Longrightarrow> keeps fcid I (fold_cb f xs) cid"
proof (induction xs)
  case Nil
  then show ?case by (auto simp: keeps_def intro: srv_ext_refl)
next
  case (Cons x xs)
  then show ?case using keeps_bind [of fcid I "\<lambda>w. f w x" cid "fold_cb f xs"] by (simp add: keeps_def)
qed

lemma keeps_rpc_on_message: "keeps rpc_fcid pool_ok (rpc_on_message (posix_env E) cid) cid"
proof (rule keepsI)
  fix X and w :: "'m rpc_world" and c assume w: "srv_inv rpc_fcid pool_ok X w" "conns w cid = Some c"
  let ?c = "rpc_codec (posix_env E) cid :: 'm rpc_world codec"
  obtain fs err rest where sc: "scan (parse_frame (Some kMaxBodySize)) (contents (tc_input c)) = (fs, err, rest)"
    by (metis prod_cases3)
  have k1: "keeps rpc_fcid pool_ok (fold_cb (msg_cb ?c) fs) cid"
    by (rule keeps_fold) (simp add: rpc_codec_def keeps_on_frame)
  have k2: "keeps rpc_fcid pool_ok (\<lambda>w. case err of None \<Rightarrow> Some w | Some reason \<Rightarrow> codec_fail ?c reason w) cid"
    using rb.keeps_force_close [where cid = cid]
    by (cases err) (simp_all add: codec_fail_def rpc_codec_def keeps_def, blast intro: srv_ext_refl)
  obtain w1 where 1: "codec_spec ?c (contents (tc_input c)) w = Some (rest, w1)" "srv_ext rpc_fcid pool_ok X w w1"
    by (rule keepsE [OF keeps_bind [OF k1 k2] w(1) domI [of "conns w", OF w(2)]])
      (auto simp: codec_spec_def sc bind_eq_Some_conv)
  obtain b where b: "on_message (env_endian (posix_env E)) ?c (tc_input c) w = Some (b, w1)" "buffer_inv b"
    using on_message_inv_spec [where b = "tc_input c" and e = "env_endian (posix_env E)" and c = ?c and s = w] srv_inv_conn [OF w] 1(1)
    by (auto split: option.splits)
  obtain c1 where c1: "conns w1 cid = Some c1" using srv_ext_dom [OF 1(2)] w(2) by blast
  have "srv_ext rpc_fcid pool_ok X w1 (put_conn cid (c1\<lparr>tc_input := b\<rparr>) w1)"
    by (rule srv_ext_put [OF srv_ext_inv [OF 1(2)] c1])
      (use b(2) srv_inv_conn [OF srv_ext_inv [OF 1(2)] c1] in \<open>simp_all add: conn_wf_def\<close>)
  then have "srv_ext rpc_fcid pool_ok X w (put_conn cid (c1\<lparr>tc_input := b\<rparr>) w1)" by (rule srv_ext_trans [OF 1(2)])
  then show "\<exists>w'. rpc_on_message (posix_env E) cid w = Some w' \<and> srv_ext rpc_fcid pool_ok X w w'"
    using w(2) b(1) c1 by (auto simp: rpc_on_message_def)
qed

lemma keeps_rpc_functor: "keeps rpc_fcid pool_ok (run_rpc_functor (posix_env E) x) (rpc_fcid x)"
  by (cases x, rule keepsI) (auto elim: keepsE [OF keeps_codec_send])

interpretation rs: server_callbacks "posix_kernel (env_kernel E)" "rpc_cbs (posix_env E)" rpc_fcid pool_ok
  "run_rpc_functor (posix_env E)" for E
  by unfold_locales
    (auto simp: posix_kernel_write posix_kernel_readv rpc_cbs_def reply_cbs_def no_conn_cbs_def print_only_def
      intro: keeps_rpc_on_message keeps_rpc_functor pool_ok_mono)

section \<open>The server as a machine\<close>

text \<open>
  A constructed and started server, and its steps: turns of the loop's thread, steps of the
  workers, registrations and \<^verbatim>\<open>quit\<close>.
\<close>

definition rpc_init :: "'m rpc_world \<Rightarrow> bool" where
  "rpc_init w \<longleftrightarrow> (\<exists>S L tid host port n closed w0. rpc_server_new S L tid host port n = Some (Inr w0, closed) \<and> tcp_server_start w0 = Some w)"

inductive rpc_step :: "rpc_env \<Rightarrow> 'm rpc_world \<Rightarrow> 'm rpc_world \<Rightarrow> bool" for E where
  loop_round: "reports_live ew w \<Longrightarrow> ids_left ew w \<Longrightarrow> rpc_turn E ew w = Some w' \<Longrightarrow> rpc_step E w w'"
| work_taken: "in_flight w tid = None \<Longrightarrow> worker_take tid w = Some w' \<Longrightarrow> rpc_step E w w'"
| work_done: "tid \<noteq> thread_id (the_loop w) \<Longrightarrow> worker_reply E tid w = Some w' \<Longrightarrow> rpc_step E w w'"
| registration: "rpc_step E w (register_service service w)"
| stop_request: "rpc_step E w (rpc_server_quit w)"

lemma rpc_server_new_fresh:
  assumes "rpc_server_new S L tid host port n = Some (Inr w, closed)"
  shows "srv_inv rpc_fcid pool_ok {} w"
  using assms
  by (auto simp: rpc_server_new_def event_loop_create_def tcp_server_new_def srv_inv_def pool_ok_iff is_in_loop_thread_def
      thread_pool_new_def event_loop_new_def bind_eq_Some_conv split: sum.splits prod.splits)

lemma tcp_server_start_inv:
  assumes "srv_inv fcid I X w"
  shows "\<exists>w'. tcp_server_start w = Some w' \<and> srv_ext fcid I X w w'"
  using assms
  by (auto simp: tcp_server_start_def accept_interest_def loop_set_interest_def upd_srv_def srv_ext_def srv_inv_def
      is_in_loop_thread_def split: prod.splits)

lemma rpc_init_inv: "rpc_init w \<Longrightarrow> srv_inv rpc_fcid pool_ok {} w"
  using rpc_server_new_fresh tcp_server_start_inv srv_ext_inv unfolding rpc_init_def by (metis option.inject)

lemma rpc_turn_inv:
  assumes "srv_inv rpc_fcid pool_ok {} w" "reports_live ew w" "ids_left ew w"
  shows "\<exists>w'. rpc_turn (posix_env E) ew w = Some w' \<and> srv_inv rpc_fcid pool_ok {} w'"
  using rs.turn_inv [OF assms, of E "env_accept (posix_env E)"] by (simp add: rpc_turn_def posix_env_def)

text \<open>What a worker does to the loop: one closure more in its queue, with the response.\<close>

lemma worker_reply_effect:
  assumes "tid \<noteq> thread_id (the_loop w)" "in_flight w tid = Some t"
    "svc_call (tk_service t) (tk_method t) (tk_request t) controller_new = Some r"
  shows "worker_reply E tid w =
    Some (w\<lparr>in_flight := (in_flight w)(tid := None),
            the_loop := wakeup (push_functor (UserFunctor (SendResponse (tk_conn t) (response_of (tk_id t) r))) (the_loop w))\<rparr>)"
  using assms by (simp add: worker_reply_def dispatch_request_def run_in_loop_def loop_defs)

lemma worker_round_effect:
  assumes "tid \<noteq> thread_id (the_loop w)" "tp_tasks (worker_pool w) = t # ts"
    "svc_call (tk_service t) (tk_method t) (tk_request t) controller_new = Some r"
  shows "worker_round E tid w =
    Some (w\<lparr>worker_pool := (worker_pool w)\<lparr>tp_tasks := ts\<rparr>, in_flight := (in_flight w)(tid := None),
            the_loop := wakeup (push_functor (UserFunctor (SendResponse (tk_conn t) (response_of (tk_id t) r))) (the_loop w))\<rparr>)"
  using assms worker_reply_effect [of tid "w\<lparr>worker_pool := (worker_pool w)\<lparr>tp_tasks := ts\<rparr>, in_flight := (in_flight w)(tid \<mapsto> t)\<rparr>" t r E]
  by (simp add: worker_round_def worker_take_def worker_fetch_def)

text \<open>What a step of a worker has done.\<close>

lemma worker_take_cases:
  assumes "worker_take tid w = Some w'"
  obtains t ts where "tp_tasks (worker_pool w) = t # ts"
    "w' = w\<lparr>worker_pool := (worker_pool w)\<lparr>tp_tasks := ts\<rparr>, in_flight := (in_flight w)(tid \<mapsto> t)\<rparr>"
  using that assms by (auto simp: worker_take_def worker_fetch_def split: option.splits fetched.splits if_splits list.splits)

lemma worker_reply_cases:
  assumes "tid \<noteq> thread_id (the_loop w)" "worker_reply E tid w = Some w'"
  obtains t r where "in_flight w tid = Some t" "svc_call (tk_service t) (tk_method t) (tk_request t) controller_new = Some r"
    "w' = w\<lparr>in_flight := (in_flight w)(tid := None),
            the_loop := wakeup (push_functor (UserFunctor (SendResponse (tk_conn t) (response_of (tk_id t) r))) (the_loop w))\<rparr>"
proof -
  obtain t where t: "in_flight w tid = Some t" using assms(2) by (auto simp: worker_reply_def bind_eq_Some_conv)
  then obtain r where r: "svc_call (tk_service t) (tk_method t) (tk_request t) controller_new = Some r"
    using assms(2) by (auto simp: worker_reply_def dispatch_request_def split: option.splits)
  from worker_reply_effect [OF assms(1) t r] assms(2) show thesis using that t r by simp
qed

lemma worker_take_inv:
  assumes "srv_inv rpc_fcid pool_ok X w" "worker_take tid w = Some w'"
  shows "srv_inv rpc_fcid pool_ok X w'"
proof -
  obtain t ts where t: "tp_tasks (worker_pool w) = t # ts"
    "w' = w\<lparr>worker_pool := (worker_pool w)\<lparr>tp_tasks := ts\<rparr>, in_flight := (in_flight w)(tid \<mapsto> t)\<rparr>"
    by (rule worker_take_cases [OF assms(2)])
  have "ran ((in_flight w)(tid \<mapsto> t)) \<subseteq> insert t (ran (in_flight w))" by (auto simp: ran_def)
  then show ?thesis using assms(1) t by (auto simp: srv_inv_def pool_ok_iff is_in_loop_thread_def)
qed

lemma worker_reply_inv:
  assumes "srv_inv rpc_fcid pool_ok X w" "tid \<noteq> thread_id (the_loop w)" "worker_reply E tid w = Some w'"
  shows "srv_inv rpc_fcid pool_ok X w'"
proof -
  obtain t r where t: "in_flight w tid = Some t" and w':
    "w' = w\<lparr>in_flight := (in_flight w)(tid := None),
            the_loop := wakeup (push_functor (UserFunctor (SendResponse (tk_conn t) (response_of (tk_id t) r))) (the_loop w))\<rparr>"
    by (rule worker_reply_cases [OF assms(2,3)])
  have "ran ((in_flight w)(tid := None)) \<subseteq> ran (in_flight w)" "t \<in> ran (in_flight w)" using t by (auto simp: ran_def)
  then show ?thesis using assms(1) w' by (auto simp: srv_inv_def pool_ok_iff loop_defs)
qed

lemma rpc_step_inv:
  assumes "srv_inv rpc_fcid pool_ok {} w" "rpc_step (posix_env E) w w'"
  shows "srv_inv rpc_fcid pool_ok {} w'"
  using assms(2,1)
proof cases
  case (loop_round ew)
  then show ?thesis using rpc_turn_inv [OF assms(1) loop_round(1,2), of E] by auto
next
  case (work_taken tid)
  then show ?thesis using worker_take_inv [OF assms(1)] by blast
next
  case (work_done tid)
  then show ?thesis using worker_reply_inv [OF assms(1)] by blast
next
  case (registration service)
  then show ?thesis using assms(1) by (auto simp: register_service_def srv_inv_def pool_ok_iff is_in_loop_thread_def)
next
  case stop_request
  then show ?thesis using assms(1) by (auto simp: rpc_server_quit_def loop_quit_def srv_inv_def pool_ok_iff loop_defs)
qed

interpretation rm: invariant_system rpc_init "rpc_step (posix_env E)" "srv_inv rpc_fcid pool_ok {}" for E
  by unfold_locales (fact rpc_init_inv, fact rpc_step_inv)

section \<open>What the server answers\<close>

text \<open>
  The specification of the server: the response to one frame, \<^const>\<open>None\<close> for bytes that are no
  request and for a service that never runs its closure.
\<close>

definition answer :: "rpc_env \<Rightarrow> (string \<rightharpoonup> 'm service) \<Rightarrow> string \<Rightarrow> rpc_response option" where
  "answer E svcs frame =
     do { req \<leftarrow> parse_request (env_pb E) frame;
          case svcs (rq_service req) of
            None \<Rightarrow> Some (error_response (rq_id req) (''service not found: '' @ rq_service req))
          | Some service \<Rightarrow>
              if \<not> svc_find_method service (rq_method req) then
                Some (error_response (rq_id req) (''method not found: '' @ rq_method req))
              else case svc_parse service (rq_method req) (rq_args req) of
                None \<Rightarrow> Some (error_response (rq_id req) ''failed to parse request args'')
              | Some m \<Rightarrow> map_option (response_of (rq_id req)) (svc_call service (rq_method req) m controller_new) }"

text \<open>The frames answered at once, with an error, and those handed to the workers.\<close>

definition triage :: "rpc_env \<Rightarrow> (string \<rightharpoonup> 'm service) \<Rightarrow> u64 \<Rightarrow> string \<Rightarrow> (rpc_response + 'm rpc_task) option" where
  "triage E svcs cid frame =
     do { req \<leftarrow> parse_request (env_pb E) frame;
          case svcs (rq_service req) of
            None \<Rightarrow> Some (Inl (error_response (rq_id req) (''service not found: '' @ rq_service req)))
          | Some service \<Rightarrow>
              if \<not> svc_find_method service (rq_method req) then
                Some (Inl (error_response (rq_id req) (''method not found: '' @ rq_method req)))
              else case svc_parse service (rq_method req) (rq_args req) of
                None \<Rightarrow> Some (Inl (error_response (rq_id req) ''failed to parse request args''))
              | Some m \<Rightarrow> Some (Inr \<lparr>tk_conn = cid, tk_id = rq_id req, tk_service = service,
                                    tk_method = rq_method req, tk_request = m\<rparr>) }"

definition early :: "rpc_env \<Rightarrow> (string \<rightharpoonup> 'm service) \<Rightarrow> u64 \<Rightarrow> string \<Rightarrow> rpc_response list" where
  "early E svcs cid frame = (case triage E svcs cid frame of Some (Inl r) \<Rightarrow> [r] | _ \<Rightarrow> [])"

definition deferred :: "rpc_env \<Rightarrow> (string \<rightharpoonup> 'm service) \<Rightarrow> u64 \<Rightarrow> string \<Rightarrow> 'm rpc_task list" where
  "deferred E svcs cid frame = (case triage E svcs cid frame of Some (Inr t) \<Rightarrow> [t] | _ \<Rightarrow> [])"

definition task_result :: "'m rpc_task \<Rightarrow> rpc_response option" where
  "task_result t = map_option (response_of (tk_id t)) (svc_call (tk_service t) (tk_method t) (tk_request t) controller_new)"

definition reply_bytes :: "rpc_env \<Rightarrow> rpc_response \<Rightarrow> string" where
  "reply_bytes E resp = (case ser_response (env_pb E) resp of None \<Rightarrow> [] | Some body \<Rightarrow> wire_frame body)"

lemma answer_split:
  "(case answer E svcs frame of None \<Rightarrow> [] | Some r \<Rightarrow> [r]) =
   early E svcs cid frame @ List.map_filter task_result (deferred E svcs cid frame)"
  by (auto simp: answer_def early_def deferred_def triage_def task_result_def map_filter_simps
      split: option.split bind_splits)

lemma answers_mset:
  "mset (List.map_filter (answer E svcs) fs) =
   mset (concat (map (early E svcs cid) fs) @ List.map_filter task_result (concat (map (deferred E svcs cid) fs)))"
proof (induction fs)
  case Nil
  then show ?case by (simp add: map_filter_simps)
next
  case (Cons f fs)
  have "mset (List.map_filter (answer E svcs) (f # fs)) =
      mset (case answer E svcs f of None \<Rightarrow> [] | Some r \<Rightarrow> [r]) + mset (List.map_filter (answer E svcs) fs)"
    by (simp add: map_filter_simps split: option.split)
  moreover have "List.map_filter task_result (as @ bs) = List.map_filter task_result as @ List.map_filter task_result bs"
    for as bs :: "'a rpc_task list" by (induction as) (auto simp: map_filter_simps split: option.split)
  ultimately show ?case using Cons.IH by (simp add: answer_split [where cid = cid])
qed

section \<open>How the server answers\<close>

text \<open>A connection that can take responses, and the pool and services next to it.\<close>

definition open_conn :: "u64 \<Rightarrow> 'm rpc_world \<Rightarrow> bool" where
  "open_conn cid w \<longleftrightarrow> out_inv cid w \<and> map_option tc_state (conns w cid) = Some kConnected"

lemma quiet_rpc:
  assumes "quiet w w'"
  shows "rpc_services w' = rpc_services w" "worker_pool w' = worker_pool w" "tcp_srv w' = tcp_srv w"
    "pending_functors (the_loop w') = pending_functors (the_loop w)" "thread_id (the_loop w') = thread_id (the_loop w)"
    "calling_pending_functors (the_loop w') = calling_pending_functors (the_loop w)"
    "cur_thread w' = cur_thread w" "in_flight w' = in_flight w"
  using assms by (cases w; cases w'; auto simp: quiet_def)+

lemma codec_send_out:
  assumes K: "write_ok (env_kernel E)" "write_no_error (env_kernel E)" and w: "open_conn cid w"
  shows "\<exists>w'. codec_send E cid resp w = Some w' \<and> open_conn cid w' \<and> quiet w w' \<and>
    out_stream cid w' = out_stream cid w @ reply_bytes E resp"
proof (cases "ser_response (env_pb E) resp")
  case None
  then show ?thesis using w by (simp add: codec_send_def send_def reply_bytes_def)
next
  case (Some body)
  have cb: "wc_cb (server_cbs reply_cbs) = None" by (simp add: server_cbs_alt reply_cbs_def no_conn_cbs_def)
  have i: "out_inv cid w" using w by (simp add: open_conn_def)
  obtain c where c: "conns w cid = Some c" "tc_state c = kConnected" "is_in_loop_thread w"
    using w by (auto simp: open_conn_def out_inv_def)
  obtain b where b: "retrieve_all_as_string (frame_buffer (env_endian E) body) = Some (wire_frame body, b)"
    using retrieve_all_correct [OF frame_buffer_inv] by (fastforce simp: wire_simps)
  obtain w' where w': "send_in_loop (env_kernel E) (server_cbs reply_cbs) (wire_frame body) cid w = Some w'" "out_inv cid w'"
    "out_stream cid w' = out_stream cid w @ wire_frame body"
    using send_in_loop_out [OF K cb i] by blast
  have q: "quiet w w'" by (rule quiet_send_in_loop [OF K(2) cb w'(1)])
  obtain c' where "conns w' cid = Some c'" "tc_state c' = tc_state c" by (rule quiet_conn [OF q c(1)])
  then have "open_conn cid w'" using w'(2) c(2) by (simp add: open_conn_def)
  moreover have "codec_send E cid resp w = Some w'"
    using Some b c w'(1) by (simp add: codec_send_def send_def send_raw_def send_buffer_def run_in_loop_def)
  ultimately show ?thesis using w'(3) q Some by (simp add: reply_bytes_def)
qed

text \<open>
  Where a step of the server leaves the world: the connection open, the output stream and the
  queue of tasks longer by \<open>out\<close> and \<open>ts\<close>, services, closures and threads as before.
\<close>

definition served :: "u64 \<Rightarrow> 'm rpc_world \<Rightarrow> string \<Rightarrow> 'm rpc_task list \<Rightarrow> 'm rpc_world \<Rightarrow> bool" where
  "served cid w out ts w' \<longleftrightarrow> open_conn cid w' \<and> out_stream cid w' = out_stream cid w @ out \<and>
     worker_pool w' = (worker_pool w)\<lparr>tp_tasks := tp_tasks (worker_pool w) @ ts\<rparr> \<and>
     rpc_services w' = rpc_services w \<and> in_flight w' = in_flight w \<and>
     pending_functors (the_loop w') = pending_functors (the_loop w) \<and> thread_id (the_loop w') = thread_id (the_loop w) \<and> cur_thread w' = cur_thread w"

lemma served_refl: "open_conn cid w \<Longrightarrow> served cid w [] [] w"
  by (simp add: served_def)

lemma served_trans: "served cid u a ts v \<Longrightarrow> served cid v b ts' w \<Longrightarrow> served cid u (a @ b) (ts @ ts') w"
  by (simp add: served_def)

lemma served_send:
  assumes "open_conn cid w'" "quiet w w'" "out_stream cid w' = out_stream cid w @ out"
  shows "served cid w out [] w'"
  using assms quiet_rpc [OF assms(2)] by (simp add: served_def)

lemma on_frame_out:
  assumes K: "write_ok (env_kernel E)" "write_no_error (env_kernel E)" and w: "open_conn cid w" "\<not> tp_stop (worker_pool w)"
  shows "\<exists>w'. on_frame E cid w frame = Some w' \<and>
    served cid w (concat (map (reply_bytes E) (early E (rpc_services w) cid frame))) (deferred E (rpc_services w) cid frame) w'"
proof -
  have s: "\<exists>w'. codec_send E cid resp w = Some w' \<and> served cid w (reply_bytes E resp) [] w'" for resp
    using codec_send_out [OF K w(1)] served_send by blast
  have t: "served cid w [] [t] (w\<lparr>worker_pool := (worker_pool w)\<lparr>tp_tasks := tp_tasks (worker_pool w) @ [t]\<rparr>\<rparr>)" for t
    using w(1) by (auto simp: served_def open_conn_def out_inv_def out_defs is_in_loop_thread_def)
  show ?thesis
    using s t w served_refl [OF w(1)]
    by (auto simp: on_frame_def early_def deferred_def triage_def submit_def split: option.split)
qed

lemma on_frames_out:
  assumes K: "write_ok (env_kernel E)" "write_no_error (env_kernel E)" and w: "open_conn cid w" "\<not> tp_stop (worker_pool w)"
  shows "\<exists>w'. fold_cb (on_frame E cid) fs w = Some w' \<and>
    served cid w (concat (map (reply_bytes E) (concat (map (early E (rpc_services w) cid) fs))))
      (concat (map (deferred E (rpc_services w) cid) fs)) w'"
  using w
proof (induction fs arbitrary: w)
  case Nil
  then show ?case by (simp add: served_refl)
next
  case (Cons f fs)
  obtain w1 where 1: "on_frame E cid w f = Some w1"
    "served cid w (concat (map (reply_bytes E) (early E (rpc_services w) cid f))) (deferred E (rpc_services w) cid f) w1"
    using on_frame_out [OF K Cons.prems] by blast
  then have "open_conn cid w1" "\<not> tp_stop (worker_pool w1)" "rpc_services w1 = rpc_services w"
    using Cons.prems(2) by (auto simp: served_def)
  then show ?case using Cons.IH [of w1] 1 served_trans [OF 1(2)] by fastforce
qed

lemma rpc_on_message_out:
  assumes K: "write_ok (env_kernel E)" "write_no_error (env_kernel E)" and w: "open_conn cid w" "\<not> tp_stop (worker_pool w)"
    and c: "conns w cid = Some c" "buffer_inv (tc_input c)"
    and sc: "scan (parse_frame (Some kMaxBodySize)) (contents (tc_input c)) = (fs, None, rest)"
  shows "\<exists>w'. rpc_on_message E cid w = Some w' \<and>
    served cid w (concat (map (reply_bytes E) (concat (map (early E (rpc_services w) cid) fs))))
      (concat (map (deferred E (rpc_services w) cid) fs)) w' \<and>
    (\<exists>c'. conns w' cid = Some c' \<and> buffer_inv (tc_input c') \<and> contents (tc_input c') = rest)"
proof -
  obtain w1 where 1: "fold_cb (on_frame E cid) fs w = Some w1"
    "served cid w (concat (map (reply_bytes E) (concat (map (early E (rpc_services w) cid) fs))))
      (concat (map (deferred E (rpc_services w) cid) fs)) w1"
    using on_frames_out [OF K w] by blast
  then have "codec_spec (rpc_codec E cid) (contents (tc_input c)) w = Some (rest, w1)"
    by (simp add: codec_spec_def sc rpc_codec_def)
  then obtain b where b: "on_message (env_endian E) (rpc_codec E cid) (tc_input c) w = Some (b, w1)"
      "buffer_inv b" "contents b = rest"
    using on_message_inv_spec [where b = "tc_input c" and e = "env_endian E" and c = "rpc_codec E cid" and s = w] c(2)
    by (auto split: option.splits)
  obtain c1 where c1: "conns w1 cid = Some c1" using 1(2) by (auto simp: served_def open_conn_def)
  have "served cid w1 [] [] (put_conn cid (c1\<lparr>tc_input := b\<rparr>) w1)"
    using 1(2) c1 by (auto simp: served_def open_conn_def out_inv_def out_defs world_simps)
  from served_trans [OF 1(2) this] show ?thesis using b c c1 by (auto simp: rpc_on_message_def put_conn_def)
qed

text \<open>The workers empty the queue of tasks; each round queues one response.\<close>

fun work_off :: "rpc_env \<Rightarrow> nat \<Rightarrow> nat \<Rightarrow> 'm rpc_world \<Rightarrow> 'm rpc_world option" where
  "work_off E tid 0 w = Some w"
| "work_off E tid (Suc n) w = do { w1 \<leftarrow> worker_round E tid w; work_off E tid n w1 }"

lemma work_off_out:
  assumes "tid \<noteq> thread_id (the_loop w)" "tp_tasks (worker_pool w) = ts" "open_conn cid w"
    "list_all (\<lambda>t. tk_conn t = cid \<and> task_result t \<noteq> None) ts"
  shows "\<exists>w'. work_off E tid (length ts) w = Some w' \<and> open_conn cid w' \<and> out_stream cid w' = out_stream cid w \<and>
    tp_tasks (worker_pool w') = [] \<and>
    pending_functors (the_loop w') = pending_functors (the_loop w) @
      map (\<lambda>r. UserFunctor (SendResponse cid r)) (List.map_filter task_result ts)"
  using assms
proof (induction ts arbitrary: w)
  case Nil
  then show ?case by (simp add: map_filter_simps)
next
  case (Cons t ts)
  obtain r where r: "svc_call (tk_service t) (tk_method t) (tk_request t) controller_new = Some r"
    using Cons.prems(4) by (auto simp: task_result_def)
  let ?w = "w\<lparr>worker_pool := (worker_pool w)\<lparr>tp_tasks := ts\<rparr>, in_flight := (in_flight w)(tid := None),
      the_loop := wakeup (push_functor (UserFunctor (SendResponse (tk_conn t) (response_of (tk_id t) r))) (the_loop w))\<rparr>"
  have 1: "worker_round E tid w = Some ?w" by (rule worker_round_effect [OF Cons.prems(1,2) r])
  have o: "open_conn cid ?w" "out_stream cid ?w = out_stream cid w"
    using Cons.prems(3) by (auto simp: open_conn_def out_inv_def out_defs loop_defs)
  have "tid \<noteq> thread_id (the_loop ?w)" "tp_tasks (worker_pool ?w) = ts" using Cons.prems(1) by (simp_all add: loop_defs)
  from Cons.IH [OF this o(1)] Cons.prems(4) show ?case
    using 1 r o(2) by (auto simp: task_result_def map_filter_simps loop_defs)
qed

lemma responses_out:
  assumes K: "write_ok (env_kernel E)" "write_no_error (env_kernel E)" and w: "open_conn cid w"
  shows "\<exists>w'. fold_cb (server_exec (env_kernel E) (rpc_cbs E) (run_rpc_functor E))
      (map (\<lambda>r. UserFunctor (SendResponse cid r)) rs) w = Some w' \<and>
    served cid w (concat (map (reply_bytes E) rs)) [] w' \<and> quiet w w'"
  using w
proof (induction rs arbitrary: w)
  case Nil
  then show ?case by (simp add: served_refl)
next
  case (Cons r rs)
  obtain w1 where 1: "codec_send E cid r w = Some w1" "open_conn cid w1" "quiet w w1" "out_stream cid w1 = out_stream cid w @ reply_bytes E r"
    using codec_send_out [OF K Cons.prems] by blast
  obtain w2 where 2: "fold_cb (server_exec (env_kernel E) (rpc_cbs E) (run_rpc_functor E))
      (map (\<lambda>r. UserFunctor (SendResponse cid r)) rs) w1 = Some w2" "served cid w1 (concat (map (reply_bytes E) rs)) [] w2" "quiet w1 w2"
    using Cons.IH [OF 1(2)] by blast
  show ?case
    using 1(1) 2(1) served_trans [OF served_send [OF 1(2-4)] 2(2)] quiet_trans [OF 1(3) 2(3)] by simp
qed

lemma deferred_answered:
  assumes "parse_request (env_pb E) f \<noteq> None \<longrightarrow> answer E svcs f \<noteq> None"
  shows "list_all (\<lambda>t. tk_conn t = cid \<and> task_result t \<noteq> None) (deferred E svcs cid f)"
  using assms by (auto simp: deferred_def triage_def answer_def task_result_def split: option.splits bind_splits)

lemma open_conn_loop:
  "thread_id l = thread_id (the_loop w) \<Longrightarrow> open_conn cid (w\<lparr>the_loop := l\<rparr>) = open_conn cid w"
  "out_stream cid (w\<lparr>the_loop := l\<rparr>) = out_stream cid w"
  by (simp_all add: open_conn_def out_inv_def out_defs is_in_loop_thread_def)

text \<open>A run of the closures sends the queued responses and leaves the queue empty.\<close>

definition dequeued :: "'m rpc_world \<Rightarrow> 'm rpc_world" where
  "dequeued w = w\<lparr>the_loop := (the_loop w)\<lparr>pending_functors := []\<rparr>\<rparr>"

lemma functors_served:
  assumes K: "write_ok (env_kernel E)" "write_no_error (env_kernel E)" and w: "open_conn cid w"
    and p: "pending_functors (the_loop w) = map (\<lambda>r. UserFunctor (SendResponse cid r)) rs" and c: "conns w cid = Some c"
  shows "\<exists>w' c'. do_pending_functors (server_exec (env_kernel E) (rpc_cbs E) (run_rpc_functor E)) w = Some w' \<and>
    served cid (dequeued w) (concat (map (reply_bytes E) rs)) [] w' \<and> conns w' cid = Some c' \<and> tc_input c' = tc_input c"
proof -
  let ?w = "w\<lparr>the_loop := (the_loop w)\<lparr>pending_functors := [], calling_pending_functors := True\<rparr>\<rparr>"
  have "open_conn cid ?w" using w by (simp add: open_conn_loop)
  then obtain w1 where 1: "fold_cb (server_exec (env_kernel E) (rpc_cbs E) (run_rpc_functor E))
      (map (\<lambda>r. UserFunctor (SendResponse cid r)) rs) ?w = Some w1" "served cid ?w (concat (map (reply_bytes E) rs)) [] w1" "quiet ?w w1"
    using responses_out [OF K] by blast
  obtain c' where c': "conns w1 cid = Some c'" "tc_input c' = tc_input c"
    by (rule quiet_conn [OF 1(3), of cid c]) (simp add: c)
  let ?w' = "w1\<lparr>the_loop := (the_loop w1)\<lparr>calling_pending_functors := False\<rparr>\<rparr>"
  have "do_pending_functors (server_exec (env_kernel E) (rpc_cbs E) (run_rpc_functor E)) w = Some ?w'"
    using 1(1) by (simp add: do_pending_functors_def swap_functors_def p)
  moreover have "served cid (dequeued w) (concat (map (reply_bytes E) rs)) [] ?w'"
    using 1(2) by (simp add: served_def dequeued_def open_conn_loop)
  ultimately show ?thesis using c' by simp
qed

lemma functors_out:
  assumes "write_ok (env_kernel E)" "write_no_error (env_kernel E)" "open_conn cid w"
    and "pending_functors (the_loop w) = map (\<lambda>r. UserFunctor (SendResponse cid r)) rs"
  shows "\<exists>w'. do_pending_functors (server_exec (env_kernel E) (rpc_cbs E) (run_rpc_functor E)) w = Some w' \<and>
    out_stream cid w' = out_stream cid w @ concat (map (reply_bytes E) rs)"
proof -
  obtain c where "conns w cid = Some c" using assms(3) by (auto simp: open_conn_def)
  from functors_served [OF assms this] show ?thesis by (auto simp: served_def dequeued_def open_conn_loop)
qed

section \<open>Any number of workers\<close>

text \<open>
  A schedule of the workers: who takes the next task and who finishes the one it runs, in any
  order. \<open>owed\<close> are the responses of the tasks queued and in flight; a step of a worker moves
  one of them into the loop's queue or leaves them alone.
\<close>

datatype work_action = Take nat | Reply nat

fun work_act :: "rpc_env \<Rightarrow> 'm rpc_world \<Rightarrow> work_action \<Rightarrow> 'm rpc_world option" where
  "work_act E w (Take tid) = (if in_flight w tid = None then worker_take tid w else None)"
| "work_act E w (Reply tid) = (if tid \<noteq> thread_id (the_loop w) then worker_reply E tid w else None)"

definition idle_workers :: "'m rpc_world \<Rightarrow> bool" where
  "idle_workers w \<longleftrightarrow> tp_tasks (worker_pool w) = [] \<and> in_flight w = Map.empty"

definition owed :: "'m rpc_world \<Rightarrow> rpc_response multiset" where
  "owed w = mset (List.map_filter task_result (tp_tasks (worker_pool w))) +
     image_mset (\<lambda>tid. the (task_result (the (in_flight w tid)))) (mset_set (dom (in_flight w)))"

definition task_for :: "u64 \<Rightarrow> 'm rpc_task \<Rightarrow> bool" where
  "task_for cid t \<longleftrightarrow> tk_conn t = cid \<and> task_result t \<noteq> None"

definition settling :: "u64 \<Rightarrow> string \<Rightarrow> rpc_response multiset \<Rightarrow> 'm rpc_world \<Rightarrow> bool" where
  "settling cid out resps w \<longleftrightarrow> open_conn cid w \<and> out_stream cid w = out \<and> finite (dom (in_flight w)) \<and>
     list_all (task_for cid) (tp_tasks (worker_pool w)) \<and> (\<forall>t \<in> ran (in_flight w). task_for cid t) \<and>
     (\<exists>rs. pending_functors (the_loop w) = map (\<lambda>r. UserFunctor (SendResponse cid r)) rs \<and> mset rs + owed w = resps)"

lemma open_conn_cong:
  assumes "conns w' = conns w" "cur_thread w' = cur_thread w" "thread_id (the_loop w') = thread_id (the_loop w)" "net_log w' = net_log w"
  shows "open_conn cid w' = open_conn cid w" "out_stream cid w' = out_stream cid w"
  using assms by (simp_all add: open_conn_def out_inv_def out_defs is_in_loop_thread_def)

lemma settling_take:
  assumes s: "settling cid out resps w" and free: "in_flight w tid = None" and t: "worker_take tid w = Some w'"
  shows "settling cid out resps w'"
proof -
  obtain t ts where ts: "tp_tasks (worker_pool w) = t # ts"
    and w': "w' = w\<lparr>worker_pool := (worker_pool w)\<lparr>tp_tasks := ts\<rparr>, in_flight := (in_flight w)(tid \<mapsto> t)\<rparr>"
    by (rule worker_take_cases [OF t])
  obtain r where r: "task_result t = Some r" using s ts by (auto simp: settling_def task_for_def)
  have d: "finite (dom (in_flight w))" "tid \<notin> dom (in_flight w)" using s free by (auto simp: settling_def)
  have "image_mset (\<lambda>i. the (task_result (the (((in_flight w)(tid \<mapsto> t)) i)))) (mset_set (dom (in_flight w))) =
      image_mset (\<lambda>i. the (task_result (the (in_flight w i)))) (mset_set (dom (in_flight w)))"
    by (rule image_mset_cong) (use d in auto)
  then have "owed w' = owed w" using d r by (simp add: owed_def w' ts map_filter_simps)
  moreover have "ran ((in_flight w)(tid \<mapsto> t)) = insert t (ran (in_flight w))" using free by (rule ran_map_upd)
  moreover have "open_conn cid w' = open_conn cid w" "out_stream cid w' = out_stream cid w"
    by (rule open_conn_cong; simp add: w')+
  ultimately show ?thesis using s ts w' by (simp add: settling_def)
qed

lemma settling_reply:
  assumes s: "settling cid out resps w" and tid: "tid \<noteq> thread_id (the_loop w)" and rp: "worker_reply E tid w = Some w'"
  shows "settling cid out resps w'"
proof -
  obtain t r where t: "in_flight w tid = Some t"
    and r: "svc_call (tk_service t) (tk_method t) (tk_request t) controller_new = Some r"
    and eff: "w' = w\<lparr>in_flight := (in_flight w)(tid := None),
      the_loop := wakeup (push_functor (UserFunctor (SendResponse (tk_conn t) (response_of (tk_id t) r))) (the_loop w))\<rparr>"
    by (rule worker_reply_cases [OF tid rp])
  have "task_for cid t" using s t by (auto simp: settling_def ran_def)
  then have w': "w' = w\<lparr>in_flight := (in_flight w)(tid := None),
      the_loop := wakeup (push_functor (UserFunctor (SendResponse cid (response_of (tk_id t) r))) (the_loop w))\<rparr>"
    using eff by (simp add: task_for_def)
  have d: "finite (dom (in_flight w))" "tid \<in> dom (in_flight w)" using s t by (auto simp: settling_def)
  have "image_mset (\<lambda>i. the (task_result (the (((in_flight w)(tid := None)) i)))) (mset_set (dom (in_flight w) - {tid})) =
      image_mset (\<lambda>i. the (task_result (the (in_flight w i)))) (mset_set (dom (in_flight w) - {tid}))"
    by (rule image_mset_cong) (use d in auto)
  then have o: "owed w = add_mset (response_of (tk_id t) r) (owed w')"
    using t r mset_set.remove [OF d] by (simp add: owed_def w' task_result_def)
  obtain rs where rs: "pending_functors (the_loop w) = map (\<lambda>r. UserFunctor (SendResponse cid r)) rs" "mset rs + owed w = resps"
    using s by (auto simp: settling_def)
  have "\<exists>rs. pending_functors (the_loop w') = map (\<lambda>r. UserFunctor (SendResponse cid r)) rs \<and> mset rs + owed w' = resps"
    by (rule exI [of _ "rs @ [response_of (tk_id t) r]"]) (use rs o in \<open>simp add: w' loop_defs\<close>)
  moreover have "\<forall>t \<in> ran (in_flight w'). task_for cid t" using s by (auto simp: settling_def w' ran_def split: if_splits)
  moreover have "open_conn cid w' = open_conn cid w" "out_stream cid w' = out_stream cid w"
    by (rule open_conn_cong; simp add: w' loop_defs)+
  moreover have "finite (dom (in_flight w'))" "worker_pool w' = worker_pool w" using d(1) by (simp_all add: w')
  ultimately show ?thesis using s unfolding settling_def by simp
qed

lemma settling_run:
  "settling cid out resps w \<Longrightarrow> fold_cb (work_act E) acts w = Some w' \<Longrightarrow> settling cid out resps w'"
proof (induction acts arbitrary: w)
  case (Cons a acts)
  obtain w1 where w1: "work_act E w a = Some w1" "fold_cb (work_act E) acts w1 = Some w'"
    using Cons.prems(2) by (auto simp: bind_eq_Some_conv)
  have "settling cid out resps w1"
    using w1(1) Cons.prems(1) settling_take settling_reply by (cases a) (auto split: if_splits)
  then show ?case using Cons.IH w1(2) by blast
qed simp

text \<open>One worker can do it all, so the schedules are not empty.\<close>

lemma one_worker_settles:
  assumes "tid \<noteq> thread_id (the_loop w)" "tp_tasks (worker_pool w) = ts" "in_flight w = Map.empty" "list_all (task_for cid) ts"
  shows "\<exists>w'. fold_cb (work_act E) (concat (replicate (length ts) [Take tid, Reply tid])) w = Some w' \<and> idle_workers w'"
  using assms
proof (induction ts arbitrary: w)
  case Nil
  then show ?case by (simp add: idle_workers_def)
next
  case (Cons t ts)
  obtain r where r: "svc_call (tk_service t) (tk_method t) (tk_request t) controller_new = Some r"
    using Cons.prems(4) by (auto simp: task_for_def task_result_def)
  obtain w1 where w1: "worker_take tid w = Some w1" "worker_reply E tid w1 = worker_round E tid w" "thread_id (the_loop w1) = thread_id (the_loop w)"
    using Cons.prems(2) by (simp add: worker_round_def worker_take_def worker_fetch_def)
  let ?w = "w\<lparr>worker_pool := (worker_pool w)\<lparr>tp_tasks := ts\<rparr>, in_flight := (in_flight w)(tid := None),
      the_loop := wakeup (push_functor (UserFunctor (SendResponse (tk_conn t) (response_of (tk_id t) r))) (the_loop w))\<rparr>"
  have "worker_round E tid w = Some ?w" by (rule worker_round_effect [OF Cons.prems(1,2) r])
  moreover have "\<exists>w'. fold_cb (work_act E) (concat (replicate (length ts) [Take tid, Reply tid])) ?w = Some w' \<and> idle_workers w'"
    by (rule Cons.IH) (use Cons.prems in \<open>simp_all add: loop_defs\<close>)
  ultimately show ?case using w1 Cons.prems(1,3) by simp
qed

section \<open>Properties\<close>

text \<open>
  C7. The server never fails and its connection table is exact: in every state it reaches by
  turns of its loop, steps of any number of workers, registrations and \<^verbatim>\<open>quit\<close> calls, \<^verbatim>\<open>connections_\<close> holds
  exactly the connections that are not disconnected, and the next turn of the loop, whatever
  events, reads, writes and requests it brings, succeeds: no handler follows a dangling
  pointer, no assertion fails and no exception escapes.
\<close>

theorem rpc_server_sound:
  assumes "kernel_ok (env_kernel E)" "reachable rpc_init (rpc_step E) w"
  shows "ts_connections (tcp_srv w) = live_ids w \<and>
    (\<forall>ew. reports_live ew w \<and> ids_left ew w \<longrightarrow>
       (\<exists>w'. rpc_turn E ew w = Some w' \<and> ts_connections (tcp_srv w') = live_ids w'))"
proof -
  note inv = rm.reachable_inv [of E, unfolded posix_env_id [OF assms(1)], OF assms(2)]
  show ?thesis
    using rpc_turn_inv [OF inv, of _ E, unfolded posix_env_id [OF assms(1)]] srv_inv_live inv by blast
qed

text \<open>A concrete host, services, server and connection.\<close>

definition calm_kernel :: kernel where
  "calm_kernel = \<lparr>sys_write = (\<lambda>t fd d. Inr (length d)), sys_readv = (\<lambda>t fd iov. Inr [])\<rparr>"

definition demo_env :: rpc_env where
  "demo_env = \<lparr>env_endian = LittleEndian, env_pb = demo_protobuf, env_kernel = calm_kernel, env_accept = (\<lambda>t fd. None)\<rparr>"

definition echo_service :: "string service" where
  "echo_service = \<lparr>svc_full_name = ''demo.Echo'', svc_find_method = (\<lambda>m. m = ''Say''),
     svc_parse = (\<lambda>m args. Some args), svc_call = (\<lambda>m req ctl. Some (ctl, req))\<rparr>"

definition demo_listen :: listen_calls where
  "demo_listen = \<lparr>sys_socket = 4, sys_bind = (\<lambda>fd a p. 0), sys_listen = (\<lambda>fd. 0), inet_addr = (\<lambda>h. 1)\<rparr>"

lemma calm_kernel_ok: "kernel_ok calm_kernel" "write_ok calm_kernel" "write_no_error calm_kernel"
  by (auto simp: kernel_ok_def write_ok_def write_no_error_def readv_ok_def calm_kernel_def)

definition demo_fds :: loop_calls where
  "demo_fds = \<lparr>sys_epoll_create1 = 5, sys_eventfd = 3\<rparr>"

lemma demo_new:
  obtains w :: "string rpc_world" where "rpc_server_new demo_fds demo_listen 1 [] 80 4 = Some (Inr w, [])"
  using that
  by (simp add: rpc_server_new_def event_loop_create_def poller_create_def create_eventfd_def demo_fds_def tcp_server_new_def
      create_listen_fd_def demo_listen_def)

lemma demo_init: "\<exists>w :: string rpc_world. rpc_init w"
proof -
  obtain w0 :: "string rpc_world" where w0: "rpc_server_new demo_fds demo_listen 1 [] 80 4 = Some (Inr w0, [])"
    by (rule demo_new)
  then show ?thesis
    using tcp_server_start_inv [OF rpc_server_new_fresh [OF w0]] unfolding rpc_init_def by blast
qed

theorem rpc_server_sound_witness:
  "\<exists>w :: string rpc_world. rpc_init w \<and> ts_connections (tcp_srv w) = live_ids w \<and>
     (\<exists>w'. rpc_turn demo_env (\<lambda>n. Inr []) w = Some w' \<and> ts_connections (tcp_srv w') = live_ids w')"
proof -
  obtain w :: "string rpc_world" where w: "rpc_init w" using demo_init by blast
  have k: "kernel_ok (env_kernel demo_env)" by (simp add: demo_env_def calm_kernel_ok)
  have "ready (\<lambda>n. Inr []) w = []" by (simp add: ready_def poll_def Let_def)
  then have "reports_live (\<lambda>n. Inr []) w" "ids_left (\<lambda>n. Inr []) w"
    using unat_u64_less [of "ts_next_conn_id (tcp_srv w)"] by (simp_all add: reports_live_def ids_left_def)
  then show ?thesis using rpc_server_sound [OF k reach_init [of rpc_init, OF w]] w by blast
qed

text \<open>
  C6. Every request is answered exactly once: when the bytes of any number of requests have
  arrived on a connection, the message callback succeeds; then, for every number of workers
  and every order in which they take and finish the queued tasks, once they are idle one run
  of the loop's closures has sent, as a multiset of responses, exactly the specified answer
  to each frame that is a request, each framed in full on the connection's output stream;
  and such a schedule exists.
\<close>

theorem requests_answered_once:
  assumes "write_ok (env_kernel E)" "write_no_error (env_kernel E)" "open_conn cid w" "\<not> tp_stop (worker_pool w)"
    and "idle_workers w" "pending_functors (the_loop w) = []" "conns w cid = Some c" "buffer_inv (tc_input c)"
    and "scan (parse_frame (Some kMaxBodySize)) (contents (tc_input c)) = (fs, None, rest)"
    and "\<forall>f \<in> set fs. parse_request (env_pb E) f \<noteq> None \<longrightarrow> answer E (rpc_services w) f \<noteq> None"
  shows "\<exists>w1. rpc_on_message E cid w = Some w1 \<and>
    (\<exists>acts w2. fold_cb (work_act E) acts w1 = Some w2 \<and> idle_workers w2) \<and>
    (\<forall>acts w2. fold_cb (work_act E) acts w1 = Some w2 \<and> idle_workers w2 \<longrightarrow>
      (\<exists>w3 rs. do_pending_functors (server_exec (env_kernel E) (rpc_cbs E) (run_rpc_functor E)) w2 = Some w3 \<and>
        out_stream cid w3 = out_stream cid w @ concat (map (reply_bytes E) rs) \<and>
        mset rs = mset (List.map_filter (answer E (rpc_services w)) fs)))"
proof -
  let ?ts = "concat (map (deferred E (rpc_services w) cid) fs)" and ?es = "concat (map (early E (rpc_services w) cid) fs)"
  obtain w1 where 1: "rpc_on_message E cid w = Some w1" "served cid w (concat (map (reply_bytes E) ?es)) ?ts w1"
    using rpc_on_message_out [OF assms(1-4,7-9)] by blast
  have good: "list_all (task_for cid) ?ts"
    using deferred_answered assms(10) by (fastforce simp: list_all_iff task_for_def)
  have ts: "tp_tasks (worker_pool w1) = ?ts" "in_flight w1 = Map.empty" using 1(2) assms(5) by (simp_all add: served_def idle_workers_def)
  have "open_conn cid w1" "out_stream cid w1 = out_stream cid w @ concat (map (reply_bytes E) ?es)" "pending_functors (the_loop w1) = []"
    using 1(2) assms(6) by (simp_all add: served_def)
  then have "settling cid (out_stream cid w @ concat (map (reply_bytes E) ?es)) (mset (List.map_filter task_result ?ts)) w1"
    using good by (simp add: settling_def owed_def ts)
  then have settled: "\<exists>w3 rs. do_pending_functors (server_exec (env_kernel E) (rpc_cbs E) (run_rpc_functor E)) w2 = Some w3 \<and>
      out_stream cid w3 = out_stream cid w @ concat (map (reply_bytes E) rs) \<and> mset rs = mset (List.map_filter (answer E (rpc_services w)) fs)"
    if run: "fold_cb (work_act E) acts w1 = Some w2" "idle_workers w2" for acts w2
  proof -
    obtain rs where w2: "open_conn cid w2" "out_stream cid w2 = out_stream cid w @ concat (map (reply_bytes E) ?es)"
      "pending_functors (the_loop w2) = map (\<lambda>r. UserFunctor (SendResponse cid r)) rs" "mset rs = mset (List.map_filter task_result ?ts)"
      using settling_run [OF \<open>settling _ _ _ w1\<close> run(1)] run(2) by (auto simp: settling_def owed_def idle_workers_def map_filter_simps)
    obtain w3 where "do_pending_functors (server_exec (env_kernel E) (rpc_cbs E) (run_rpc_functor E)) w2 = Some w3"
      "out_stream cid w3 = out_stream cid w2 @ concat (map (reply_bytes E) rs)"
      using functors_out [OF assms(1,2) w2(1,3)] by blast
    then show ?thesis
      using w2(2,4) answers_mset [of E "rpc_services w" fs cid] by (intro exI [of _ w3] exI [of _ "?es @ rs"]) simp
  qed
  obtain tid where "tid \<noteq> thread_id (the_loop w1)" using infinite_UNIV_nat by (metis (full_types) n_not_Suc_n)
  then have "\<exists>acts w2. fold_cb (work_act E) acts w1 = Some w2 \<and> idle_workers w2"
    using one_worker_settles [OF _ ts good, of tid E] by blast
  then show ?thesis using 1(1) settled by blast
qed

text \<open>A server with one open connection on which the given bytes have arrived.\<close>

definition demo_rpc :: "string \<Rightarrow> string rpc_world" where
  "demo_rpc input =
     \<lparr>the_loop = event_loop_new 1 0 (poller_new 5) 3, cur_thread = 1,
      conns = [1 \<mapsto> (tcp_connection_new 9 1 ''peer'')\<lparr>tc_state := kConnected, tc_input := append_buf input (buffer_new 8)\<rparr>],
      ticks = 0, net_log = [],
      tcp_srv = \<lparr>ts_listen_fd = 4, ts_accept_channel = channel_new accept_ptr 4, ts_next_conn_id = 2,
                 ts_connections = {1}, ts_started = True, ts_io_pool = None\<rparr>,
      rpc_services = [''demo.Echo'' \<mapsto> echo_service], worker_pool = thread_pool_new 1, in_flight = Map.empty\<rparr>"

lemma demo_rpc_open: "open_conn 1 (demo_rpc input)" "thread_id (the_loop (demo_rpc input)) = 1"
  "pending_functors (the_loop (demo_rpc input)) = []" "out_stream 1 (demo_rpc input) = []"
  by (auto simp: open_conn_def out_inv_def demo_rpc_def is_in_loop_thread_def event_loop_new_def tcp_connection_new_def
      buffer_new_inv queue_simps out_defs split: prod.split)

definition echo_request :: rpc_request where
  "echo_request = \<lparr>rq_service = ''demo.Echo'', rq_method = ''Say'', rq_id = 7, rq_args = ''hi''\<rparr>"

definition lost_request :: rpc_request where
  "lost_request = \<lparr>rq_service = ''x'', rq_method = ''Say'', rq_id = 8, rq_args = ''hi''\<rparr>"

definition demo_body :: "rpc_request \<Rightarrow> string" where
  "demo_body r = the (ser_request demo_protobuf r)"

lemma demo_body_parse: "parse_request demo_protobuf (demo_body r) = Some r"
  using demo_protobuf_ok by (simp add: demo_body_def protobuf_ok_def demo_protobuf_def)

lemma demo_bodies_ok: "list_all (body_ok (Some kMaxBodySize)) [demo_body echo_request, demo_body lost_request]"
  by (simp add: demo_body_def demo_protobuf_def put_str_def body_ok_def kMaxBodySize_def echo_request_def lost_request_def)

theorem requests_answered_once_witness:
  "\<exists>w1. rpc_on_message demo_env 1 (demo_rpc (wire_frame (demo_body echo_request) @ wire_frame (demo_body lost_request))) = Some w1 \<and>
     (\<exists>acts w2 w3 rs. fold_cb (work_act demo_env) acts w1 = Some w2 \<and>
       do_pending_functors (server_exec calm_kernel (rpc_cbs demo_env) (run_rpc_functor demo_env)) w2 = Some w3 \<and>
       out_stream 1 w3 = concat (map (reply_bytes demo_env) rs) \<and>
       mset rs = {#\<lparr>rs_id = 7, rs_success = True, rs_result = ''hi'', rs_error = []\<rparr>, error_response 8 ''service not found: x''#})"
proof -
  let ?in = "wire_frame (demo_body echo_request) @ wire_frame (demo_body lost_request)"
  let ?w = "demo_rpc ?in"
  obtain c where c: "conns ?w 1 = Some c" "buffer_inv (tc_input c)" "contents (tc_input c) = ?in"
    by (simp add: demo_rpc_def append_buf_inv buffer_new_inv queue_simps)
  have sc: "scan (parse_frame (Some kMaxBodySize)) (contents (tc_input c)) = ([demo_body echo_request, demo_body lost_request], None, [])"
    using srv.scan_frames [OF demo_bodies_ok, of "[]"] srv.scan_incomplete [OF srv.empty_incomplete] c(3) by simp
  have e: "env_kernel demo_env = calm_kernel" "env_pb demo_env = demo_protobuf" by (simp_all add: demo_env_def)
  have sv: "rpc_services ?w = [''demo.Echo'' \<mapsto> echo_service]" "idle_workers ?w" "\<not> tp_stop (worker_pool ?w)"
    by (simp_all add: demo_rpc_def thread_pool_new_def idle_workers_def)
  have a1: "answer demo_env (rpc_services ?w) (demo_body echo_request) =
      Some \<lparr>rs_id = 7, rs_success = True, rs_result = ''hi'', rs_error = []\<rparr>"
    by (simp add: answer_def e sv demo_body_parse) (simp add: echo_request_def echo_service_def response_of_def controller_new_def)
  have a2: "answer demo_env (rpc_services ?w) (demo_body lost_request) = Some (error_response 8 ''service not found: x'')"
    by (simp add: answer_def e sv demo_body_parse) (simp add: lost_request_def)
  have a: "\<forall>f \<in> set [demo_body echo_request, demo_body lost_request].
      parse_request (env_pb demo_env) f \<noteq> None \<longrightarrow> answer demo_env (rpc_services ?w) f \<noteq> None"
    using a1 a2 by simp
  have "mset (List.map_filter (answer demo_env (rpc_services ?w)) [demo_body echo_request, demo_body lost_request]) =
      {#\<lparr>rs_id = 7, rs_success = True, rs_result = ''hi'', rs_error = []\<rparr>, error_response 8 ''service not found: x''#}"
    using a1 a2 by (simp add: map_filter_simps)
  with requests_answered_once [of demo_env, unfolded e, OF calm_kernel_ok(2,3) demo_rpc_open(1) sv(3,2) demo_rpc_open(3) c(1,2) sc a [unfolded e]]
  show ?thesis by (simp add: demo_rpc_open(4)) blast
qed

end
