(* ===== verification/Rpc_Channel.thy ===== *)
theory Rpc_Channel
  imports Rpc_Messages Codec
begin

text \<open>
  \<^verbatim>\<open>rpc/rpc_channel.h\<close>, \<^verbatim>\<open>rpc/rpc_channel.cpp\<close> and \<^verbatim>\<open>rpc/service_proxy.h\<close>: the client. Callers run
  \<^verbatim>\<open>CallMethod\<close> on their own threads, a detached thread reads the socket. Each call is a sequence of
  steps separated where other threads can run: taking an id, entering the table of pending
  calls, writing the request, waiting. The controller, the response and the closure a
  caller passes are its own, so they are fields of its call. The reader's framing is the
  codec's without the limit on the body, another interpretation of the locale \<open>framing\<close>.
\<close>

section \<open>The class\<close>

record pending_call =
  pc_controller :: rpc_controller
  pc_response :: "string option"
  pc_done :: bool
  pc_done_runs :: nat
  pc_done_flag :: bool

text \<open>Where the thread of a call is; \<open>Async\<close> is a call with a closure that has returned.\<close>

datatype call_pc = NotCalled | GotId u32 | Registered u32 | Waiting u32 | Async u32 | Finished "u32 option"

text \<open>
  \<open>rc_wire\<close> is what the socket has taken; \<open>rc_issued\<close> and \<open>rc_received\<close> only record, for the
  theorems, how many ids were given out and which responses were parsed.
\<close>

record rpc_client =
  rc_sockfd :: int
  rc_connected :: bool
  rc_next_request_id :: u32
  rc_pending_calls :: "u32 \<rightharpoonup> nat"
  rc_calls :: "nat \<Rightarrow> pending_call"
  rc_pcs :: "nat \<Rightarrow> call_pc"
  rc_reading :: bool
  rc_in_read :: bool
  rc_buf :: buffer
  rc_closed :: "int list"
  rc_wire :: string
  rc_issued :: nat
  rc_received :: "rpc_response list"

definition call_new :: "bool \<Rightarrow> pending_call" where
  "call_new done = \<lparr>pc_controller = controller_new, pc_response = None, pc_done = done, pc_done_runs = 0, pc_done_flag = False\<rparr>"

definition rpc_channel_new :: "(nat \<Rightarrow> bool) \<Rightarrow> rpc_client" where
  "rpc_channel_new done =
     \<lparr>rc_sockfd = -1, rc_connected = False, rc_next_request_id = 1, rc_pending_calls = Map.empty,
      rc_calls = (\<lambda>k. call_new (done k)), rc_pcs = (\<lambda>k. NotCalled), rc_reading = False, rc_in_read = False, rc_buf = buffer_new kInitialSize,
      rc_closed = [], rc_wire = [], rc_issued = 0, rc_received = []\<rparr>"

definition upd_call :: "nat \<Rightarrow> (pending_call \<Rightarrow> pending_call) \<Rightarrow> rpc_client \<Rightarrow> rpc_client" where
  "upd_call k f w = w\<lparr>rc_calls := (rc_calls w)(k := f (rc_calls w k))\<rparr>"

definition set_pc :: "nat \<Rightarrow> call_pc \<Rightarrow> rpc_client \<Rightarrow> rpc_client" where
  "set_pc k pc w = w\<lparr>rc_pcs := (rc_pcs w)(k := pc)\<rparr>"

text \<open>\<^verbatim>\<open>if (done) done->Run()\<close>.\<close>

definition run_done :: "pending_call \<Rightarrow> pending_call" where
  "run_done c = (if pc_done c then c\<lparr>pc_done_runs := pc_done_runs c + 1\<rparr> else c)"

definition fail_call :: "string \<Rightarrow> pending_call \<Rightarrow> pending_call" where
  "fail_call reason c = c\<lparr>pc_controller := SetFailed reason (pc_controller c)\<rparr>"

section \<open>Connecting\<close>

record connect_calls =
  cc_socket :: int
  cc_connect :: "int \<Rightarrow> string \<Rightarrow> u16 \<Rightarrow> int option"
  cc_poll :: "int \<Rightarrow> int"
  cc_so_error :: int

definition EINPROGRESS :: int where "EINPROGRESS = 115"

definition close_sock :: "rpc_client \<Rightarrow> rpc_client" where
  "close_sock w = w\<lparr>rc_closed := rc_closed w @ [rc_sockfd w], rc_sockfd := -1\<rparr>"

text \<open>\<open>cc_connect\<close> answers for \<^verbatim>\<open>connect()\<close> to a host and port: an error number, or success.\<close>

definition channel_connect :: "connect_calls \<Rightarrow> string \<Rightarrow> u16 \<Rightarrow> int \<Rightarrow> rpc_client \<Rightarrow> bool \<times> rpc_client" where
  "channel_connect C host port timeout_ms w =
     (let w1 = w\<lparr>rc_sockfd := cc_socket C\<rparr>;
          started = w1\<lparr>rc_connected := True, rc_reading := True, rc_in_read := False, rc_buf := buffer_new kInitialSize\<rparr> in
      if cc_socket C < 0 then (False, w1)
      else case cc_connect C (cc_socket C) host port of
        Some errno \<Rightarrow>
          if errno \<noteq> EINPROGRESS then (False, close_sock w1)
          else if cc_poll C timeout_ms \<le> 0 then (False, close_sock w1)
          else if cc_so_error C \<noteq> 0 then (False, close_sock w1)
          else (True, started)
      | None \<Rightarrow> (True, started))"

definition is_connected :: "rpc_client \<Rightarrow> bool" where
  "is_connected w = rc_connected w"

definition disconnect :: "rpc_client \<Rightarrow> rpc_client" where
  "disconnect w = (if rc_connected w then close_sock (w\<lparr>rc_connected := False\<rparr>) else w)"

definition rpc_channel_destroy :: "rpc_client \<Rightarrow> rpc_client" where
  "rpc_channel_destroy w = disconnect w"

text \<open>\<^verbatim>\<open>RpcChannel::on_connection\<close>, which nothing calls.\<close>

definition channel_on_connection :: "bool \<Rightarrow> rpc_client \<Rightarrow> rpc_client" where
  "channel_on_connection conn_connected w = w\<lparr>rc_connected := conn_connected\<rparr>"

section \<open>Calling\<close>

text \<open>Up to the id: a call on a closed channel fails at once.\<close>

definition call_start :: "nat \<Rightarrow> rpc_client \<Rightarrow> rpc_client" where
  "call_start k w =
     (if \<not> is_connected w then set_pc k (Finished None) (upd_call k (run_done \<circ> fail_call ''not connected'') w)
      else set_pc k (GotId (rc_next_request_id w))
             (w\<lparr>rc_next_request_id := rc_next_request_id w + 1, rc_issued := rc_issued w + 1\<rparr>))"

definition call_register :: "nat \<Rightarrow> u32 \<Rightarrow> rpc_client \<Rightarrow> rpc_client" where
  "call_register k rid w =
     set_pc k (Registered rid) (w\<lparr>rc_pending_calls := (rc_pending_calls w)(rid \<mapsto> k)\<rparr>)"

text \<open>The bytes of a request; a failed serialisation leaves the body empty.\<close>

definition request_wire :: "endian \<Rightarrow> protobuf \<Rightarrow> rpc_request \<Rightarrow> string" where
  "request_wire e P req =
     (let body = (case ser_request P req of None \<Rightarrow> [] | Some b \<Rightarrow> b);
          magic_net = htonl e kMagicNumber;
          body_len_net = htonl e (of_nat (length body))
      in store_u32 e magic_net @ store_u32 e body_len_net @ body)"

text \<open>The write: \<open>taken\<close> is the number of bytes the socket took, \<^const>\<open>None\<close> an error.\<close>

definition call_write :: "endian \<Rightarrow> protobuf \<Rightarrow> nat option \<Rightarrow> nat \<Rightarrow> rpc_request \<Rightarrow> rpc_client \<Rightarrow> rpc_client" where
  "call_write e P taken k req w =
     (case taken of
        None \<Rightarrow>
          set_pc k (Finished (Some (rq_id req)))
            (upd_call k (run_done \<circ> fail_call ''write failed'')
              (w\<lparr>rc_pending_calls := (rc_pending_calls w)(rq_id req := None)\<rparr>))
      | Some n \<Rightarrow>
          set_pc k (if pc_done (rc_calls w k) then Async (rq_id req) else Waiting (rq_id req))
            (w\<lparr>rc_wire := rc_wire w @ take n (request_wire e P req)\<rparr>))"

section \<open>Receiving\<close>

definition channel_on_message :: "protobuf \<Rightarrow> rpc_client \<Rightarrow> string \<Rightarrow> rpc_client" where
  "channel_on_message P w frame =
     (case parse_response P frame of
        None \<Rightarrow> w
      | Some resp \<Rightarrow>
          let w0 = w\<lparr>rc_received := rc_received w @ [resp]\<rparr> in
          (case rc_pending_calls w0 (rs_id resp) of
             None \<Rightarrow> w0
           | Some k \<Rightarrow>
               let w1 = w0\<lparr>rc_pending_calls := (rc_pending_calls w0)(rs_id resp := None)\<rparr>;
                   w2 = upd_call k (if rs_success resp then (\<lambda>c. c\<lparr>pc_response := Some (rs_result resp)\<rparr>)
                                    else fail_call (rs_error resp)) w1;
                   w3 = upd_call k (\<lambda>c. c\<lparr>pc_done_flag := True\<rparr>) w2
               in upd_call k run_done w3))"

text \<open>
  The frame loop of the reader; the flag is false when it returns from the thread. \<^const>\<open>None\<close> is a
  failed assertion of the buffer.
\<close>

function reader_loop :: "endian \<Rightarrow> protobuf \<Rightarrow> buffer \<Rightarrow> rpc_client \<Rightarrow> (bool \<times> buffer \<times> rpc_client) option" where
  "reader_loop e P b w =
     (if readable b < kHeaderSize then Some (True, b, w)
      else if ntohl e (load_u32 e (take 4 (peek b))) \<noteq> kMagicNumber then
        Some (False, b, w\<lparr>rc_connected := False\<rparr>)
      else
        let body_len = unat (ntohl e (load_u32 e (take 4 (drop 4 (peek b))))) in
        if readable b < kHeaderSize + body_len then Some (True, b, w)
        else
          case retrieve kHeaderSize b of None \<Rightarrow> None
          | Some b1 \<Rightarrow>
              (case retrieve_as_string body_len b1 of None \<Rightarrow> None
               | Some (frame, b2) \<Rightarrow> reader_loop e P b2 (channel_on_message P w frame)))"
  by pat_completeness auto
termination
proof (relation "measure (\<lambda>(e, P, b, w). readable b)", goal_cases)
  case 1
  show ?case by simp
next
  case (2 e P b w body_len b1 r frame b2)
  have "readable b1 < readable b"
    using 2(1) \<open>retrieve kHeaderSize b = Some b1\<close>
    by (auto simp: retrieve_def Let_def kHeaderSize_def readable_def reset_def split: if_splits)
  moreover have "readable b2 \<le> readable b1"
    using \<open>retrieve_as_string body_len b1 = Some r\<close> \<open>(frame, b2) = r\<close>
    by (auto simp: retrieve_as_string_def retrieve_def Let_def readable_def reset_def
        bind_eq_Some_conv split: if_splits)
  ultimately show ?case by simp
qed

declare reader_loop.simps [simp del]

text \<open>What the reader does to the pending calls at the end of the stream.\<close>

definition fail_pending :: "rpc_client \<Rightarrow> rpc_client" where
  "fail_pending w =
     w\<lparr>rc_calls := (\<lambda>k. if k \<in> ran (rc_pending_calls w)
                      then (fail_call ''connection closed'' (rc_calls w k))\<lparr>pc_done_flag := True\<rparr>
                      else rc_calls w k)\<rparr>"

text \<open>
  The reader thread alternates between the test of \<^verbatim>\<open>connected_\<close> and the read that may block:
  other threads run in between, \<^verbatim>\<open>disconnect\<close> among them. \<open>rc_in_read\<close> says that it has passed the
  test, \<open>rc_reading\<close> that it has not left its loop.
\<close>

definition reader_check :: "rpc_client \<Rightarrow> rpc_client" where
  "reader_check w = (if rc_connected w then w\<lparr>rc_in_read := True\<rparr> else w\<lparr>rc_reading := False\<rparr>)"

definition reader_read :: "endian \<Rightarrow> protobuf \<Rightarrow> readv_call \<Rightarrow> rpc_client \<Rightarrow> rpc_client option" where
  "reader_read e P readv w =
     (case read_fd readv (rc_buf w) of
        (Inl saved, b) \<Rightarrow> Some ((fail_pending (w\<lparr>rc_connected := False\<rparr>))\<lparr>rc_reading := False\<rparr>)
      | (Inr n, b) \<Rightarrow>
          if n = 0 then Some ((fail_pending (w\<lparr>rc_connected := False\<rparr>))\<lparr>rc_reading := False\<rparr>)
          else do { (go_on, b1, w1) \<leftarrow> reader_loop e P b w;
                    Some (w1\<lparr>rc_buf := b1, rc_reading := go_on, rc_in_read := False\<rparr>) })"

text \<open>A round that no other thread interrupts.\<close>

definition reader_round :: "endian \<Rightarrow> protobuf \<Rightarrow> readv_call \<Rightarrow> rpc_client \<Rightarrow> rpc_client option" where
  "reader_round e P readv w =
     (if rc_connected w then reader_read e P readv (reader_check w) else Some (reader_check w))"

section \<open>ServiceProxy\<close>

definition service_proxy_new :: "connect_calls \<Rightarrow> string \<Rightarrow> u16 \<Rightarrow> int \<Rightarrow> (nat \<Rightarrow> bool) \<Rightarrow> string + rpc_client" where
  "service_proxy_new C host port timeout_ms done =
     (case channel_connect C host port timeout_ms (rpc_channel_new done) of
        (True, w) \<Rightarrow> Inr w
      | (False, w) \<Rightarrow> Inl (''RpcChannel: connect failed to '' @ host @ '':'' @ decimal (unat port)))"

text \<open>The proxy's destructor disconnects, and then that of its channel does again, to no effect.\<close>

definition service_proxy_destroy :: "rpc_client \<Rightarrow> rpc_client" where
  "service_proxy_destroy w = rpc_channel_destroy (disconnect w)"

lemma proxy_disconnects_once: "service_proxy_destroy w = disconnect w"
  by (simp add: service_proxy_destroy_def rpc_channel_destroy_def disconnect_def close_sock_def)

section \<open>The client as a machine\<close>

text \<open>
  The steps of callers, reader and \<^verbatim>\<open>disconnect\<close>. \<open>req k\<close> is the service, method and arguments of
  call \<open>k\<close>. A server answers only what was sent: the ids of the responses the reader gets are
  ids of requests that were written. Fewer than \<open>2\<^sup>3\<^sup>2\<close> calls are made on one channel.
\<close>

fun call_id :: "call_pc \<Rightarrow> u32 option" where
  "call_id NotCalled = None"
| "call_id (GotId i) = Some i"
| "call_id (Registered i) = Some i"
| "call_id (Waiting i) = Some i"
| "call_id (Async i) = Some i"
| "call_id (Finished i) = i"

fun sent_id :: "call_pc \<Rightarrow> u32 option" where
  "sent_id (Waiting i) = Some i"
| "sent_id (Async i) = Some i"
| "sent_id (Finished i) = i"
| "sent_id _ = None"

definition answers_sent :: "protobuf \<Rightarrow> string list \<Rightarrow> rpc_client \<Rightarrow> bool" where
  "answers_sent P frames w \<longleftrightarrow>
     (\<forall>f \<in> set frames. \<forall>resp. parse_response P f = Some resp \<longrightarrow> (\<exists>k. sent_id (rc_pcs w k) = Some (rs_id resp)))"

definition request_of :: "(nat \<Rightarrow> string \<times> string \<times> string) \<Rightarrow> nat \<Rightarrow> u32 \<Rightarrow> rpc_request" where
  "request_of req k rid =
     (case req k of (service, mth, args) \<Rightarrow> \<lparr>rq_service = service, rq_method = mth, rq_id = rid, rq_args = args\<rparr>)"

definition client_init :: "rpc_client \<Rightarrow> bool" where
  "client_init w \<longleftrightarrow> (\<exists>C host port timeout done. channel_connect C host port timeout (rpc_channel_new done) = (True, w))"

inductive client_step :: "endian \<Rightarrow> protobuf \<Rightarrow> (nat \<Rightarrow> string \<times> string \<times> string) \<Rightarrow> rpc_client \<Rightarrow> rpc_client \<Rightarrow> bool"
  for e P req where
  starts: "rc_pcs w k = NotCalled \<Longrightarrow> rc_issued w + 1 < 2 ^ 32 \<Longrightarrow> client_step e P req w (call_start k w)"
| registers: "rc_pcs w k = GotId i \<Longrightarrow> client_step e P req w (call_register k i w)"
| writes: "rc_pcs w k = Registered i \<Longrightarrow> client_step e P req w (call_write e P taken k (request_of req k i) w)"
| wakes: "rc_pcs w k = Waiting i \<Longrightarrow> pc_done_flag (rc_calls w k) \<Longrightarrow> client_step e P req w (set_pc k (Finished (Some i)) w)"
| checks: "rc_reading w \<Longrightarrow> \<not> rc_in_read w \<Longrightarrow> client_step e P req w (reader_check w)"
| reads: "rc_reading w \<Longrightarrow> rc_in_read w \<Longrightarrow> readv_ok readv \<Longrightarrow>
    (\<And>bs. readv (read_iov (rc_buf w)) = Inr bs \<Longrightarrow>
      answers_sent P (fst (scan (parse_frame None) (contents (rc_buf w) @ bs))) w) \<Longrightarrow>
    reader_read e P readv w = Some w' \<Longrightarrow> client_step e P req w w'"
| disconnects: "client_step e P req w (disconnect w)"

section \<open>The reader's framing\<close>

interpretation cl: framing "parse_frame None" wire_frame "body_ok None"
  by (rule parse_frame_framing)

lemma reader_loop_unfold:
  assumes b: "buffer_inv b"
  shows "case parse_frame None (contents b) of
      Incomplete \<Rightarrow> reader_loop e P b w = Some (True, b, w)
    | Malformed m \<Rightarrow> reader_loop e P b w = Some (False, b, w\<lparr>rc_connected := False\<rparr>)
    | Parsed f r \<Rightarrow> \<exists>b'. buffer_inv b' \<and> contents b' = r \<and> reader_loop e P b w = reader_loop e P b' (channel_on_message P w f)"
proof (cases "kHeaderSize \<le> readable b")
  case False
  then show ?thesis using b by (simp add: parse_frame_def length_contents reader_loop.simps [of e P b w])
next
  case True
  note hdr = peek_header [OF b True]
  have len: "length (contents b) = readable b" using b by (rule length_contents)
  show ?thesis
  proof (cases "parse_frame None (contents b)")
    case (Parsed f r)
    from frame_retrieved [OF b Parsed] obtain b1 b2 where b2: "retrieve kHeaderSize b = Some b1"
      "retrieve_as_string (unat (be_value (take 4 (drop 4 (contents b))))) b1 = Some (f, b2)" "buffer_inv b2" "contents b2 = r"
      by blast
    have "reader_loop e P b w = reader_loop e P b2 (channel_on_message P w f)"
      using Parsed True len b2(1,2)
      by (subst reader_loop.simps) (auto simp: hdr Let_def parse_frame_def split: if_splits)
    then show ?thesis using Parsed b2(3,4) by auto
  qed (use True len in \<open>auto simp: parse_frame_def Let_def reader_loop.simps [of e P b w] hdr split: if_splits\<close>)
qed

text \<open>The loop hands the frames of the stream to \<^verbatim>\<open>on_message\<close> and stops the thread at a malformed one.\<close>

lemma reader_loop_spec:
  assumes "buffer_inv b" "scan (parse_frame None) (contents b) = (fs, err, rest)"
  shows "\<exists>b'. reader_loop e P b w = Some (err = None, b',
      (foldl (channel_on_message P) w fs)\<lparr>rc_connected := err = None \<and> rc_connected (foldl (channel_on_message P) w fs)\<rparr>) \<and>
    buffer_inv b' \<and> contents b' = rest"
  using assms
proof (induction "length (contents b)" arbitrary: b w fs rule: less_induct)
  case less
  note unf = reader_loop_unfold [OF less.prems(1), of e P w]
  show ?case
  proof (cases "parse_frame None (contents b)")
    case Incomplete
    then show ?thesis using unf less.prems by (auto simp: scan.simps [of _ "contents b"])
  next
    case (Malformed m)
    then show ?thesis using unf less.prems by (auto simp: scan.simps [of _ "contents b"])
  next
    case (Parsed f r)
    then obtain b' where b': "buffer_inv b'" "contents b' = r" "reader_loop e P b w = reader_loop e P b' (channel_on_message P w f)"
      using unf by auto
    obtain gs where gs: "scan (parse_frame None) (contents b') = (gs, err, rest)" "fs = f # gs"
      using cl.scan_parsed [OF Parsed] less.prems(2) b'(2) by (cases "scan (parse_frame None) r") auto
    have "length (contents b') < length (contents b)" using cl.shrinks [OF Parsed] b'(2) by simp
    from less.hyps [OF this b'(1) gs(1), of "channel_on_message P w f"] show ?thesis using b'(3) gs(2) by simp
  qed
qed

lemma reader_read_frames:
  assumes "buffer_inv (rc_buf w)" "readv_ok readv" "readv (read_iov (rc_buf w)) = Inr bs" "bs \<noteq> []"
    "scan (parse_frame None) (contents (rc_buf w) @ bs) = (fs, err, rest)"
  shows "\<exists>b'. reader_read e P readv w =
      Some ((foldl (channel_on_message P) w fs)\<lparr>rc_connected := err = None \<and> rc_connected (foldl (channel_on_message P) w fs),
              rc_buf := b', rc_reading := (err = None), rc_in_read := False\<rparr>) \<and> buffer_inv b' \<and> contents b' = rest"
proof -
  obtain b where b: "read_fd readv (rc_buf w) = (Inr (length bs), b)" "buffer_inv b" "contents b = contents (rc_buf w) @ bs"
    using read_fd_Inr [OF assms(1-3)] by blast
  from reader_loop_spec [OF b(2), of fs err rest e P w] b(3) assms(5) obtain b' where
    "reader_loop e P b w = Some (err = None, b',
      (foldl (channel_on_message P) w fs)\<lparr>rc_connected := err = None \<and> rc_connected (foldl (channel_on_message P) w fs)\<rparr>)"
    "buffer_inv b'" "contents b' = rest" by auto
  then show ?thesis using b(1) assms(4) by (auto simp: reader_read_def)
qed

lemma request_wire_frame: "ser_request P req = Some body \<Longrightarrow> request_wire e P req = wire_frame body"
  by (simp add: request_wire_def Let_def wire_frame_def store_htonl)

lemma request_of_fields:
  "rq_id (request_of req k i) = i"
  "req k = (name, meth, args) \<Longrightarrow> rq_service (request_of req k i) = name"
  "req k = (name, meth, args) \<Longrightarrow> rq_method (request_of req k i) = meth"
  "req k = (name, meth, args) \<Longrightarrow> rq_args (request_of req k i) = args"
  by (simp_all add: request_of_def split: prod.split)

text \<open>
  A short write counts as a success: the call waits, but what reached the server is no request,
  and the server waits for the rest of it.
\<close>

lemma short_write_lost:
  assumes "ser_request P r = Some body" "length body \<le> kMaxBodySize" "n < length (request_wire e P r)" "rc_wire w = []"
  shows "scan (parse_frame (Some kMaxBodySize)) (rc_wire (call_write e P (Some n) k r w)) = ([], None, take n (request_wire e P r)) \<and>
    rc_pcs (call_write e P (Some n) k r w) k = (if pc_done (rc_calls w k) then Async (rq_id r) else Waiting (rq_id r))"
proof -
  have "body_ok (Some kMaxBodySize) body" using assms(2) by (simp add: body_ok_def kMaxBodySize_def)
  then have "parse_frame (Some kMaxBodySize) (take n (request_wire e P r)) = Incomplete"
    by (rule parse_frame_prefix [where zs = "drop n (request_wire e P r)"]) (use assms(3) in \<open>simp_all add: request_wire_frame [OF assms(1)]\<close>)
  then show ?thesis using assms(4) by (simp add: call_write_def set_pc_def srv.scan_incomplete)
qed

section \<open>The invariant of the client\<close>

definition ids_ok :: "rpc_client \<Rightarrow> bool" where
  "ids_ok w \<longleftrightarrow> rc_next_request_id w = of_nat (rc_issued w + 1) \<and> rc_issued w < 2 ^ 32 \<and> buffer_inv (rc_buf w) \<and>
     (\<forall>k i. call_id (rc_pcs w k) = Some i \<longrightarrow> 1 \<le> unat i \<and> unat i \<le> rc_issued w) \<and>
     (\<forall>k k' i. call_id (rc_pcs w k) = Some i \<and> call_id (rc_pcs w k') = Some i \<longrightarrow> k = k') \<and>
     (\<forall>m \<in> set (rc_received w). \<exists>k. sent_id (rc_pcs w k) = Some (rs_id m))"

fun early_pc :: "call_pc \<Rightarrow> bool" where
  "early_pc NotCalled = True"
| "early_pc (GotId i) = True"
| "early_pc (Registered i) = True"
| "early_pc _ = False"

fun open_id :: "call_pc \<Rightarrow> u32 option" where
  "open_id (Registered i) = Some i"
| "open_id (Waiting i) = Some i"
| "open_id (Async i) = Some i"
| "open_id _ = None"

fun past_register :: "call_pc \<Rightarrow> bool" where
  "past_register NotCalled = False"
| "past_register (GotId i) = False"
| "past_register _ = True"

text \<open>The outcome of a call: a response with its own id, or a failed controller.\<close>

definition has_outcome :: "pending_call \<Rightarrow> bool" where
  "has_outcome c \<longleftrightarrow> pc_response c \<noteq> None \<or> ctl_failed (pc_controller c)"

definition call_ok :: "rpc_client \<Rightarrow> nat \<Rightarrow> bool" where
  "call_ok w k \<longleftrightarrow>
     pc_done_runs (rc_calls w k) \<le> 1 \<and>
     (early_pc (rc_pcs w k) \<longrightarrow> pc_done_runs (rc_calls w k) = 0 \<and> pc_response (rc_calls w k) = None) \<and>
     (\<not> past_register (rc_pcs w k) \<longrightarrow> \<not> pc_done_flag (rc_calls w k)) \<and>
     (\<forall>r. pc_response (rc_calls w k) = Some r \<longrightarrow>
        (\<exists>m \<in> set (rc_received w). call_id (rc_pcs w k) = Some (rs_id m) \<and> rs_success m \<and> rs_result m = r)) \<and>
     (pc_done_flag (rc_calls w k) \<longrightarrow> has_outcome (rc_calls w k)) \<and>
     (\<forall>i. rc_pcs w k = Finished i \<longrightarrow> has_outcome (rc_calls w k)) \<and>
     (\<forall>i. open_id (rc_pcs w k) = Some i \<and> \<not> pc_done_flag (rc_calls w k) \<longrightarrow> rc_pending_calls w i = Some k) \<and>
     (\<forall>i. rc_pending_calls w i = Some k \<longrightarrow> call_id (rc_pcs w k) = Some i \<and> past_register (rc_pcs w k) \<and>
        pc_done_runs (rc_calls w k) = 0 \<and> (rc_reading w \<longrightarrow> \<not> pc_done_flag (rc_calls w k))) \<and>
     (\<forall>m \<in> set (rc_received w). rc_pcs w k = Waiting (rs_id m) \<or> rc_pcs w k = Async (rs_id m) \<longrightarrow>
        pc_done_flag (rc_calls w k))"

definition client_inv :: "rpc_client \<Rightarrow> bool" where
  "client_inv w \<longleftrightarrow> ids_ok w \<and> (\<forall>k. call_ok w k)"

lemmas client_simps = upd_call_def set_pc_def run_done_def fail_call_def SetFailed_def has_outcome_def

lemma client_inv_unique:
  "client_inv w \<Longrightarrow> call_id (rc_pcs w k) = Some i \<Longrightarrow> call_id (rc_pcs w k') = Some i \<Longrightarrow> k = k'"
  by (auto simp: client_inv_def ids_ok_def)

lemma client_inv_pending:
  assumes "client_inv w" "rc_pending_calls w i = Some k"
  shows "call_id (rc_pcs w k) = Some i \<and> past_register (rc_pcs w k) \<and> pc_done_runs (rc_calls w k) = 0 \<and>
    (rc_reading w \<longrightarrow> \<not> pc_done_flag (rc_calls w k))"
  using assms unfolding client_inv_def call_ok_def by blast

lemma pending_other:
  assumes "client_inv w" "call_id (rc_pcs w k) = Some i" "k' \<noteq> k" shows "rc_pending_calls w i \<noteq> Some k'"
  using client_inv_pending [OF assms(1)] client_inv_unique [OF assms(1)] assms(2,3) by blast

lemma sent_call_id: "sent_id pc = Some i \<Longrightarrow> call_id pc = Some i"
  by (cases pc) auto

lemma open_call_id: "open_id pc = Some i \<Longrightarrow> call_id pc = Some i"
  by (cases pc) auto

text \<open>A call's invariant only looks at its own state, its own id's entry and the responses.\<close>

lemma call_ok_cong:
  assumes ok: "call_ok w k" and "rc_calls w' k = rc_calls w k" "rc_pcs w' k = rc_pcs w k" "rc_received w' = rc_received w"
    and pend: "\<And>i. rc_pending_calls w' i = Some k \<longleftrightarrow> rc_pending_calls w i = Some k" and "rc_reading w' \<longrightarrow> rc_reading w"
  shows "call_ok w' k"
  unfolding call_ok_def assms(2-4) pend using ok [unfolded call_ok_def] assms(6) by blast

lemma ids_ok_pc:
  assumes ok: "ids_ok w" and pcs: "rc_pcs w' = (rc_pcs w)(k := pc)" and cid: "call_id pc = call_id (rc_pcs w k)"
    and sid: "sent_id (rc_pcs w k) = None \<or> sent_id pc = sent_id (rc_pcs w k)"
    and same: "rc_next_request_id w' = rc_next_request_id w" "rc_issued w' = rc_issued w" "rc_buf w' = rc_buf w"
      "rc_received w' = rc_received w"
  shows "ids_ok w'"
proof -
  have c: "call_id (rc_pcs w' j) = call_id (rc_pcs w j)" for j using pcs cid by simp
  have s: "sent_id (rc_pcs w' j) = Some i" if "sent_id (rc_pcs w j) = Some i" for i j
    using pcs sid that by (cases "j = k") auto
  show ?thesis unfolding ids_ok_def c same using ok [unfolded ids_ok_def] s by blast
qed

lemma ids_ok_new_id:
  assumes ok: "ids_ok w" and pc: "rc_pcs w k = NotCalled" and n: "rc_issued w + 1 < 2 ^ 32"
    and w': "w' = set_pc k (GotId (rc_next_request_id w))
      (w\<lparr>rc_next_request_id := rc_next_request_id w + 1, rc_issued := rc_issued w + 1\<rparr>)"
  shows "ids_ok w'"
proof -
  let ?i = "rc_next_request_id w"
  have "?i = of_nat (rc_issued w + 1)" using ok by (simp add: ids_ok_def)
  then have u: "unat ?i = rc_issued w + 1" using unat_of_nat_u32 [OF n] by (simp only:)
  have old: "1 \<le> unat i \<and> unat i \<le> rc_issued w" if "call_id (rc_pcs w j) = Some i" for i j
    using ok that by (auto simp: ids_ok_def)
  have uniq: "j = j'" if "call_id (rc_pcs w j) = Some i" "call_id (rc_pcs w j') = Some i" for i j j'
    using ok that unfolding ids_ok_def by blast
  have c: "call_id (rc_pcs w' j) = (if j = k then Some ?i else call_id (rc_pcs w j))" for j using w' by (simp add: set_pc_def)
  have s: "sent_id (rc_pcs w' j) = Some i" if "sent_id (rc_pcs w j) = Some i" for i j
    using that pc w' by (cases "j = k") (auto simp: set_pc_def)
  have r: "rc_received w' = rc_received w" using w' by (simp add: set_pc_def)
  have "rc_next_request_id w' = of_nat (rc_issued w' + 1)" using ok w' by (simp add: ids_ok_def set_pc_def)
  moreover have "1 \<le> unat i \<and> unat i \<le> rc_issued w'" if "call_id (rc_pcs w' j) = Some i" for i j
    using that old [of j i] u w' unfolding c by (auto simp: set_pc_def split: if_splits)
  moreover have "j = j'" if "call_id (rc_pcs w' j) = Some i" "call_id (rc_pcs w' j') = Some i" for i j j'
    using that old [of j i] old [of j' i] u uniq [of j i j'] unfolding c by (cases "j = k"; cases "j' = k") auto
  moreover have "\<exists>j. sent_id (rc_pcs w' j) = Some (rs_id m)" if "m \<in> set (rc_received w')" for m
    using that ok [unfolded ids_ok_def] s unfolding r by blast
  moreover have "rc_issued w' < 2 ^ 32" "buffer_inv (rc_buf w')" using n ok w' by (simp_all add: ids_ok_def set_pc_def)
  ultimately show ?thesis unfolding ids_ok_def by blast
qed

lemma early_facts:
  assumes "call_ok w k" "\<not> past_register (rc_pcs w k)"
  shows "pc_done_runs (rc_calls w k) = 0" "pc_response (rc_calls w k) = None" "\<not> pc_done_flag (rc_calls w k)"
    "rc_pending_calls w j \<noteq> Some k"
  using assms by (cases "rc_pcs w k"; simp add: call_ok_def)+

lemma start_inv:
  assumes inv: "client_inv w" and pc: "rc_pcs w k = NotCalled" and n: "rc_issued w + 1 < 2 ^ 32"
  shows "client_inv (call_start k w)"
proof -
  let ?w = "call_start k w"
  have ids: "ids_ok w" and ok: "call_ok w j" for j using inv by (simp_all add: client_inv_def)
  have "ids_ok ?w"
  proof (cases "rc_connected w")
    case False
    show ?thesis
      by (rule ids_ok_pc [OF ids, of ?w k "Finished None"]) (simp_all add: False pc call_start_def is_connected_def client_simps)
  next
    case True
    show ?thesis by (rule ids_ok_new_id [OF ids pc n]) (simp add: True call_start_def is_connected_def)
  qed
  moreover have "call_ok ?w k'" for k'
  proof (cases "k' = k")
    case True
    then show ?thesis
      using early_facts [OF ok, of k] pc by (simp add: call_ok_def call_start_def is_connected_def client_simps)
  next
    case False
    then show ?thesis
      by (intro call_ok_cong [OF ok]) (simp_all add: call_start_def is_connected_def client_simps)
  qed
  ultimately show ?thesis by (simp add: client_inv_def)
qed

lemma register_inv:
  assumes inv: "client_inv w" and pc: "rc_pcs w k = GotId i"
  shows "client_inv (call_register k i w)"
proof -
  let ?w = "call_register k i w"
  have ids: "ids_ok w" and ok: "call_ok w j" for j using inv by (simp_all add: client_inv_def)
  have "ids_ok ?w"
    by (rule ids_ok_pc [OF ids, of ?w k "Registered i"]) (simp_all add: pc call_register_def set_pc_def)
  moreover have "call_ok ?w k'" for k'
  proof (cases "k' = k")
    case True
    then show ?thesis
      using early_facts [OF ok, of k] pc by (simp add: call_ok_def call_register_def set_pc_def has_outcome_def)
  next
    case False
    have "rc_pending_calls w i \<noteq> Some k'" using pending_other [OF inv _ False] pc by simp
    then show ?thesis
      using False by (intro call_ok_cong [OF ok]) (auto simp: call_register_def set_pc_def)
  qed
  ultimately show ?thesis by (simp add: client_inv_def)
qed

lemma write_inv:
  assumes inv: "client_inv w" and pc: "rc_pcs w k = Registered i" and id: "rq_id req = i"
  shows "client_inv (call_write e P taken k req w)"
proof -
  let ?w = "call_write e P taken k req w"
  let ?pc = "case taken of None \<Rightarrow> Finished (Some i) | Some n \<Rightarrow> if pc_done (rc_calls w k) then Async i else Waiting i"
  have ids: "ids_ok w" and ok: "call_ok w j" for j using inv by (simp_all add: client_inv_def)
  have "ids_ok ?w"
    by (rule ids_ok_pc [OF ids, of ?w k ?pc]) (simp_all add: pc id call_write_def client_simps split: option.split)
  moreover have "call_ok ?w k'" for k'
  proof (cases "k' = k")
    case False
    then show ?thesis
      using pending_other [OF inv, of k i k'] pc id
      by (intro call_ok_cong [OF ok]) (auto simp: call_write_def client_simps split: option.split)
  next
    case True
    have f: "pc_done_runs (rc_calls w k) = 0" "pc_response (rc_calls w k) = None"
      "pc_done_flag (rc_calls w k) \<longrightarrow> ctl_failed (pc_controller (rc_calls w k))"
      "\<not> pc_done_flag (rc_calls w k) \<longrightarrow> rc_pending_calls w i = Some k"
      using ok [of k, unfolded call_ok_def] pc by (simp, simp, force simp: has_outcome_def, simp)
    have p: "rc_pending_calls w j = Some k \<longrightarrow> j = i \<and> (rc_reading w \<longrightarrow> \<not> pc_done_flag (rc_calls w k))" for j
      using client_inv_pending [OF inv, of j k] pc by simp
    have m: "rs_id m \<noteq> i" if mem: "m \<in> set (rc_received w)" for m
    proof
      assume "rs_id m = i"
      then obtain j where "sent_id (rc_pcs w j) = Some i" using ids [unfolded ids_ok_def] mem by blast
      then show False using client_inv_unique [OF inv, of j i k] sent_call_id pc by fastforce
    qed
    show ?thesis
    proof (cases taken)
      case None
      have c: "rc_calls ?w k = run_done (fail_call ''write failed'' (rc_calls w k))" "rc_pcs ?w k = Finished (Some i)"
        "rc_received ?w = rc_received w" using None id by (simp_all add: call_write_def client_simps)
      have pend: "rc_pending_calls ?w j \<noteq> Some k" for j using None id p [of j] by (auto simp: call_write_def client_simps)
      show ?thesis
        unfolding True call_ok_def c using pend f(1,2) by (simp add: run_done_def fail_call_def SetFailed_def has_outcome_def)
    next
      case (Some n)
      have c: "rc_calls ?w k = rc_calls w k" "rc_received ?w = rc_received w" "rc_pending_calls ?w = rc_pending_calls w"
        "rc_reading ?w = rc_reading w" "rc_pcs ?w k = (if pc_done (rc_calls w k) then Async i else Waiting i)"
        using Some id by (simp_all add: call_write_def client_simps)
      have pend: "rc_pending_calls w j = Some k \<Longrightarrow> i = j \<and> (rc_reading w \<longrightarrow> \<not> pc_done_flag (rc_calls w k))" for j
        using p by blast
      have "\<forall>m \<in> set (rc_received w). rs_id m \<noteq> i" using m by blast
      then show ?thesis
        unfolding True call_ok_def c using f pend by (cases "pc_done (rc_calls w k)") (auto simp: has_outcome_def)
    qed
  qed
  ultimately show ?thesis by (simp add: client_inv_def)
qed

lemma wake_inv:
  assumes inv: "client_inv w" and pc: "rc_pcs w k = Waiting i" and fl: "pc_done_flag (rc_calls w k)"
  shows "client_inv (set_pc k (Finished (Some i)) w)"
proof -
  let ?w = "set_pc k (Finished (Some i)) w"
  have ids: "ids_ok w" and ok: "call_ok w j" for j using inv by (simp_all add: client_inv_def)
  have "ids_ok ?w" by (rule ids_ok_pc [OF ids, of ?w k "Finished (Some i)"]) (simp_all add: pc set_pc_def)
  moreover have "call_ok ?w k'" for k'
  proof (cases "k' = k")
    case False
    then show ?thesis by (intro call_ok_cong [OF ok]) (simp_all add: set_pc_def)
  next
    case True
    have "has_outcome (rc_calls w k)" using ok [of k] fl by (simp add: call_ok_def)
    then show ?thesis using ok [of k, unfolded call_ok_def] pc fl unfolding True call_ok_def by (simp add: set_pc_def)
  qed
  ultimately show ?thesis by (simp add: client_inv_def)
qed

text \<open>Changes of the connection's state alone.\<close>

lemma client_inv_cong:
  assumes "client_inv w" "rc_calls w' = rc_calls w" "rc_pcs w' = rc_pcs w" "rc_received w' = rc_received w"
    "rc_pending_calls w' = rc_pending_calls w" "rc_reading w' \<longrightarrow> rc_reading w" "rc_issued w' = rc_issued w"
    "rc_next_request_id w' = rc_next_request_id w" "buffer_inv (rc_buf w')"
  shows "client_inv w'"
proof -
  have "ids_ok w'" using assms unfolding client_inv_def ids_ok_def by simp
  moreover have "call_ok w' k" for k
  proof (rule call_ok_cong)
    show "call_ok w k" using assms(1) by (simp add: client_inv_def)
    show "rc_reading w' \<longrightarrow> rc_reading w" by (rule assms(6))
  qed (simp_all only: assms)
  ultimately show ?thesis by (simp add: client_inv_def)
qed

text \<open>A response reaches the call that waits for its id.\<close>

lemma on_message_inv:
  assumes inv: "client_inv w" and rd: "rc_reading w"
    and sent: "\<And>resp. parse_response P f = Some resp \<Longrightarrow> \<exists>k. sent_id (rc_pcs w k) = Some (rs_id resp)"
  shows "client_inv (channel_on_message P w f)"
proof (cases "parse_response P f")
  case None
  then show ?thesis using inv by (simp add: channel_on_message_def)
next
  case (Some resp)
  let ?w = "channel_on_message P w f" and ?i = "rs_id resp"
  obtain k0 where k0: "sent_id (rc_pcs w k0) = Some ?i" using sent [OF Some] by blast
  have ids: "ids_ok w" and ok: "call_ok w j" for j using inv by (simp_all add: client_inv_def)
  have fr: "rc_pcs ?w = rc_pcs w" "rc_received ?w = rc_received w @ [resp]" "rc_issued ?w = rc_issued w"
    "rc_next_request_id ?w = rc_next_request_id w" "rc_buf ?w = rc_buf w" "rc_reading ?w = rc_reading w"
    using Some by (simp_all add: channel_on_message_def upd_call_def Let_def split: option.split)
  have "ids_ok ?w" unfolding ids_ok_def fr using ids [unfolded ids_ok_def] k0 by auto
  moreover have "call_ok ?w k" for k
  proof (cases "rc_pending_calls w ?i = Some k")
    case True
    then have k: "k = k0"
      using client_inv_pending [OF inv True] client_inv_unique [OF inv] sent_call_id [OF k0] by blast
    have pend: "rc_pending_calls ?w j \<noteq> Some k" for j
      using Some True client_inv_pending [OF inv, of j k] client_inv_pending [OF inv True]
      by (auto simp: channel_on_message_def upd_call_def Let_def)
    have c: "rc_calls ?w k = run_done ((if rs_success resp then (rc_calls w k)\<lparr>pc_response := Some (rs_result resp)\<rparr>
        else fail_call (rs_error resp) (rc_calls w k))\<lparr>pc_done_flag := True\<rparr>)"
      using Some True by (simp add: channel_on_message_def upd_call_def Let_def)
    have "\<not> early_pc (rc_pcs w k)" using k0 k by (cases "rc_pcs w k") auto
    moreover have "past_register (rc_pcs w k)" "pc_done_runs (rc_calls w k) = 0" using client_inv_pending [OF inv True] by auto
    ultimately show ?thesis
      unfolding call_ok_def fr c using ok [of k, unfolded call_ok_def] pend sent_call_id [OF k0] k
      by (auto simp: run_done_def fail_call_def SetFailed_def has_outcome_def)
  next
    case False
    have c: "rc_calls ?w k = rc_calls w k" and p: "rc_pending_calls ?w j = Some k \<longleftrightarrow> rc_pending_calls w j = Some k" for j
      using Some False by (auto simp: channel_on_message_def upd_call_def Let_def split: option.split)
    have "pc_done_flag (rc_calls w k)" if "rc_pcs w k = Waiting ?i \<or> rc_pcs w k = Async ?i"
      using ok [of k] that False unfolding call_ok_def by (metis open_id.simps(2,3))
    then show ?thesis unfolding call_ok_def fr c p set_append list.set using ok [of k, unfolded call_ok_def] by blast
  qed
  ultimately show ?thesis by (simp add: client_inv_def)
qed

lemma on_message_frame:
  "rc_pcs (channel_on_message P w f) = rc_pcs w" "rc_reading (channel_on_message P w f) = rc_reading w"
  "rc_connected (channel_on_message P w f) = rc_connected w" "rc_buf (channel_on_message P w f) = rc_buf w"
  by (simp_all add: channel_on_message_def upd_call_def Let_def split: option.split)

lemma on_messages_frame:
  "rc_connected (foldl (channel_on_message P) u fs) = rc_connected u" "rc_reading (foldl (channel_on_message P) u fs) = rc_reading u"
  by (induction fs arbitrary: u) (simp_all add: on_message_frame)

lemma on_messages_inv:
  assumes "client_inv w" "rc_reading w" "answers_sent P fs w"
  shows "client_inv (foldl (channel_on_message P) w fs) \<and> rc_pcs (foldl (channel_on_message P) w fs) = rc_pcs w \<and>
    rc_reading (foldl (channel_on_message P) w fs)"
  using assms
proof (induction fs arbitrary: w)
  case (Cons f fs)
  have "client_inv (channel_on_message P w f)"
    by (rule on_message_inv [OF Cons.prems(1,2)]) (use Cons.prems(3) in \<open>auto simp: answers_sent_def\<close>)
  moreover have "answers_sent P fs (channel_on_message P w f)"
    using Cons.prems(3) by (auto simp: answers_sent_def on_message_frame)
  ultimately show ?case using Cons.IH Cons.prems(2) by (simp add: on_message_frame)
qed simp

lemma fail_pending_inv:
  assumes inv: "client_inv w"
  shows "client_inv ((fail_pending (w\<lparr>rc_connected := False\<rparr>))\<lparr>rc_reading := False\<rparr>)" (is "client_inv ?w")
proof -
  have ids: "ids_ok w" and ok: "call_ok w j" for j using inv by (simp_all add: client_inv_def)
  have "ids_ok ?w" using ids unfolding ids_ok_def fail_pending_def by simp
  moreover have "call_ok ?w k" for k
  proof (cases "k \<in> ran (rc_pending_calls w)")
    case False
    then show ?thesis
      by (intro call_ok_cong [OF ok]) (simp_all add: fail_pending_def)
  next
    case True
    then obtain i where i: "rc_pending_calls w i = Some k" by (auto simp: ran_def)
    have f: "past_register (rc_pcs w k)" using client_inv_pending [OF inv i] by blast
    have c: "rc_calls ?w k = (fail_call ''connection closed'' (rc_calls w k))\<lparr>pc_done_flag := True\<rparr>"
      using True by (simp add: fail_pending_def)
    have fr: "rc_pcs ?w = rc_pcs w" "rc_received ?w = rc_received w" "rc_pending_calls ?w = rc_pending_calls w" "\<not> rc_reading ?w"
      by (simp_all add: fail_pending_def)
    show ?thesis
      unfolding call_ok_def c fr(1-3) using ok [of k, unfolded call_ok_def] f fr(4)
      by (simp add: fail_call_def SetFailed_def has_outcome_def)
  qed
  ultimately show ?thesis by (simp add: client_inv_def)
qed

text \<open>What a read is: the end of the stream, or frames.\<close>

lemma reader_read_cases:
  assumes inv: "client_inv w" and v: "readv_ok readv"
    and sent: "\<And>bs. readv (read_iov (rc_buf w)) = Inr bs \<Longrightarrow> answers_sent P (fst (scan (parse_frame None) (contents (rc_buf w) @ bs))) w"
    and r: "reader_read e P readv w = Some w'"
  obtains (eof) "w' = (fail_pending (w\<lparr>rc_connected := False\<rparr>))\<lparr>rc_reading := False\<rparr>"
    | (frames) fs go_on conn b where "answers_sent P fs w" "buffer_inv b"
      "w' = (foldl (channel_on_message P) w fs)\<lparr>rc_connected := conn, rc_buf := b, rc_reading := go_on, rc_in_read := False\<rparr>"
proof (cases "readv (read_iov (rc_buf w))")
  case (Inl err)
  then have "read_fd readv (rc_buf w) = (Inl err, rc_buf w)" by (rule read_fd_Inl)
  then show thesis using eof r by (simp add: reader_read_def)
next
  case (Inr bs)
  have b: "buffer_inv (rc_buf w)" using inv by (simp add: client_inv_def ids_ok_def)
  show thesis
  proof (cases "bs = []")
    case True
    then show thesis using eof r read_fd_Inr [OF b v Inr] by (auto simp: reader_read_def)
  next
    case False
    obtain fs err rest where sc: "scan (parse_frame None) (contents (rc_buf w) @ bs) = (fs, err, rest)" by (metis prod_cases3)
    show thesis using frames [of fs] sent [OF Inr] sc reader_read_frames [OF b v Inr False sc, of e P] r by auto
  qed
qed

lemma reader_inv:
  assumes inv: "client_inv w" and rd: "rc_reading w" and v: "readv_ok readv"
    and sent: "\<And>bs. readv (read_iov (rc_buf w)) = Inr bs \<Longrightarrow>
      answers_sent P (fst (scan (parse_frame None) (contents (rc_buf w) @ bs))) w"
    and r: "reader_read e P readv w = Some w'"
  shows "client_inv w'"
proof (rule reader_read_cases [OF inv v sent r])
  assume "w' = (fail_pending (w\<lparr>rc_connected := False\<rparr>))\<lparr>rc_reading := False\<rparr>"
  then show ?thesis using fail_pending_inv [OF inv] by simp
next
  fix fs go_on conn b
  assume f: "answers_sent P fs w" "buffer_inv b"
    "w' = (foldl (channel_on_message P) w fs)\<lparr>rc_connected := conn, rc_buf := b, rc_reading := go_on, rc_in_read := False\<rparr>"
  let ?v = "foldl (channel_on_message P) w fs"
  have i: "client_inv ?v" "rc_reading ?v" using on_messages_inv [OF inv rd f(1)] by simp_all
  show ?thesis by (rule client_inv_cong [OF i(1)]) (use f(2,3) i(2) in simp_all)
qed

lemma client_step_inv: "client_inv w \<Longrightarrow> client_step e P req w w' \<Longrightarrow> client_inv w'"
proof (rotate_tac, induction rule: client_step.induct)
  case (starts w k)
  then show ?case by (intro start_inv)
next
  case (registers w k i)
  then show ?case by (intro register_inv)
next
  case (writes w k i taken)
  then show ?case by (intro write_inv) (auto simp: request_of_def split: prod.split)
next
  case (wakes w k i)
  then show ?case by (intro wake_inv)
next
  case (reads w readv w')
  then show ?case by (intro reader_inv [of w readv P e w'])
next
  case (checks w)
  then have "buffer_inv (rc_buf w)" by (simp add: client_inv_def ids_ok_def)
  then show ?case by (intro client_inv_cong [OF checks(3)]) (simp_all add: reader_check_def)
next
  case (disconnects w)
  then have "buffer_inv (rc_buf w)" by (simp add: client_inv_def ids_ok_def)
  then show ?case by (intro client_inv_cong [OF disconnects]) (simp_all add: disconnect_def close_sock_def)
qed

lemma client_init_fields:
  assumes "client_init w"
  shows "\<exists>done. rc_calls w = (\<lambda>k. call_new (done k))" "rc_pcs w = (\<lambda>k. NotCalled)" "rc_pending_calls w = Map.empty"
    "rc_received w = []" "rc_issued w = 0" "rc_next_request_id w = 1" "rc_buf w = buffer_new kInitialSize"
    "rc_connected w" "rc_reading w"
  using assms
  by (auto simp: client_init_def channel_connect_def rpc_channel_new_def Let_def split: if_splits option.splits)

lemma client_init_inv: assumes "client_init w" shows "client_inv w"
proof -
  note f = client_init_fields [OF assms]
  have "ids_ok w" unfolding ids_ok_def f(2-7) by (simp add: buffer_new_inv)
  moreover have "call_ok w k" for k
  proof -
    obtain d where d: "rc_calls w k = call_new (d k)" using f(1) by auto
    show ?thesis unfolding call_ok_def d f(2-7) by (simp add: call_new_def)
  qed
  ultimately show ?thesis by (simp add: client_inv_def)
qed

interpretation cm: invariant_system client_init "client_step e P req" client_inv for e P req
  by unfold_locales (fact client_init_inv, fact client_step_inv)

section \<open>A reader that is gone\<close>

text \<open>Without the reader nothing changes a call that waits, nor one whose closure is still to run.\<close>

lemma waiting_stuck:
  assumes "client_step e P req w w'" "\<not> rc_reading w" "rc_pcs w k = Waiting i" "\<not> pc_done_flag (rc_calls w k)"
  shows "\<not> rc_reading w' \<and> rc_pcs w' k = Waiting i \<and> \<not> pc_done_flag (rc_calls w' k)"
  using assms
  by (cases rule: client_step.cases)
    (auto simp: call_start_def call_register_def call_write_def client_simps disconnect_def close_sock_def split: option.split)

lemma async_stuck:
  assumes "client_step e P req w w'" "\<not> rc_reading w" "rc_pcs w k = Async i" "pc_done_runs (rc_calls w k) = 0"
  shows "\<not> rc_reading w' \<and> rc_pcs w' k = Async i \<and> pc_done_runs (rc_calls w' k) = 0"
  using assms
  by (cases rule: client_step.cases)
    (auto simp: call_start_def call_register_def call_write_def client_simps disconnect_def close_sock_def split: option.split)

lemma waiting_forever:
  assumes "(client_step e P req)\<^sup>*\<^sup>* w w'" "\<not> rc_reading w" "rc_pcs w k = Waiting i" "\<not> pc_done_flag (rc_calls w k)"
  shows "rc_pcs w' k = Waiting i"
proof -
  have "\<not> rc_reading w' \<and> rc_pcs w' k = Waiting i \<and> \<not> pc_done_flag (rc_calls w' k)"
    using assms by (induction rule: rtranclp_induct) (blast dest: waiting_stuck)+
  then show ?thesis by simp
qed

lemma async_forever:
  assumes "(client_step e P req)\<^sup>*\<^sup>* w w'" "\<not> rc_reading w" "rc_pcs w k = Async i" "pc_done_runs (rc_calls w k) = 0"
  shows "pc_done_runs (rc_calls w' k) = 0"
proof -
  have "\<not> rc_reading w' \<and> rc_pcs w' k = Async i \<and> pc_done_runs (rc_calls w' k) = 0"
    using assms by (induction rule: rtranclp_induct) (blast dest: async_stuck)+
  then show ?thesis by simp
qed

text \<open>The end of the stream, as the reader sees it.\<close>

definition at_eof :: "readv_call \<Rightarrow> rpc_client \<Rightarrow> bool" where
  "at_eof readv w \<longleftrightarrow> readv_ok readv \<and> (readv (read_iov (rc_buf w)) = Inr [] \<or> (\<exists>e. readv (read_iov (rc_buf w)) = Inl e))"

lemma eof_read:
  assumes "client_inv w" "at_eof readv w"
  shows "reader_read e P readv w = Some ((fail_pending (w\<lparr>rc_connected := False\<rparr>))\<lparr>rc_reading := False\<rparr>)"
proof -
  have b: "buffer_inv (rc_buf w)" using assms(1) by (simp add: client_inv_def ids_ok_def)
  have v: "readv_ok readv" using assms(2) by (simp add: at_eof_def)
  consider err where "readv (read_iov (rc_buf w)) = Inl err" | "readv (read_iov (rc_buf w)) = Inr []"
    using assms(2) by (auto simp: at_eof_def)
  then show ?thesis
  proof cases
    case 1
    then have "read_fd readv (rc_buf w) = (Inl err, rc_buf w)" by (rule read_fd_Inl)
    then show ?thesis by (simp add: reader_read_def)
  next
    case 2
    then show ?thesis using read_fd_Inr [OF b v 2] by (auto simp: reader_read_def)
  qed
qed

lemma eof_step:
  assumes "client_inv w" "rc_reading w" "rc_in_read w" "at_eof readv w" "answers_sent P (fst (scan (parse_frame None) (contents (rc_buf w)))) w"
  shows "client_step e P req w ((fail_pending (w\<lparr>rc_connected := False\<rparr>))\<lparr>rc_reading := False\<rparr>)"
proof (rule client_step.reads [OF assms(2,3) _ _ eof_read [OF assms(1,4)]])
  show "readv_ok readv" using assms(4) by (simp add: at_eof_def)
  show "answers_sent P (fst (scan (parse_frame None) (contents (rc_buf w) @ bs))) w" if "readv (read_iov (rc_buf w)) = Inr bs" for bs
    using assms(4,5) that by (auto simp: at_eof_def)
qed

text \<open>
  \<^verbatim>\<open>disconnect\<close> can strand a waiting caller: when it runs while the reader is between two reads, the
  reader sees \<^verbatim>\<open>connected_\<close> false and leaves its loop without the cleanup that wakes the callers,
  and a call that waits then waits in every state that follows.
\<close>

lemma disconnect_can_strand_callers:
  assumes "rc_connected w" "rc_reading w" "\<not> rc_in_read w" "rc_pcs w k = Waiting i" "\<not> pc_done_flag (rc_calls w k)"
  shows "client_step e P req w (disconnect w) \<and> client_step e P req (disconnect w) (reader_check (disconnect w)) \<and>
    (\<forall>w2. (client_step e P req)\<^sup>*\<^sup>* (reader_check (disconnect w)) w2 \<longrightarrow> rc_pcs w2 k = Waiting i)"
proof -
  let ?w = "reader_check (disconnect w)"
  have "client_step e P req (disconnect w) ?w"
    by (rule client_step.checks) (use assms in \<open>simp_all add: disconnect_def close_sock_def\<close>)
  moreover have "rc_pcs w2 k = Waiting i" if "(client_step e P req)\<^sup>*\<^sup>* ?w w2" for w2
    by (rule waiting_forever [OF that]) (use assms in \<open>simp_all add: reader_check_def disconnect_def close_sock_def\<close>)
  ultimately show ?thesis using client_step.disconnects by blast
qed

section \<open>Concrete runs\<close>

text \<open>A connected channel; call 1 has a closure, the others are synchronous.\<close>

definition demo_calls :: connect_calls where
  "demo_calls = \<lparr>cc_socket = 5, cc_connect = (\<lambda>fd host port. Some EINPROGRESS), cc_poll = (\<lambda>t. 1), cc_so_error = 0\<rparr>"

definition demo_channel :: rpc_client where
  "demo_channel = snd (channel_connect demo_calls ''127.0.0.1'' 80 3000 (rpc_channel_new (\<lambda>k. k = 1)))"

definition demo_req :: "nat \<Rightarrow> string \<times> string \<times> string" where
  "demo_req k = (''demo.Echo'', ''Say'', ''hi'')"

abbreviation demo_step :: "rpc_client \<Rightarrow> rpc_client \<Rightarrow> bool" where
  "demo_step \<equiv> client_step LittleEndian demo_protobuf demo_req"

definition demo_sent :: "nat \<Rightarrow> rpc_client" where
  "demo_sent k = call_write LittleEndian demo_protobuf (Some 1000) k (request_of demo_req k 1)
     (call_register k 1 (call_start k demo_channel))"

definition demo_readv :: "string \<Rightarrow> readv_call" where
  "demo_readv bs iov = Inr (take (sum_list iov) bs)"

lemma demo_channel_init: "client_init demo_channel"
  unfolding client_init_def demo_channel_def
  by (intro exI [of _ demo_calls] exI) (auto simp: channel_connect_def demo_calls_def Let_def prod_eq_iff)

lemma demo_started:
  "rc_pcs (call_start k demo_channel) k = GotId 1" "rc_connected (call_start k demo_channel)" "rc_reading (call_start k demo_channel)"
  "rc_buf (call_start k demo_channel) = buffer_new kInitialSize"
  "pc_done (rc_calls (call_start k demo_channel) k) \<longleftrightarrow> k = 1"
  using client_init_fields(2-9) [OF demo_channel_init]
  by (simp_all add: call_start_def is_connected_def set_pc_def demo_channel_def channel_connect_def demo_calls_def
      rpc_channel_new_def call_new_def Let_def)

lemma demo_started_reachable: "reachable client_init demo_step (call_start k demo_channel)"
  using client_init_fields(2,5) [OF demo_channel_init]
  by (intro reach_step [OF reach_init [of client_init, OF demo_channel_init]] client_step.starts) simp_all

lemma demo_sent_reachable: "reachable client_init demo_step (demo_sent k)"
proof -
  have "reachable client_init demo_step (call_register k 1 (call_start k demo_channel))"
    by (rule reach_step [OF demo_started_reachable client_step.registers]) (rule demo_started(1))
  moreover have "rc_pcs (call_register k 1 (call_start k demo_channel)) k = Registered 1"
    by (simp add: call_register_def set_pc_def)
  ultimately show ?thesis unfolding demo_sent_def by (blast intro: reach_step client_step.writes)
qed

lemma demo_sent_state:
  "rc_pcs (demo_sent k) k = (if k = 1 then Async 1 else Waiting 1)" "rc_connected (demo_sent k)" "rc_reading (demo_sent k)"
  "rc_buf (demo_sent k) = buffer_new kInitialSize" "\<not> pc_done_flag (rc_calls (demo_sent k) k)"
  using demo_started [of k]
  by (simp_all add: demo_sent_def call_write_def call_register_def set_pc_def request_of_def demo_req_def)
    (simp add: call_start_def is_connected_def set_pc_def demo_channel_def channel_connect_def demo_calls_def
      rpc_channel_new_def call_new_def Let_def)

text \<open>The same states with the reader in its read.\<close>

lemma demo_not_in_read: "\<not> rc_in_read (demo_sent k)" "\<not> rc_in_read (call_start k demo_channel)"
  by (simp_all add: demo_sent_def call_write_def call_register_def call_start_def set_pc_def is_connected_def demo_channel_def
      channel_connect_def demo_calls_def rpc_channel_new_def Let_def)

lemma in_read_reachable:
  assumes "reachable client_init (client_step e P req) w" "rc_reading w" "\<not> rc_in_read w"
  shows "reachable client_init (client_step e P req) (reader_check w)"
  by (rule reach_step [OF assms(1) client_step.checks [OF assms(2,3)]])

lemma in_read_fields:
  assumes "rc_connected w"
  shows "rc_pcs (reader_check w) = rc_pcs w" "rc_calls (reader_check w) = rc_calls w" "rc_buf (reader_check w) = rc_buf w"
    "rc_reading (reader_check w) = rc_reading w" "rc_in_read (reader_check w)" "rc_pending_calls (reader_check w) = rc_pending_calls w"
    "rc_received (reader_check w) = rc_received w"
  using assms by (simp_all add: reader_check_def)

definition demo_blocked :: "nat \<Rightarrow> rpc_client" where
  "demo_blocked k = reader_check (demo_sent k)"

lemma demo_blocked_reachable: "reachable client_init demo_step (demo_blocked k)"
  unfolding demo_blocked_def by (rule in_read_reachable [OF demo_sent_reachable demo_sent_state(3) demo_not_in_read(1)])

lemma demo_blocked_state:
  "rc_pcs (demo_blocked k) k = (if k = 1 then Async 1 else Waiting 1)" "rc_reading (demo_blocked k)" "rc_in_read (demo_blocked k)"
  "rc_buf (demo_blocked k) = buffer_new kInitialSize" "\<not> pc_done_flag (rc_calls (demo_blocked k) k)"
  unfolding demo_blocked_def in_read_fields [OF demo_sent_state(2)] using demo_sent_state [of k]
    in_read_fields(5) [OF demo_sent_state(2), of k] by simp_all

lemma demo_readv_ok: "readv_ok (demo_readv bs)"
  by (auto simp: readv_ok_def demo_readv_def)

lemma demo_readv_all: "length bs \<le> extra_size \<Longrightarrow> demo_readv bs (read_iov (buffer_new kInitialSize)) = Inr bs"
  by (auto simp: demo_readv_def read_iov_def not_less intro: take_all)

lemma demo_eof:
  assumes "rc_buf w = buffer_new kInitialSize" shows "at_eof (demo_readv []) w" "answers_sent P (fst (scan (parse_frame None) (contents (rc_buf w)))) w"
  using demo_readv_ok [of "[]"] assms
  by (simp_all add: at_eof_def demo_readv_def answers_sent_def contents_buffer_new cl.scan_incomplete [OF cl.empty_incomplete])

lemma not_finished: "Waiting i \<noteq> Finished j"
  by simp

text \<open>The response arrives.\<close>

definition demo_response :: rpc_response where
  "demo_response = \<lparr>rs_id = 1, rs_success = True, rs_result = ''hi'', rs_error = []\<rparr>"

definition demo_reply :: string where
  "demo_reply = the (ser_response demo_protobuf demo_response)"

lemma demo_reply_parse: "parse_response demo_protobuf demo_reply = Some demo_response" "body_ok None demo_reply"
  "length (wire_frame demo_reply) \<le> extra_size" "wire_frame demo_reply \<noteq> []"
proof -
  have "ser_response demo_protobuf demo_response = Some demo_reply" by (simp add: demo_reply_def demo_protobuf_def)
  then show "parse_response demo_protobuf demo_reply = Some demo_response" using demo_protobuf_ok by (simp add: protobuf_ok_def)
qed (simp_all add: demo_reply_def demo_protobuf_def body_ok_def put_str_def demo_response_def wire_frame_def extra_size_def)

lemma demo_answered:
  "\<exists>w. reachable client_init demo_step w \<and> rc_pcs w 0 = Waiting 1 \<and> rc_received w = [demo_response] \<and>
     pc_response (rc_calls w 0) = Some ''hi''"
proof -
  let ?w = "demo_blocked 0" and ?r = "demo_readv (wire_frame demo_reply)"
  let ?v = "channel_on_message demo_protobuf ?w demo_reply"
  have inv: "client_inv ?w" by (rule cm.reachable_inv [OF demo_blocked_reachable])
  have b: "buffer_inv (rc_buf ?w)" "contents (rc_buf ?w) = []" by (simp_all add: demo_blocked_state buffer_new_inv contents_buffer_new)
  have r: "?r (read_iov (rc_buf ?w)) = Inr (wire_frame demo_reply)"
    using demo_readv_all [OF demo_reply_parse(3)] by (simp add: demo_blocked_state)
  have sc: "scan (parse_frame None) (contents (rc_buf ?w) @ wire_frame demo_reply) = ([demo_reply], None, [])"
    using cl.scan_frames [of "[demo_reply]" "[]"] demo_reply_parse(2) cl.scan_incomplete [OF cl.empty_incomplete] b(2) by simp
  obtain b' where rr: "reader_read LittleEndian demo_protobuf ?r ?w =
      Some (?v\<lparr>rc_buf := b', rc_reading := True, rc_in_read := False\<rparr>)"
    using reader_read_frames [OF b(1) demo_readv_ok r demo_reply_parse(4) sc] by auto
  have "answers_sent demo_protobuf [demo_reply] ?w"
    using demo_blocked_state(1) [of 0] by (auto simp: answers_sent_def demo_reply_parse(1) demo_response_def intro!: exI [of _ 0])
  then have "demo_step ?w (?v\<lparr>rc_buf := b', rc_reading := True, rc_in_read := False\<rparr>)"
    by (intro client_step.reads [OF demo_blocked_state(2,3) demo_readv_ok _ rr]) (use r sc in simp)
  moreover have "rc_pending_calls ?w 1 = Some 0"
    using inv demo_blocked_state(1,5) [of 0] unfolding client_inv_def call_ok_def by (metis open_id.simps(2) zero_neq_one)
  moreover have "rc_received ?w = []"
    by (simp add: demo_blocked_def reader_check_def demo_sent_def call_write_def call_register_def call_start_def set_pc_def
        is_connected_def demo_channel_def channel_connect_def demo_calls_def rpc_channel_new_def Let_def)
  ultimately show ?thesis
    using reach_step [OF demo_blocked_reachable] demo_blocked_state(1) [of 0]
    by (intro exI [of _ "?v\<lparr>rc_buf := b', rc_reading := True, rc_in_read := False\<rparr>"])
      (auto simp: on_message_frame channel_on_message_def demo_reply_parse(1) demo_response_def upd_call_def run_done_def Let_def)
qed

section \<open>Properties\<close>

text \<open>
  C15. Responses reach the right call, none is lost, and each call completes at most once: in every state
  the client reaches, by any interleaving of its callers, its reader and \<^verbatim>\<open>disconnect\<close>, no two
  calls share a request id; a response stored for a call was received in a response with that
  call's id; when a response with the id of a waiting call has been received, the call has an
  outcome and can return; a call that has returned has a response or a failed
  controller; and no closure has run more than once. The server answers only requests that
  were sent, fewer than \<open>2\<^sup>3\<^sup>2\<close> of them.
\<close>

theorem responses_routed_once:
  assumes "reachable client_init (client_step e P req) w"
  shows "(\<forall>k k' i. call_id (rc_pcs w k) = Some i \<and> call_id (rc_pcs w k') = Some i \<longrightarrow> k = k') \<and>
    (\<forall>k r. pc_response (rc_calls w k) = Some r \<longrightarrow>
       (\<exists>m \<in> set (rc_received w). call_id (rc_pcs w k) = Some (rs_id m) \<and> rs_success m \<and> rs_result m = r)) \<and>
    (\<forall>k m. m \<in> set (rc_received w) \<and> rc_pcs w k = Waiting (rs_id m) \<longrightarrow>
       has_outcome (rc_calls w k) \<and> client_step e P req w (set_pc k (Finished (Some (rs_id m))) w)) \<and>
    (\<forall>k i. rc_pcs w k = Finished i \<longrightarrow> has_outcome (rc_calls w k)) \<and>
    (\<forall>k. pc_done_runs (rc_calls w k) \<le> 1)"
proof -
  note inv = cm.reachable_inv [OF assms]
  have "has_outcome (rc_calls w k) \<and> client_step e P req w (set_pc k (Finished (Some (rs_id m))) w)"
    if m: "m \<in> set (rc_received w)" "rc_pcs w k = Waiting (rs_id m)" for k m
  proof -
    have "pc_done_flag (rc_calls w k)" "has_outcome (rc_calls w k)" using inv m unfolding client_inv_def call_ok_def by blast+
    then show ?thesis using client_step.wakes [OF m(2)] by blast
  qed
  then show ?thesis using inv unfolding client_inv_def ids_ok_def call_ok_def by blast
qed

theorem responses_routed_once_witness:
  "\<exists>w. reachable client_init demo_step w \<and> pc_response (rc_calls w 0) = Some ''hi'' \<and>
     (\<exists>m. m \<in> set (rc_received w) \<and> call_id (rc_pcs w 0) = Some (rs_id m) \<and> rs_result m = ''hi'') \<and>
     demo_step w (set_pc 0 (Finished (Some 1)) w) \<and> pc_done_runs (rc_calls w 0) \<le> 1"
proof -
  obtain w where w: "reachable client_init demo_step w" "pc_response (rc_calls w 0) = Some ''hi''"
    "rc_pcs w 0 = Waiting 1" "rc_received w = [demo_response]"
    using demo_answered by blast
  have m: "demo_response \<in> set (rc_received w)" "rc_pcs w 0 = Waiting (rs_id demo_response)" "rs_id demo_response = 1"
    using w(3,4) by (simp_all add: demo_response_def)
  from responses_routed_once [OF w(1)] w(1,2) m show ?thesis by metis
qed

text \<open>
  C24. The end of the connection wakes every synchronous caller: when the reader meets the end of the
  stream or a read error, each waiting call gets an outcome and its flag.
\<close>

theorem eof_wakes_waiting_calls:
  assumes "reachable client_init (client_step e P req) w" "at_eof readv w"
  shows "\<exists>w'. reader_read e P readv w = Some w' \<and>
    (\<forall>k i. rc_pcs w k = Waiting i \<longrightarrow> pc_done_flag (rc_calls w' k) \<and> has_outcome (rc_calls w' k))"
proof -
  note inv = cm.reachable_inv [OF assms(1)]
  let ?w = "(fail_pending (w\<lparr>rc_connected := False\<rparr>))\<lparr>rc_reading := False\<rparr>"
  have "pc_done_flag (rc_calls ?w k) \<and> has_outcome (rc_calls ?w k)" if "rc_pcs w k = Waiting i" for k i
  proof (cases "k \<in> ran (rc_pending_calls w)")
    case True
    then show ?thesis by (simp add: fail_pending_def fail_call_def SetFailed_def has_outcome_def)
  next
    case False
    then have "rc_pending_calls w i \<noteq> Some k" by (auto simp: ran_def)
    then have "pc_done_flag (rc_calls w k)" using inv that unfolding client_inv_def call_ok_def by (metis open_id.simps(2))
    moreover have "has_outcome (rc_calls w k)" using calculation inv unfolding client_inv_def call_ok_def by blast
    ultimately show ?thesis using False by (simp add: fail_pending_def)
  qed
  then show ?thesis using eof_read [OF inv assms(2)] by blast
qed

theorem eof_wakes_waiting_calls_witness:
  "\<exists>w'. reader_read LittleEndian demo_protobuf (demo_readv []) (demo_blocked 0) = Some w' \<and> pc_done_flag (rc_calls w' 0)"
  using eof_wakes_waiting_calls [OF demo_blocked_reachable demo_eof(1) [OF demo_blocked_state(4)], of 0]
    demo_blocked_state(1) [of 0] by auto

text \<open>
  C37. A bad magic number hangs the callers: when the reader meets one it leaves its thread without
  waking anyone, and a synchronous call that waits then waits in every state that follows.
\<close>

theorem bad_magic_hangs_callers:
  assumes "reachable client_init (client_step e P req) w" "rc_reading w" "rc_in_read w" "readv_ok readv"
    and "readv (read_iov (rc_buf w)) = Inr bs" "parse_frame None (contents (rc_buf w) @ bs) = Malformed m" "bs \<noteq> []"
    and "rc_pcs w k = Waiting i" "\<not> pc_done_flag (rc_calls w k)"
  shows "\<exists>w1. client_step e P req w w1 \<and> (\<forall>w2. (client_step e P req)\<^sup>*\<^sup>* w1 w2 \<longrightarrow> rc_pcs w2 k = Waiting i)"
proof -
  have b: "buffer_inv (rc_buf w)" using cm.reachable_inv [OF assms(1)] by (simp add: client_inv_def ids_ok_def)
  have sc: "scan (parse_frame None) (contents (rc_buf w) @ bs) = ([], Some m, contents (rc_buf w) @ bs)"
    using assms(6) by (simp add: scan.simps [of _ "contents (rc_buf w) @ bs"])
  obtain b' where r: "reader_read e P readv w = Some (w\<lparr>rc_connected := False, rc_buf := b', rc_reading := False, rc_in_read := False\<rparr>)"
    using reader_read_frames [OF b assms(4,5,7) sc, of e P] by auto
  let ?w1 = "w\<lparr>rc_connected := False, rc_buf := b', rc_reading := False, rc_in_read := False\<rparr>"
  have "client_step e P req w ?w1"
    by (rule client_step.reads [OF assms(2-4) _ r]) (use assms(5) sc in \<open>simp add: answers_sent_def\<close>)
  moreover have "rc_pcs w2 k = Waiting i" if "(client_step e P req)\<^sup>*\<^sup>* ?w1 w2" for w2
    by (rule waiting_forever [OF that]) (use assms(8,9) in simp_all)
  ultimately show ?thesis by blast
qed

theorem bad_magic_hangs_callers_witness:
  "\<exists>w1. demo_step (demo_blocked 0) w1 \<and> (\<nexists>w2. demo_step\<^sup>*\<^sup>* w1 w2 \<and> rc_pcs w2 0 = Finished (Some 1))"
proof -
  have b: "contents (rc_buf (demo_blocked 0)) = []" by (simp add: demo_blocked_state contents_buffer_new)
  have r: "demo_readv ''01234567'' (read_iov (rc_buf (demo_blocked 0))) = Inr ''01234567''"
    using demo_readv_all [of "''01234567''"] by (simp add: demo_blocked_state extra_size_def)
  have "parse_frame None ''01234567'' = Malformed ''bad magic number''" by code_simp
  with bad_magic_hangs_callers [OF demo_blocked_reachable demo_blocked_state(2,3) demo_readv_ok r, of _ 0 1] b demo_blocked_state(1,5) [of 0]
  obtain w1 where 1: "demo_step (demo_blocked 0) w1" "\<And>w2. demo_step\<^sup>*\<^sup>* w1 w2 \<Longrightarrow> rc_pcs w2 0 = Waiting 1" by auto
  then show ?thesis using not_finished by metis
qed

text \<open>
  C38. Closures of asynchronous calls are lost at the end of the connection: the reader marks the pending
  calls as failed but runs no closure and leaves them in the table, so the closure of a call
  that was pending then never runs, in any state that follows.
\<close>

theorem eof_loses_async_closures:
  assumes "reachable client_init (client_step e P req) w" "rc_reading w" "rc_in_read w" "at_eof readv w"
    and "answers_sent P (fst (scan (parse_frame None) (contents (rc_buf w)))) w"
    and "rc_pcs w k = Async i" "\<not> pc_done_flag (rc_calls w k)"
  shows "\<exists>w1. client_step e P req w w1 \<and>
    (\<forall>w2. (client_step e P req)\<^sup>*\<^sup>* w1 w2 \<longrightarrow> pc_done_runs (rc_calls w2 k) = 0)"
proof -
  note inv = cm.reachable_inv [OF assms(1)]
  have p: "rc_pending_calls w i = Some k" using inv assms(6,7) unfolding client_inv_def call_ok_def by (metis open_id.simps(3))
  let ?w1 = "(fail_pending (w\<lparr>rc_connected := False\<rparr>))\<lparr>rc_reading := False\<rparr>"
  have "pc_done_runs (rc_calls w k) = 0" using client_inv_pending [OF inv p] by blast
  then have "pc_done_runs (rc_calls w2 k) = 0" if "(client_step e P req)\<^sup>*\<^sup>* ?w1 w2" for w2
    by (intro async_forever [OF that]) (use assms(6) in \<open>simp_all add: fail_pending_def fail_call_def\<close>)
  then show ?thesis using eof_step [OF inv assms(2-5)] by blast
qed

theorem eof_loses_async_closures_witness:
  "\<exists>w1. demo_step (demo_blocked 1) w1 \<and> (\<nexists>w2. demo_step\<^sup>*\<^sup>* w1 w2 \<and> 0 < pc_done_runs (rc_calls w2 1))"
proof -
  from eof_loses_async_closures [OF demo_blocked_reachable demo_blocked_state(2,3) demo_eof [OF demo_blocked_state(4)], of 1 1]
    demo_blocked_state(1,5) [of 1]
  obtain w1 where "demo_step (demo_blocked 1) w1" "\<And>w2. demo_step\<^sup>*\<^sup>* w1 w2 \<Longrightarrow> pc_done_runs (rc_calls w2 1) = 0" by auto
  then show ?thesis by (metis less_irrefl)
qed

text \<open>
  C39. A call that races with the end of the connection waits forever: it passed the check of
  \<^verbatim>\<open>is_connected\<close> and took its id before the reader's cleanup, entered the table after it, and its
  write was taken by the socket; nothing will ever set its flag.
\<close>

theorem late_call_waits_forever:
  assumes "reachable client_init (client_step e P req) w" "rc_reading w" "rc_in_read w" "at_eof readv w"
    and "answers_sent P (fst (scan (parse_frame None) (contents (rc_buf w)))) w"
    and "rc_pcs w k = GotId i" "\<not> pc_done (rc_calls w k)"
  shows "\<exists>w1. (client_step e P req)\<^sup>*\<^sup>* w w1 \<and> rc_pcs w1 k = Waiting i \<and>
    (\<forall>w2. (client_step e P req)\<^sup>*\<^sup>* w1 w2 \<longrightarrow> rc_pcs w2 k = Waiting i)"
proof -
  note inv = cm.reachable_inv [OF assms(1)]
  let ?v = "(fail_pending (w\<lparr>rc_connected := False\<rparr>))\<lparr>rc_reading := False\<rparr>"
  have s1: "client_step e P req w ?v" by (rule eof_step [OF inv assms(2-5)])
  have "k \<notin> ran (rc_pending_calls w)"
    using client_inv_pending [OF inv, of _ k] assms(6) by (auto simp: ran_def)
  moreover have "\<not> pc_done_flag (rc_calls w k)" using inv assms(6) by (simp add: client_inv_def call_ok_def)
  ultimately have v: "rc_pcs ?v k = GotId i" "rc_calls ?v k = rc_calls w k" "\<not> pc_done_flag (rc_calls w k)"
    using assms(6) by (simp_all add: fail_pending_def)
  let ?u = "call_register k i ?v" and ?n = "length (request_wire e P (request_of req k i))"
  let ?w1 = "call_write e P (Some ?n) k (request_of req k i) ?u"
  have u: "rc_pcs ?u k = Registered i" by (simp add: call_register_def set_pc_def)
  have id: "rq_id (request_of req k i) = i" by (simp add: request_of_def split: prod.split)
  have s: "(client_step e P req)\<^sup>*\<^sup>* w ?w1"
    using s1 client_step.registers [OF v(1)] client_step.writes [OF u, of e P req "Some ?n"]
    by (meson rtranclp.rtrancl_into_rtrancl rtranclp.rtrancl_refl)
  have w1: "rc_pcs ?w1 k = Waiting i" "\<not> pc_done_flag (rc_calls ?w1 k)" "\<not> rc_reading ?w1"
    using v assms(7) id by (simp_all add: call_write_def call_register_def set_pc_def fail_pending_def)
  show ?thesis using s w1 waiting_forever [OF _ w1(3,1,2)] by blast
qed

theorem late_call_waits_forever_witness:
  "\<exists>w1. demo_step\<^sup>*\<^sup>* (reader_check (call_start 0 demo_channel)) w1 \<and> (\<nexists>w2. demo_step\<^sup>*\<^sup>* w1 w2 \<and> rc_pcs w2 0 = Finished (Some 1))"
proof -
  note f = in_read_fields [OF demo_started(2) [of 0]]
  have "rc_reading (reader_check (call_start 0 demo_channel))" "rc_buf (reader_check (call_start 0 demo_channel)) = buffer_new kInitialSize"
    using f(3,4) demo_started(3,4) [of 0] by simp_all
  with late_call_waits_forever [OF in_read_reachable [OF demo_started_reachable demo_started(3) demo_not_in_read(2)] _ f(5) demo_eof, where k = 0 and i = 1]
    f(1,2) demo_started(1,5) [of 0]
  obtain w1 where "demo_step\<^sup>*\<^sup>* (reader_check (call_start 0 demo_channel)) w1" "\<And>w2. demo_step\<^sup>*\<^sup>* w1 w2 \<Longrightarrow> rc_pcs w2 0 = Waiting 1" by auto
  then show ?thesis using not_finished by metis
qed

end
