(* ===== verification/Remote_Call.thy ===== *)
theory Remote_Call
  imports Rpc_Server Rpc_Channel
begin

text \<open>
  A call through client, network and server: the pieces TCP delivers, the turns of the server's
  loop that read them, the rounds of its workers, the turn that sends the reply and the rounds
  of the client's reader. The lemmas compose what the server and the client theories prove of
  each side; \<open>call_completes\<close> is the whole path.
\<close>

section \<open>Bytes in transit\<close>

text \<open>
  TCP hands the bytes of one side to the other in pieces: each piece is not empty and fits
  into one \<^verbatim>\<open>readv\<close>, whose vector always has room for the 64 KiB of its stack area.
\<close>

definition arriving :: "string \<Rightarrow> readv_call" where
  "arriving bs iov = Inr (take (sum_list iov) bs)"

definition pieces :: "string list \<Rightarrow> string \<Rightarrow> bool" where
  "pieces chs bs \<longleftrightarrow> concat chs = bs \<and> list_all (\<lambda>ch. ch \<noteq> [] \<and> length ch \<le> extra_size) chs"

definition on_host :: "rpc_env \<Rightarrow> string \<Rightarrow> rpc_env" where
  "on_host E ch = E\<lparr>env_kernel := (env_kernel E)\<lparr>sys_readv := (\<lambda>t fd. arriving ch)\<rparr>\<rparr>"

text \<open>A turn of the server's loop for each piece that arrives on a connection, and one for the workers' wake-up.\<close>

fun server_turns :: "rpc_env \<Rightarrow> u64 \<Rightarrow> string list \<Rightarrow> 'm rpc_world \<Rightarrow> 'm rpc_world option" where
  "server_turns E cid [] w = Some w"
| "server_turns E cid (ch # chs) w =
     do { w1 \<leftarrow> rpc_turn (on_host E ch) (\<lambda>n. Inr [(conn_ptr cid, EPOLLIN)]) w; server_turns E cid chs w1 }"

definition wakeup_turn :: "rpc_env \<Rightarrow> 'm rpc_world \<Rightarrow> 'm rpc_world option" where
  "wakeup_turn E = rpc_turn E (\<lambda>n. Inr [(0, EPOLLIN)])"

text \<open>The rounds of the client's reader for the pieces of the reply.\<close>

fun client_reads :: "endian \<Rightarrow> protobuf \<Rightarrow> string list \<Rightarrow> rpc_client \<Rightarrow> rpc_client option" where
  "client_reads e P [] u = Some u"
| "client_reads e P (ch # chs) u = do { u1 \<leftarrow> reader_round e P (arriving ch) u; client_reads e P chs u1 }"

lemma arriving_ok: "readv_ok (arriving bs)"
  by (auto simp: readv_ok_def arriving_def)

lemma arriving_all: "length bs \<le> extra_size \<Longrightarrow> arriving bs (read_iov b) = Inr bs"
  by (auto simp: arriving_def read_iov_def not_less intro: take_all)

section \<open>The server's side of a call\<close>

definition server_ready :: "rpc_env \<Rightarrow> u64 \<Rightarrow> nat \<Rightarrow> 'm rpc_world \<Rightarrow> bool" where
  "server_ready E cid tid w \<longleftrightarrow> write_ok (env_kernel E) \<and> write_no_error (env_kernel E) \<and> open_conn cid w \<and>
     \<not> tp_stop (worker_pool w) \<and> tp_tasks (worker_pool w) = [] \<and> pending_functors (the_loop w) = [] \<and>
     tid \<noteq> thread_id (the_loop w) \<and>
     (\<exists>c. conns w cid = Some c \<and> buffer_inv (tc_input c) \<and> contents (tc_input c) = [])"

lemma on_host_simps [simp]: "env_pb (on_host E ch) = env_pb E" "write_ok (env_kernel (on_host E ch)) = write_ok (env_kernel E)"
  "write_no_error (env_kernel (on_host E ch)) = write_no_error (env_kernel E)"
  "reply_bytes (on_host E ch) = reply_bytes E" "early (on_host E ch) = early E" "deferred (on_host E ch) = deferred E"
  by (simp_all add: on_host_def write_ok_def write_no_error_def reply_bytes_def early_def deferred_def triage_def fun_eq_iff)

lemma conn_ptr_dispatch: "server_dispatch K A u w (conn_ptr cid, revts) = conn_handle_event K (server_cbs u) cid revts w"
  by (simp add: server_dispatch_def conn_ptr_def accept_ptr_def)

lemma epollin_event: "handle_event True (ch\<lparr>ch_revents := EPOLLIN\<rparr>) cbs w = run_cb (read_cb cbs) w"
  by (cases "run_cb (read_cb cbs) w")
    (simp_all add: handle_event_def handle_event_with_guard_def EPOLLIN_def EPOLLHUP_def EPOLLERR_def EPOLLPRI_def EPOLLRDHUP_def
      EPOLLOUT_def)

lemma served_loop:
  assumes "served cid w out ts w'" "thread_id l = thread_id (the_loop w')" "pending_functors l = pending_functors (the_loop w')"
  shows "served cid w out ts (w'\<lparr>the_loop := l\<rparr>)"
  using assms by (simp add: served_def open_conn_loop)

text \<open>A read that brings a piece: the frames it completes are handled, the rest stays in the input buffer.\<close>

lemma read_event:
  assumes K: "write_ok (env_kernel E)" "write_no_error (env_kernel E)" and w: "open_conn cid w" "\<not> tp_stop (worker_pool w)"
    and c: "conns w cid = Some c" "buffer_inv (tc_input c)"
    and ch: "ch \<noteq> []" "length ch \<le> extra_size"
    and sc: "scan (parse_frame (Some kMaxBodySize)) (contents (tc_input c) @ ch) = (fs, None, rest)"
  shows "\<exists>w' c'. handle_read (env_kernel (on_host E ch)) (server_cbs (rpc_cbs (on_host E ch))) cid w = Some w' \<and>
    served cid w (concat (map (reply_bytes E) (concat (map (early E (rpc_services w) cid) fs))))
      (concat (map (deferred E (rpc_services w) cid) fs)) w' \<and>
    conns w' cid = Some c' \<and> buffer_inv (tc_input c') \<and> contents (tc_input c') = rest"
proof -
  let ?E = "on_host E ch"
  obtain b where b: "read_fd (arriving ch) (tc_input c) = (Inr (length ch), b)" "buffer_inv b"
      "contents b = contents (tc_input c) @ ch"
    using read_fd_Inr [OF c(2) arriving_ok arriving_all [OF ch(2)]] by blast
  let ?v = "put_conn cid (c\<lparr>tc_input := b\<rparr>) (tick w)"
  have sv: "served cid w [] [] ?v"
    using w c by (auto simp: served_def open_conn_def out_inv_def out_defs world_simps)
  then have v: "open_conn cid ?v" "\<not> tp_stop (worker_pool ?v)" "rpc_services ?v = rpc_services w"
    using w(2) by (simp_all add: served_def)
  have vc: "conns ?v cid = Some (c\<lparr>tc_input := b\<rparr>)" by (simp add: put_conn_def)
  obtain w1 c' where w1: "rpc_on_message ?E cid ?v = Some w1"
    "served cid ?v (concat (map (reply_bytes E) (concat (map (early E (rpc_services w) cid) fs))))
      (concat (map (deferred E (rpc_services w) cid) fs)) w1"
    "conns w1 cid = Some c'" "buffer_inv (tc_input c')" "contents (tc_input c') = rest"
    using rpc_on_message_out [of ?E, OF _ _ v(1,2) vc] K b sc v(3) by auto
  have "handle_read (env_kernel ?E) (server_cbs (rpc_cbs ?E)) cid w = Some w1"
    using c b(1) ch(1) w1(1)
    by (simp add: handle_read_def on_host_def call_cb_def server_cbs_alt rpc_cbs_def Let_def)
  then show ?thesis using served_trans [OF sv w1(2)] w1(3-5) by simp
qed

lemma read_turn:
  assumes K: "write_ok (env_kernel E)" "write_no_error (env_kernel E)" and w: "open_conn cid w" "\<not> tp_stop (worker_pool w)"
    and p: "pending_functors (the_loop w) = []" and c: "conns w cid = Some c" "buffer_inv (tc_input c)"
    and ch: "ch \<noteq> []" "length ch \<le> extra_size"
    and sc: "scan (parse_frame (Some kMaxBodySize)) (contents (tc_input c) @ ch) = (fs, None, rest)"
  shows "\<exists>w'. rpc_turn (on_host E ch) (\<lambda>n. Inr [(conn_ptr cid, EPOLLIN)]) w = Some w' \<and>
    served cid w (concat (map (reply_bytes E) (concat (map (early E (rpc_services w) cid) fs))))
      (concat (map (deferred E (rpc_services w) cid) fs)) w' \<and>
    (\<exists>c'. conns w' cid = Some c' \<and> buffer_inv (tc_input c') \<and> contents (tc_input c') = rest)"
proof -
  let ?E = "on_host E ch" and ?es = "concat (map (reply_bytes E) (concat (map (early E (rpc_services w) cid) fs)))"
  let ?ts = "concat (map (deferred E (rpc_services w) cid) fs)"
  obtain q where q: "poll (\<lambda>n. Inr [(conn_ptr cid, EPOLLIN)]) (loop_poller (the_loop w)) = ([(conn_ptr cid, EPOLLIN)], q)"
    by (simp add: poll_def)
  let ?w = "w\<lparr>the_loop := (the_loop w)\<lparr>loop_poller := q\<rparr>\<rparr>"
  have w': "open_conn cid ?w" "\<not> tp_stop (worker_pool ?w)" "conns ?w cid = Some c" using w c by (simp_all add: open_conn_loop)
  obtain w1 c1 where w1: "handle_read (env_kernel ?E) (server_cbs (rpc_cbs ?E)) cid ?w = Some w1" "served cid ?w ?es ?ts w1"
    "conns w1 cid = Some c1" "buffer_inv (tc_input c1)" "contents (tc_input c1) = rest"
    using read_event [OF K w' c(2) ch sc] by auto
  have s: "served cid w ?es ?ts w1" using w1(2) by (simp add: served_def open_conn_loop)
  have d: "server_dispatch (env_kernel ?E) (env_accept ?E) (rpc_cbs ?E) ?w (conn_ptr cid, EPOLLIN) = Some w1"
    using w1(1) c by (simp add: conn_ptr_dispatch conn_handle_event_def epollin_event conn_channel_cbs_def no_channel_cbs_def run_cb_def)
  have e: "pending_functors (the_loop w1) = []" using s p by (simp add: served_def)
  let ?w' = "w1\<lparr>the_loop := (the_loop w1)\<lparr>pending_functors := [], calling_pending_functors := False\<rparr>\<rparr>"
  have "rpc_turn ?E (\<lambda>n. Inr [(conn_ptr cid, EPOLLIN)]) w = Some ?w'"
    using e by (simp add: rpc_turn_def loop_turn_def q d do_pending_functors_def swap_functors_def)
  moreover have "served cid w ?es ?ts ?w'" by (rule served_loop [OF s]) (use e in simp_all)
  ultimately show ?thesis using w1(3-5) by simp
qed

lemma read_turns:
  assumes K: "write_ok (env_kernel E)" "write_no_error (env_kernel E)"
    and "open_conn cid w" "\<not> tp_stop (worker_pool w)" "pending_functors (the_loop w) = []" "conns w cid = Some c" "buffer_inv (tc_input c)"
    and "list_all (\<lambda>ch. ch \<noteq> [] \<and> length ch \<le> extra_size) chs"
    and "parse_frame (Some kMaxBodySize) (contents (tc_input c)) = Incomplete"
    and "scan (parse_frame (Some kMaxBodySize)) (contents (tc_input c) @ concat chs) = (fs, None, rest)"
  shows "\<exists>w'. server_turns E cid chs w = Some w' \<and>
    served cid w (concat (map (reply_bytes E) (concat (map (early E (rpc_services w) cid) fs))))
      (concat (map (deferred E (rpc_services w) cid) fs)) w'"
  using assms(3-)
proof (induction chs arbitrary: w c fs)
  case Nil
  then have "fs = []" by (simp add: srv.scan_incomplete)
  then show ?case using Nil.prems(1) by (simp add: served_refl)
next
  case (Cons ch chs)
  obtain gs hs r where g: "scan (parse_frame (Some kMaxBodySize)) (contents (tc_input c) @ ch) = (gs, None, r)"
    "scan (parse_frame (Some kMaxBodySize)) (r @ concat chs) = (hs, None, rest)" "fs = gs @ hs"
    using Cons.prems(8) srv.scan_append [of "contents (tc_input c) @ ch" "concat chs"]
    by (auto split: prod.splits option.splits)
  from read_turn [OF K Cons.prems(1-5) _ _ g(1)] Cons.prems(6) obtain w1 c1 where
    w1: "rpc_turn (on_host E ch) (\<lambda>n. Inr [(conn_ptr cid, EPOLLIN)]) w = Some w1"
    "served cid w (concat (map (reply_bytes E) (concat (map (early E (rpc_services w) cid) gs))))
      (concat (map (deferred E (rpc_services w) cid) gs)) w1"
    "conns w1 cid = Some c1" "buffer_inv (tc_input c1)" "contents (tc_input c1) = r" by auto
  then have s: "open_conn cid w1" "\<not> tp_stop (worker_pool w1)" "pending_functors (the_loop w1) = []" "rpc_services w1 = rpc_services w"
    using Cons.prems(2,3) by (simp_all add: served_def)
  from Cons.IH [OF s(1-3) w1(3,4)] Cons.prems(6) g(2) w1(5) s(4) srv.scan_rest_incomplete [OF g(1)] obtain w2 where
    "server_turns E cid chs w1 = Some w2"
    "served cid w1 (concat (map (reply_bytes E) (concat (map (early E (rpc_services w) cid) hs))))
      (concat (map (deferred E (rpc_services w) cid) hs)) w2" by auto
  then show ?case using w1(1) served_trans [OF w1(2)] g(3) by fastforce
qed

lemma wakeup_turn_out:
  assumes K: "write_ok (env_kernel E)" "write_no_error (env_kernel E)" and w: "open_conn cid w"
    and p: "pending_functors (the_loop w) = map (\<lambda>r. UserFunctor (SendResponse cid r)) rs"
  shows "\<exists>w'. wakeup_turn E w = Some w' \<and> out_stream cid w' = out_stream cid w @ concat (map (reply_bytes E) rs)"
proof -
  obtain q where q: "poll (\<lambda>n. Inr [(0, EPOLLIN)]) (loop_poller (the_loop w)) = ([(0, EPOLLIN)], q)" by (simp add: poll_def)
  let ?w = "w\<lparr>the_loop := wakeup_handle_read ((the_loop w)\<lparr>loop_poller := q\<rparr>)\<rparr>"
  have "open_conn cid ?w" "out_stream cid ?w = out_stream cid w"
    using w by (simp_all add: open_conn_loop wakeup_handle_read_def)
  moreover have "pending_functors (the_loop ?w) = map (\<lambda>r. UserFunctor (SendResponse cid r)) rs"
    using p by (simp add: wakeup_handle_read_def)
  ultimately have "\<exists>w'. do_pending_functors (server_exec (env_kernel E) (rpc_cbs E) (run_rpc_functor E)) ?w = Some w' \<and>
      out_stream cid w' = out_stream cid w @ concat (map (reply_bytes E) rs)"
    using functors_out [OF K, of cid ?w rs] by simp
  moreover have "wakeup_turn E w = do_pending_functors (server_exec (env_kernel E) (rpc_cbs E) (run_rpc_functor E)) ?w"
    by (simp add: wakeup_turn_def rpc_turn_def loop_turn_def q server_dispatch_def epollin_event run_cb_def)
  ultimately show ?thesis by simp
qed

lemma server_answers:
  assumes r: "server_ready E cid tid w" and chs: "pieces chs (wire_frame body)" and body: "body_ok (Some kMaxBodySize) body"
    and a: "answer E (rpc_services w) body = Some resp"
  shows "\<exists>w1 w2 w3. server_turns E cid chs w = Some w1 \<and>
    work_off E tid (length (tp_tasks (worker_pool w1))) w1 = Some w2 \<and> wakeup_turn E w2 = Some w3 \<and>
    out_stream cid w3 = out_stream cid w @ reply_bytes E resp"
proof -
  note K = r [unfolded server_ready_def, THEN conjunct1] r [unfolded server_ready_def, THEN conjunct2, THEN conjunct1]
  obtain c where c: "conns w cid = Some c" "buffer_inv (tc_input c)" "contents (tc_input c) = []"
    and w: "open_conn cid w" "\<not> tp_stop (worker_pool w)" "tp_tasks (worker_pool w) = []" "pending_functors (the_loop w) = []"
      "tid \<noteq> thread_id (the_loop w)"
    using r by (auto simp: server_ready_def)
  let ?ts = "deferred E (rpc_services w) cid body" and ?es = "early E (rpc_services w) cid body"
  have i: "parse_frame (Some kMaxBodySize) (contents (tc_input c)) = Incomplete" using c(3) srv.empty_incomplete by simp
  have sc: "scan (parse_frame (Some kMaxBodySize)) (contents (tc_input c) @ concat chs) = ([body], None, [])"
    using srv.scan_frames [of "[body]" "[]"] body srv.scan_incomplete [OF srv.empty_incomplete] chs c(3) by (simp add: pieces_def)
  obtain w1 where w1: "server_turns E cid chs w = Some w1" "served cid w (concat (map (reply_bytes E) ?es)) ?ts w1"
    using read_turns [OF K w(1,2,4) c(1,2) _ i sc] chs by (auto simp: pieces_def)
  then have s: "tid \<noteq> thread_id (the_loop w1)" "tp_tasks (worker_pool w1) = ?ts" "open_conn cid w1" "pending_functors (the_loop w1) = []"
    "out_stream cid w1 = out_stream cid w @ concat (map (reply_bytes E) ?es)"
    using w by (simp_all add: served_def)
  obtain w2 where w2: "work_off E tid (length ?ts) w1 = Some w2" "open_conn cid w2" "out_stream cid w2 = out_stream cid w1"
    "pending_functors (the_loop w2) = map (\<lambda>r. UserFunctor (SendResponse cid r)) (List.map_filter task_result ?ts)"
    using work_off_out [OF s(1-3) deferred_answered, of E] a s(4) by auto
  obtain w3 where w3: "wakeup_turn E w2 = Some w3"
    "out_stream cid w3 = out_stream cid w2 @ concat (map (reply_bytes E) (List.map_filter task_result ?ts))"
    using wakeup_turn_out [OF K w2(2,4)] by blast
  have "?es @ List.map_filter task_result ?ts = [resp]" using answer_split [of E "rpc_services w" body cid] a by simp
  then have "concat (map (reply_bytes E) ?es) @ concat (map (reply_bytes E) (List.map_filter task_result ?ts)) = reply_bytes E resp"
    by (simp flip: concat_append map_append)
  then show ?thesis using w1(1) s(2,5) w2(1,3) w3 by simp
qed

section \<open>The client's side of a call\<close>

definition client_ready :: "endian \<Rightarrow> protobuf \<Rightarrow> (nat \<Rightarrow> string \<times> string \<times> string) \<Rightarrow> nat \<Rightarrow> u32 \<Rightarrow> rpc_client \<Rightarrow> bool" where
  "client_ready e P req k i u \<longleftrightarrow> reachable client_init (client_step e P req) u \<and> rc_pcs u k = Registered i \<and>
     rc_connected u \<and> rc_reading u \<and> contents (rc_buf u) = [] \<and> \<not> pc_done_flag (rc_calls u k)"

text \<open>Handling responses commutes with what the reader does to its buffer and its own state.\<close>

lemma on_messages_buf:
  "foldl (channel_on_message P) (u\<lparr>rc_buf := b, rc_in_read := d\<rparr>) fs =
   (foldl (channel_on_message P) u fs)\<lparr>rc_buf := b, rc_in_read := d\<rparr>"
proof (induction fs arbitrary: u)
  case (Cons f fs)
  have "channel_on_message P (u\<lparr>rc_buf := b, rc_in_read := d\<rparr>) f = (channel_on_message P u f)\<lparr>rc_buf := b, rc_in_read := d\<rparr>"
    by (auto simp: channel_on_message_def upd_call_def Let_def split: option.split)
  then show ?case using Cons.IH by simp
qed simp

lemma round_frames:
  assumes u: "rc_connected u" "rc_reading u" "buffer_inv (rc_buf u)" and ch: "ch \<noteq> []" "length ch \<le> extra_size"
    and sc: "scan (parse_frame None) (contents (rc_buf u) @ ch) = (fs, None, rest)"
  shows "\<exists>b. reader_round e P (arriving ch) u = Some ((foldl (channel_on_message P) u fs)\<lparr>rc_buf := b, rc_in_read := False\<rparr>) \<and>
    buffer_inv b \<and> contents b = rest"
proof -
  let ?v = "foldl (channel_on_message P) u fs"
  have c: "reader_check u = u\<lparr>rc_buf := rc_buf u, rc_in_read := True\<rparr>" using u(1) by (simp add: reader_check_def)
  have v: "foldl (channel_on_message P) (reader_check u) fs = ?v\<lparr>rc_buf := rc_buf u, rc_in_read := True\<rparr>"
    unfolding c by (rule on_messages_buf)
  have "rc_buf (reader_check u) = rc_buf u" using c by simp
  then obtain b where "reader_read e P (arriving ch) (reader_check u) =
      Some ((?v\<lparr>rc_buf := rc_buf u, rc_in_read := True\<rparr>)\<lparr>rc_connected := True, rc_buf := b, rc_reading := True, rc_in_read := False\<rparr>)"
    "buffer_inv b" "contents b = rest"
    using reader_read_frames [of "reader_check u", OF _ arriving_ok arriving_all [OF ch(2)] ch(1), of fs None rest e P] u sc v
    by (auto simp: on_messages_frame)
  moreover have "(?v\<lparr>rc_buf := rc_buf u, rc_in_read := True\<rparr>)\<lparr>rc_connected := True, rc_buf := b, rc_reading := True, rc_in_read := False\<rparr> =
      ?v\<lparr>rc_buf := b, rc_in_read := False\<rparr>" for b
    using on_messages_frame [of P u fs] u(1,2) by simp
  ultimately show ?thesis using u(1) by (auto simp: reader_round_def)
qed

lemma client_reads_frames:
  assumes "rc_connected u" "rc_reading u" "buffer_inv (rc_buf u)" "parse_frame None (contents (rc_buf u)) = Incomplete"
    "list_all (\<lambda>ch. ch \<noteq> [] \<and> length ch \<le> extra_size) chs"
    "scan (parse_frame None) (contents (rc_buf u) @ concat chs) = (fs, None, rest)"
  shows "\<exists>b d. client_reads e P chs u = Some ((foldl (channel_on_message P) u fs)\<lparr>rc_buf := b, rc_in_read := d\<rparr>)"
  using assms
proof (induction chs arbitrary: u fs)
  case Nil
  then have "fs = []" by (simp add: cl.scan_incomplete)
  then show ?case by (intro exI [of _ "rc_buf u"] exI [of _ "rc_in_read u"]) simp
next
  case (Cons ch chs)
  obtain gs hs r where g: "scan (parse_frame None) (contents (rc_buf u) @ ch) = (gs, None, r)"
    "scan (parse_frame None) (r @ concat chs) = (hs, None, rest)" "fs = gs @ hs"
    using Cons.prems(6) cl.scan_append [of "contents (rc_buf u) @ ch" "concat chs"]
    by (auto split: prod.splits option.splits)
  let ?v = "foldl (channel_on_message P) u gs"
  obtain b where b: "reader_round e P (arriving ch) u = Some (?v\<lparr>rc_buf := b, rc_in_read := False\<rparr>)" "buffer_inv b" "contents b = r"
    using round_frames [OF Cons.prems(1-3) _ _ g(1), of e P] Cons.prems(5) by auto
  have "\<exists>b' d. client_reads e P chs (?v\<lparr>rc_buf := b, rc_in_read := False\<rparr>) =
      Some ((foldl (channel_on_message P) (?v\<lparr>rc_buf := b, rc_in_read := False\<rparr>) hs)\<lparr>rc_buf := b', rc_in_read := d\<rparr>)"
    by (rule Cons.IH) (use Cons.prems(1,2,5) b(2,3) g(2) cl.scan_rest_incomplete [OF g(1)] in \<open>simp_all add: on_messages_frame\<close>)
  then show ?case using b(1) g(3) by (auto simp: on_messages_buf)
qed

lemma ready_facts:
  assumes "client_ready e P req k i u"
  shows "rc_pending_calls u i = Some k" "buffer_inv (rc_buf u)" "pc_response (rc_calls u k) = None" "pc_done_runs (rc_calls u k) = 0"
proof -
  have inv: "client_inv u" using cm.reachable_inv [of e P req u] assms by (simp add: client_ready_def)
  have u: "open_id (rc_pcs u k) = Some i" "early_pc (rc_pcs u k)" "\<not> pc_done_flag (rc_calls u k)"
    using assms by (simp_all add: client_ready_def)
  have ok: "call_ok u k" "ids_ok u" using inv by (simp_all add: client_inv_def)
  show "rc_pending_calls u i = Some k" using ok(1) u(1,3) unfolding call_ok_def by blast
  show "buffer_inv (rc_buf u)" using ok(2) by (simp add: ids_ok_def)
  show "pc_response (rc_calls u k) = None" "pc_done_runs (rc_calls u k) = 0" using ok(1) u(2) by (simp_all add: call_ok_def)
qed

text \<open>The outcome a response gives the call it belongs to.\<close>

definition outcome :: "rpc_response \<Rightarrow> pending_call \<Rightarrow> pending_call \<Rightarrow> bool" where
  "outcome resp c c' \<longleftrightarrow> pc_done_flag c' \<and> pc_done_runs c' = (if pc_done c then pc_done_runs c + 1 else pc_done_runs c) \<and>
     (if rs_success resp then pc_response c' = Some (rs_result resp) \<and> pc_controller c' = pc_controller c
      else pc_response c' = pc_response c \<and> pc_controller c' = \<lparr>ctl_failed = True, ctl_err_text = rs_error resp\<rparr>)"

lemma client_receives:
  assumes r: "client_ready e P req k i u" and chs: "pieces chs (wire_frame body)" and body: "body_ok None body"
    and resp: "parse_response P body = Some resp" "rs_id resp = i"
    and n: "rq_id m = i"
  shows "\<exists>u'. client_reads e P chs (call_write e P (Some n) k m u) = Some u' \<and> outcome resp (rc_calls u k) (rc_calls u' k)"
proof -
  let ?u = "call_write e P (Some n) k m u"
  have u: "rc_connected ?u" "rc_reading ?u" "rc_buf ?u = rc_buf u" "rc_pending_calls ?u = rc_pending_calls u" "rc_calls ?u = rc_calls u"
    "contents (rc_buf u) = []"
    using r by (simp_all add: client_ready_def call_write_def set_pc_def)
  have sc: "scan (parse_frame None) (contents (rc_buf ?u) @ concat chs) = ([body], None, [])"
    using cl.scan_frames [of "[body]" "[]"] body cl.scan_incomplete [OF cl.empty_incomplete] chs u(3,6) by (simp add: pieces_def)
  have i: "parse_frame None (contents (rc_buf ?u)) = Incomplete" using u(3,6) cl.empty_incomplete by simp
  obtain b d where b: "client_reads e P chs ?u = Some ((channel_on_message P ?u body)\<lparr>rc_buf := b, rc_in_read := d\<rparr>)"
    using client_reads_frames [OF u(1,2) _ i _ sc, of e P] chs ready_facts(2) [OF r] u(3) by (auto simp: pieces_def)
  have "outcome resp (rc_calls u k) (rc_calls (channel_on_message P ?u body) k)"
    using ready_facts(1) [OF r] u(4,5) resp
    by (simp add: channel_on_message_def upd_call_def run_done_def fail_call_def SetFailed_def outcome_def Let_def)
  then show ?thesis using b by simp
qed

section \<open>The whole path\<close>

text \<open>
  A call and its answer, through client, network and server: the client writes the request, the
  server's loop reads it in the pieces \<open>chs\<close>, the workers run what is queued, the loop sends
  the reply, the client's reader reads it in the pieces \<open>rchs\<close>. \<open>complete_call\<close> says that every
  step succeeds and gives the final state of the client.
\<close>

definition complete_call :: "endian \<Rightarrow> rpc_env \<Rightarrow> (nat \<Rightarrow> string \<times> string \<times> string) \<Rightarrow> nat \<Rightarrow> u32 \<Rightarrow> u64 \<Rightarrow> nat \<Rightarrow>
    string list \<Rightarrow> string list \<Rightarrow> rpc_client \<Rightarrow> 'm rpc_world \<Rightarrow> rpc_client \<Rightarrow> bool" where
  "complete_call e E req k i cid tid chs rchs u w u' \<longleftrightarrow>
     (let request = request_of req k i; n = length (request_wire e (env_pb E) request) in
      (\<exists>w1 w2 w3. server_turns E cid chs w = Some w1 \<and>
         work_off E tid (length (tp_tasks (worker_pool w1))) w1 = Some w2 \<and>
         wakeup_turn E w2 = Some w3 \<and> out_stream cid w3 = out_stream cid w @ concat rchs) \<and>
      client_reads e (env_pb E) rchs (call_write e (env_pb E) (Some n) k request u) = Some u')"

lemma call_completes:
  assumes "client_ready e (env_pb E) req k i u" "server_ready E cid tid w" "protobuf_ok (env_pb E)"
    and req: "ser_request (env_pb E) (request_of req k i) = Some body" "length body \<le> kMaxBodySize"
    and a: "answer E (rpc_services w) body = Some resp" "rs_id resp = i"
    and rep: "ser_response (env_pb E) resp = Some rbody" "length rbody < 2 ^ 32"
    and chs: "pieces chs (request_wire e (env_pb E) (request_of req k i))" "pieces rchs (wire_frame rbody)"
  shows "\<exists>u'. complete_call e E req k i cid tid chs rchs u w u' \<and> outcome resp (rc_calls u k) (rc_calls u' k)"
proof -
  let ?n = "length (request_wire e (env_pb E) (request_of req k i))"
  have ok: "body_ok (Some kMaxBodySize) body" "body_ok None rbody"
    using req(2) rep(2) by (simp_all add: body_ok_def kMaxBodySize_def)
  have p: "parse_response (env_pb E) rbody = Some resp" using assms(3) rep(1) by (simp add: protobuf_ok_def)
  obtain w1 w2 w3 where w: "server_turns E cid chs w = Some w1"
    "work_off E tid (length (tp_tasks (worker_pool w1))) w1 = Some w2" "wakeup_turn E w2 = Some w3"
    "out_stream cid w3 = out_stream cid w @ reply_bytes E resp"
    using server_answers [OF assms(2) chs(1) [unfolded request_wire_frame [OF req(1)]] ok(1) a(1)] by blast
  have "reply_bytes E resp = concat rchs" using rep(1) chs(2) by (simp add: reply_bytes_def pieces_def)
  moreover obtain u' where "client_reads e (env_pb E) rchs (call_write e (env_pb E) (Some ?n) k (request_of req k i) u) = Some u'"
    "outcome resp (rc_calls u k) (rc_calls u' k)"
    using client_receives [OF assms(1) chs(2) ok(2) p a(2) request_of_fields(1)] by blast
  ultimately show ?thesis using w by (auto simp: complete_call_def Let_def)
qed

text \<open>The path of a call that a service answers.\<close>

lemma service_call_completes:
  assumes "client_ready e (env_pb E) req k i u" "server_ready E cid tid w" "protobuf_ok (env_pb E)"
    and "ser_request (env_pb E) (request_of req k i) = Some body" "length body \<le> kMaxBodySize"
    and "req k = (name, meth, args)" "rpc_services w name = Some service" "svc_find_method service meth"
    and "svc_parse service meth args = Some m" "svc_call service meth m controller_new = Some r"
    and "ser_response (env_pb E) (response_of i r) = Some rbody" "length rbody < 2 ^ 32"
    and "pieces chs (request_wire e (env_pb E) (request_of req k i))" "pieces rchs (wire_frame rbody)"
  shows "\<exists>u'. complete_call e E req k i cid tid chs rchs u w u' \<and> outcome (response_of i r) (rc_calls u k) (rc_calls u' k)"
proof -
  note req = request_of_fields(1) request_of_fields(2-4) [of req k, OF assms(6)]
  have p: "parse_request (env_pb E) body = Some (request_of req k i)" using assms(3,4) by (simp add: protobuf_ok_def)
  have "answer E (rpc_services w) body = Some (response_of i r)" using assms(7-10) by (simp add: answer_def p req)
  moreover have "rs_id (response_of i r) = i" by (simp add: response_of_def error_response_def split: prod.split)
  ultimately show ?thesis using call_completes [OF assms(1-5) _ _ assms(11-14)] by blast
qed

text \<open>A client with a registered call and a server of the other byte order with an idle connection.\<close>

definition demo_registered :: rpc_client where
  "demo_registered = call_register 0 1 (call_start 0 demo_channel)"

definition far_env :: rpc_env where
  "far_env = demo_env\<lparr>env_endian := BigEndian\<rparr>"

definition in_two :: "string \<Rightarrow> string list" where
  "in_two bs = [take 5 bs, drop 5 bs]"

lemma demo_client_ready: "client_ready LittleEndian demo_protobuf req 0 1 demo_registered"
proof -
  have s: "reachable client_init (client_step LittleEndian demo_protobuf req) (call_start 0 demo_channel)"
    using client_init_fields(2,5) [OF demo_channel_init]
    by (intro reach_step [OF reach_init [of client_init, OF demo_channel_init]] client_step.starts) simp_all
  have "reachable client_init (client_step LittleEndian demo_protobuf req) demo_registered"
    unfolding demo_registered_def by (rule reach_step [OF s client_step.registers]) (rule demo_started(1))
  moreover have "\<not> pc_done_flag (rc_calls demo_registered 0)"
    using demo_sent_state(5) [of 0] by (simp add: demo_sent_def demo_registered_def call_write_def set_pc_def)
  ultimately show ?thesis
    using demo_started [of 0]
    by (simp add: client_ready_def demo_registered_def call_register_def set_pc_def contents_buffer_new)
qed

lemma far_env_simps: "env_pb far_env = demo_protobuf" "env_kernel far_env = calm_kernel"
  by (simp_all add: far_env_def demo_env_def)

lemma demo_server_ready: "server_ready far_env 1 2 (demo_rpc [])"
proof -
  have "\<exists>c. conns (demo_rpc []) 1 = Some c \<and> buffer_inv (tc_input c) \<and> contents (tc_input c) = []"
    by (simp add: demo_rpc_def append_buf_inv buffer_new_inv queue_simps)
  moreover have "tp_tasks (worker_pool (demo_rpc [])) = []" "\<not> tp_stop (worker_pool (demo_rpc []))"
    by (simp_all add: demo_rpc_def thread_pool_new_def)
  ultimately show ?thesis
    using calm_kernel_ok demo_rpc_open by (simp add: server_ready_def far_env_simps)
qed

lemma in_two_pieces: "5 < length bs \<Longrightarrow> length bs \<le> extra_size \<Longrightarrow> pieces (in_two bs) bs"
  by (auto simp: pieces_def in_two_def)

end
