(* ===== verification/Call_Session.thy ===== *)
theory Call_Session
  imports Remote_Call
begin

text \<open>
  Many calls at once on one connection: the machine of the client, the loop and the workers of
  the server and the bytes in transit, interleaved in any order. The server's half of the
  invariant counts the responses it still owes; the client's half says which requests are on
  the wire and where in the reply stream the reader is.
\<close>

section \<open>The server's half\<close>

text \<open>
  Which channels a turn of the loop finds ready: the wake-up descriptor, the connection for
  reading, the connection for writing. \<open>ch\<close> are the bytes a read event brings.
\<close>

definition turn_events :: "u64 \<Rightarrow> bool \<Rightarrow> bool \<Rightarrow> bool \<Rightarrow> (nat \<times> u32) list" where
  "turn_events cid wk rd wr =
     (if wk then [(0, EPOLLIN)] else []) @
     (if rd \<or> wr then [(conn_ptr cid, (if rd then EPOLLIN else 0) OR (if wr then EPOLLOUT else 0))] else [])"

definition session_turn :: "rpc_env \<Rightarrow> u64 \<Rightarrow> bool \<Rightarrow> string \<Rightarrow> bool \<Rightarrow> 'm rpc_world \<Rightarrow> 'm rpc_world option" where
  "session_turn E cid wk ch wr = rpc_turn (on_host E ch) (\<lambda>n. Inr (turn_events cid wk (ch \<noteq> []) wr))"

text \<open>
  The frames \<open>fs\<close> have been handled and the bytes \<open>rest\<close> wait for more; \<open>rs\<close> are the responses given to
  the connection, and what the workers and the loop's queue hold makes up the other answers.
\<close>

definition server_side :: "rpc_env \<Rightarrow> (string \<rightharpoonup> 'm service) \<Rightarrow> u64 \<Rightarrow> string list \<Rightarrow> string \<Rightarrow> rpc_response list \<Rightarrow> 'm rpc_world \<Rightarrow> bool" where
  "server_side E svcs cid fs rest rs w \<longleftrightarrow>
     (\<exists>resps. settling cid (concat (map (reply_bytes E) rs)) resps w \<and> mset rs + resps = mset (List.map_filter (answer E svcs) fs)) \<and>
     rpc_services w = svcs \<and> \<not> tp_stop (worker_pool w) \<and> in_flight w (thread_id (the_loop w)) = None \<and>
     (\<exists>c. conns w cid = Some c \<and> buffer_inv (tc_input c) \<and> contents (tc_input c) = rest)"

definition answered :: "rpc_env \<Rightarrow> (string \<rightharpoonup> 'm service) \<Rightarrow> string \<Rightarrow> bool" where
  "answered E svcs f \<longleftrightarrow> (parse_request (env_pb E) f \<noteq> None \<longrightarrow> answer E svcs f \<noteq> None)"

lemma answer_on_host [simp]: "answer (on_host E ch) = answer E"
  by (simp add: fun_eq_iff answer_def)

lemma server_side_on_host [simp]: "server_side (on_host E ch) = server_side E"
  by (intro ext) (simp add: server_side_def)

lemma server_side_open: "server_side E svcs cid fs rest rs w \<Longrightarrow> open_conn cid w"
  by (auto simp: server_side_def settling_def)

lemma server_side_stream: "server_side E svcs cid fs rest rs w \<Longrightarrow> out_stream cid w = concat (map (reply_bytes E) rs)"
  by (auto simp: server_side_def settling_def)

lemma map_filter_append [simp]: "List.map_filter f (xs @ ys) = List.map_filter f xs @ List.map_filter f ys"
  by (simp add: List.map_filter_def)

lemma owed_served: "served cid w out ts w' \<Longrightarrow> owed w' = owed w + mset (List.map_filter task_result ts)"
  by (simp add: owed_def served_def)

definition same_work :: "'m rpc_world \<Rightarrow> 'm rpc_world \<Rightarrow> bool" where
  "same_work w w' \<longleftrightarrow> worker_pool w' = worker_pool w \<and> in_flight w' = in_flight w"

lemma same_work_served: "served cid w out [] w' \<Longrightarrow> same_work w w'"
  by (simp add: served_def same_work_def)

text \<open>What a step of the loop adds.\<close>

lemma served_side:
  assumes s: "server_side E svcs cid fs rest rs w"
    and sv: "served cid w (concat (map (reply_bytes E) (concat (map (early E svcs cid) gs)))) (concat (map (deferred E svcs cid) gs)) w'"
    and gs: "list_all (answered E svcs) gs"
    and c: "conns w' cid = Some c'" "buffer_inv (tc_input c')" "contents (tc_input c') = rest'"
  shows "server_side E svcs cid (fs @ gs) rest' (rs @ concat (map (early E svcs cid) gs)) w'"
proof -
  let ?ts = "concat (map (deferred E svcs cid) gs)" and ?es = "concat (map (early E svcs cid) gs)"
  obtain resps where r: "settling cid (concat (map (reply_bytes E) rs)) resps w" "mset rs + resps = mset (List.map_filter (answer E svcs) fs)"
    using s by (auto simp: server_side_def)
  have ts: "list_all (task_for cid) ?ts"
    using deferred_answered gs by (fastforce simp: list_all_iff task_for_def answered_def)
  have "settling cid (concat (map (reply_bytes E) (rs @ ?es))) (resps + mset (List.map_filter task_result ?ts)) w'"
    using r(1) sv ts owed_served [OF sv] by (auto simp: settling_def served_def)
  moreover have "mset (rs @ ?es) + (resps + mset (List.map_filter task_result ?ts)) = mset (List.map_filter (answer E svcs) (fs @ gs))"
    using r(2) answers_mset [of E svcs gs cid] by simp
  moreover have "rpc_services w' = svcs" "\<not> tp_stop (worker_pool w')" "in_flight w' (thread_id (the_loop w')) = None" using s sv by (auto simp: server_side_def served_def)
  ultimately show ?thesis using c unfolding server_side_def by blast
qed

lemma functors_side:
  assumes K: "write_ok (env_kernel E)" "write_no_error (env_kernel E)" and s: "server_side E svcs cid fs rest rs w"
  shows "\<exists>w' es. do_pending_functors (server_exec (env_kernel E) (rpc_cbs E) (run_rpc_functor E)) w = Some w' \<and>
    server_side E svcs cid fs rest (rs @ es) w' \<and> pending_functors (the_loop w') = [] \<and>
    same_work w w'"
proof -
  obtain resps c where r: "settling cid (concat (map (reply_bytes E) rs)) resps w" "mset rs + resps = mset (List.map_filter (answer E svcs) fs)"
    and c: "conns w cid = Some c" "buffer_inv (tc_input c)" "contents (tc_input c) = rest"
    using s by (auto simp: server_side_def)
  obtain es where es: "pending_functors (the_loop w) = map (\<lambda>r. UserFunctor (SendResponse cid r)) es" "mset es + owed w = resps"
    using r(1) by (auto simp: settling_def)
  obtain w' c' where w': "do_pending_functors (server_exec (env_kernel E) (rpc_cbs E) (run_rpc_functor E)) w = Some w'"
    "served cid (dequeued w) (concat (map (reply_bytes E) es)) [] w'" "conns w' cid = Some c'" "tc_input c' = tc_input c"
    using functors_served [OF K server_side_open [OF s] es(1) c(1)] by blast
  have f: "open_conn cid w'" "out_stream cid w' = out_stream cid w @ concat (map (reply_bytes E) es)" "worker_pool w' = worker_pool w"
    "rpc_services w' = rpc_services w" "in_flight w' = in_flight w" "pending_functors (the_loop w') = []"
    "thread_id (the_loop w') = thread_id (the_loop w)"
    using w'(2) by (simp_all add: served_def dequeued_def open_conn_loop)
  have o: "owed w' = owed w" using f(3,5) by (simp add: owed_def)
  have "settling cid (concat (map (reply_bytes E) (rs @ es))) (owed w) w'"
    using r(1) f o by (auto simp: settling_def)
  moreover have "mset (rs @ es) + owed w = mset (List.map_filter (answer E svcs) fs)" using r(2) unfolding es(2) [symmetric] by (simp add: ac_simps)
  ultimately have "server_side E svcs cid fs rest (rs @ es) w'"
    using s c w'(3,4) f(3-5,7) unfolding server_side_def by auto
  then show ?thesis using w'(1) f(3,5,6) unfolding same_work_def by blast
qed

fun worker_of :: "work_action \<Rightarrow> nat" where
  "worker_of (Take tid) = tid"
| "worker_of (Reply tid) = tid"

lemma work_side:
  assumes "server_side E svcs cid fs rest rs w" "work_act E w a = Some w'" "worker_of a \<noteq> thread_id (the_loop w)"
  shows "server_side E svcs cid fs rest rs w'"
proof -
  have "fold_cb (work_act E) [a] w = Some w'" using assms(2) by simp
  moreover have "rpc_services w' = rpc_services w \<and> tp_stop (worker_pool w') = tp_stop (worker_pool w) \<and> conns w' = conns w \<and>
      in_flight w' (thread_id (the_loop w')) = in_flight w (thread_id (the_loop w))"
  proof (cases a)
    case (Take tid)
    then have "worker_take tid w = Some w'" using assms(2) by (simp split: if_splits)
    then show ?thesis by (rule worker_take_cases) (use assms(3) Take in simp)
  next
    case (Reply tid)
    then have "tid \<noteq> thread_id (the_loop w)" "worker_reply E tid w = Some w'" using assms(2) by (simp_all split: if_splits)
    then show ?thesis by (rule worker_reply_cases) (use assms(3) Reply in \<open>simp add: loop_defs\<close>)
  qed
  ultimately show ?thesis using assms(1) settling_run [of cid _ _ w E "[a]" w'] unfolding server_side_def by metis
qed

text \<open>The event handler of the connection: the read, then the write.\<close>

lemma ready_event:
  "handle_event True (chn\<lparr>ch_revents := (if rd then EPOLLIN else 0) OR (if wr then EPOLLOUT else 0)\<rparr>) cbs w =
     do { w1 \<leftarrow> (if rd then run_cb (read_cb cbs) w else Some w); if wr then run_cb (write_cb cbs) w1 else Some w1 }"
  by (cases rd; cases wr)
    (simp_all add: handle_event_def handle_event_with_guard_def EPOLLIN_def EPOLLHUP_def EPOLLERR_def EPOLLPRI_def EPOLLRDHUP_def
      EPOLLOUT_def)

lemma epollout_event: "handle_event True (chn\<lparr>ch_revents := EPOLLOUT\<rparr>) cbs w = run_cb (write_cb cbs) w"
  using ready_event [where rd = False and wr = True and chn = chn and cbs = cbs and w = w] by simp

lemma write_event:
  assumes "write_ok K" "open_conn cid w" "conns w cid = Some c"
  shows "\<exists>w' c'. handle_write K (server_cbs (rpc_cbs E)) cid w = Some w' \<and> served cid w [] [] w' \<and> conns w' cid = Some c' \<and> tc_input c' = tc_input c"
proof -
  have cb: "wc_cb (server_cbs (rpc_cbs E)) = None"
    by (simp add: server_cbs_alt rpc_cbs_def reply_cbs_def no_conn_cbs_def)
  obtain w' where w': "handle_write K (server_cbs (rpc_cbs E)) cid w = Some w'" "out_inv cid w'" "out_stream cid w' = out_stream cid w"
    using handle_write_out [OF assms(1) cb] assms(2) by (auto simp: open_conn_def)
  have q: "quiet w w'" by (rule quiet_handle_write [OF cb w'(1)])
  obtain c' where c': "conns w' cid = Some c'" "tc_state c' = tc_state c" "tc_input c' = tc_input c" by (rule quiet_conn [OF q assms(3)])
  then have "open_conn cid w'" using w'(2) assms(2,3) by (simp add: open_conn_def)
  then show ?thesis using served_send [OF _ q] w' c' by simp
qed

lemma conn_event:
  assumes K: "write_ok (env_kernel E)" "write_no_error (env_kernel E)" and s: "server_side E svcs cid fs rest rs w"
    and ch: "length ch \<le> extra_size" and i: "parse_frame (Some kMaxBodySize) rest = Incomplete"
    and sc: "scan (parse_frame (Some kMaxBodySize)) (rest @ ch) = (gs, None, rest')" and gs: "list_all (answered E svcs) gs"
  shows "\<exists>w' es. conn_handle_event (env_kernel (on_host E ch)) (server_cbs (rpc_cbs (on_host E ch))) cid
      ((if ch \<noteq> [] then EPOLLIN else 0) OR (if wr then EPOLLOUT else 0)) w = Some w' \<and>
    server_side E svcs cid (fs @ gs) rest' (rs @ es) w' \<and> (gs = [] \<longrightarrow> same_work w w')"
proof -
  let ?E = "on_host E ch"
  obtain c where c: "conns w cid = Some c" "buffer_inv (tc_input c)" "contents (tc_input c) = rest"
    and w: "\<not> tp_stop (worker_pool w)" "rpc_services w = svcs" using s by (auto simp: server_side_def)
  have "\<exists>w1 es. (if ch \<noteq> [] then handle_read (env_kernel ?E) (server_cbs (rpc_cbs ?E)) cid w else Some w) = Some w1 \<and>
      server_side E svcs cid (fs @ gs) rest' (rs @ es) w1 \<and> (gs = [] \<longrightarrow> same_work w w1)"
  proof (cases "ch = []")
    case True
    then have "gs = []" "rest' = rest" using sc srv.scan_incomplete [OF i] by simp_all
    then show ?thesis using True s by (intro exI [of _ w] exI [of _ "[]"]) (simp add: same_work_def)
  next
    case False
    obtain w1 c1 where 1: "handle_read (env_kernel ?E) (server_cbs (rpc_cbs ?E)) cid w = Some w1"
      "served cid w (concat (map (reply_bytes E) (concat (map (early E svcs cid) gs)))) (concat (map (deferred E svcs cid) gs)) w1"
      "conns w1 cid = Some c1" "buffer_inv (tc_input c1)" "contents (tc_input c1) = rest'"
      using read_event [OF K server_side_open [OF s] w(1) c(1,2) False ch, of gs rest'] sc c(3) w(2) by blast
    then show ?thesis using served_side [OF s 1(2) gs 1(3-5)] same_work_served [of cid w _ w1] False by auto
  qed
  then obtain w1 es where 1: "(if ch \<noteq> [] then handle_read (env_kernel ?E) (server_cbs (rpc_cbs ?E)) cid w else Some w) = Some w1"
    "server_side E svcs cid (fs @ gs) rest' (rs @ es) w1" "gs = [] \<longrightarrow> same_work w w1" by blast
  obtain c1 where c1: "conns w1 cid = Some c1" "buffer_inv (tc_input c1)" "contents (tc_input c1) = rest'"
    using 1(2) by (auto simp: server_side_def)
  obtain w2 where 2: "(if wr then handle_write (env_kernel ?E) (server_cbs (rpc_cbs ?E)) cid w1 else Some w1) = Some w2"
    "server_side E svcs cid (fs @ gs) rest' (rs @ es) w2" "same_work w1 w2"
  proof (cases wr)
    case True
    obtain w2 c2 where "handle_write (env_kernel ?E) (server_cbs (rpc_cbs ?E)) cid w1 = Some w2" "served cid w1 [] [] w2"
      "conns w2 cid = Some c2" "tc_input c2 = tc_input c1"
      using write_event [OF _ server_side_open [OF 1(2)] c1(1), of "env_kernel ?E" ?E] K(1) by auto
    then show thesis using that True served_side [OF 1(2), of "[]"] same_work_served [of cid w1 _ w2] c1(2,3) by simp
  qed (use that 1(2) in \<open>simp add: same_work_def\<close>)
  have "conn_handle_event (env_kernel ?E) (server_cbs (rpc_cbs ?E)) cid ((if ch \<noteq> [] then EPOLLIN else 0) OR (if wr then EPOLLOUT else 0)) w =
      do { w1 \<leftarrow> (if ch \<noteq> [] then handle_read (env_kernel ?E) (server_cbs (rpc_cbs ?E)) cid w else Some w);
           if wr then handle_write (env_kernel ?E) (server_cbs (rpc_cbs ?E)) cid w1 else Some w1 }"
    unfolding conn_handle_event_def by (simp only: c(1) ready_event bind.simps set_revents_def) (simp add: conn_channel_cbs_def no_channel_cbs_def run_cb_def)
  then show ?thesis using 1(1,3) 2 by (auto simp: same_work_def)
qed

lemma side_loop:
  assumes "server_side E svcs cid fs rest rs w" "thread_id l = thread_id (the_loop w)" "pending_functors l = pending_functors (the_loop w)"
  shows "server_side E svcs cid fs rest rs (w\<lparr>the_loop := l\<rparr>)"
  using assms by (simp add: server_side_def settling_def open_conn_loop owed_def)

lemma turn_side:
  assumes K: "write_ok (env_kernel E)" "write_no_error (env_kernel E)" and s: "server_side E svcs cid fs rest rs w"
    and ch: "length ch \<le> extra_size" and i: "parse_frame (Some kMaxBodySize) rest = Incomplete"
    and sc: "scan (parse_frame (Some kMaxBodySize)) (rest @ ch) = (gs, None, rest')" and gs: "list_all (answered E svcs) gs"
  shows "\<exists>w' es. session_turn E cid wk ch wr w = Some w' \<and> server_side E svcs cid (fs @ gs) rest' (rs @ es) w' \<and>
    pending_functors (the_loop w') = [] \<and> (gs = [] \<longrightarrow> same_work w w')"
proof -
  let ?E = "on_host E ch" and ?evs = "turn_events cid wk (ch \<noteq> []) wr"
  let ?d = "server_dispatch (env_kernel ?E) (env_accept ?E) (rpc_cbs ?E)"
  obtain q where q: "poll (\<lambda>n. Inr ?evs) (loop_poller (the_loop w)) = (?evs, q)" by (simp add: poll_def)
  let ?w = "w\<lparr>the_loop := (the_loop w)\<lparr>loop_poller := q\<rparr>\<rparr>"
  have "server_side E svcs cid fs rest rs ?w" by (rule side_loop [OF s]) simp_all
  then obtain w1 where 1: "fold_cb ?d (if wk then [(0, EPOLLIN)] else []) ?w = Some w1" "server_side E svcs cid fs rest rs w1" "same_work w w1"
    using side_loop [of E svcs cid fs rest rs ?w "wakeup_handle_read (the_loop ?w)"]
    by (cases wk) (auto simp: server_dispatch_def epollin_event run_cb_def wakeup_handle_read_def same_work_def)
  obtain w2 es where 2: "fold_cb ?d (if ch \<noteq> [] \<or> wr then [(conn_ptr cid, (if ch \<noteq> [] then EPOLLIN else 0) OR (if wr then EPOLLOUT else 0))] else []) w1 = Some w2"
    "server_side E svcs cid (fs @ gs) rest' (rs @ es) w2" "gs = [] \<longrightarrow> same_work w1 w2"
  proof (cases "ch \<noteq> [] \<or> wr")
    case True
    then show thesis using that conn_event [OF K 1(2) ch i sc gs, of wr] by (auto simp: conn_ptr_dispatch)
  next
    case False
    then show thesis using that [of w1 "[]"] 1(2) sc srv.scan_incomplete [OF i] by (simp add: same_work_def)
  qed
  obtain w3 es' where 3: "do_pending_functors (server_exec (env_kernel ?E) (rpc_cbs ?E) (run_rpc_functor ?E)) w2 = Some w3"
    "server_side ?E svcs cid (fs @ gs) rest' ((rs @ es) @ es') w3" "pending_functors (the_loop w3) = []" "same_work w2 w3"
    using functors_side [of ?E svcs cid "fs @ gs" rest' "rs @ es" w2] K 2(2) by auto
  have "fold_cb ?d ?evs ?w = Some w2" unfolding turn_events_def fold_cb_append 1(1) bind.bind_lunit by (rule 2(1))
  then have "session_turn E cid wk ch wr w = Some w3"
    using 3(1) by (simp only: session_turn_def rpc_turn_def loop_turn_def q prod.case bind.bind_lunit)
  moreover have "gs = [] \<longrightarrow> same_work w w3" using 1(3) 2(3) 3(4) by (simp add: same_work_def)
  ultimately show ?thesis using 3(2,3) by (intro exI [of _ w3] exI [of _ "es @ es'"]) simp
qed

section \<open>The session\<close>

text \<open>
  A channel and the server's end of its connection. \<open>ses_up\<close> bytes of the requests have reached the
  server's socket, \<open>ses_down\<close> bytes of the replies the client's.
\<close>

record 'm session =
  ses_client :: rpc_client
  ses_server :: "'m rpc_world"
  ses_up :: nat
  ses_down :: nat

text \<open>
  The moves of the client other than reading. The socket takes a request whole or the write
  fails: the client does not repeat a short write.
\<close>

inductive caller_step :: "endian \<Rightarrow> protobuf \<Rightarrow> (nat \<Rightarrow> string \<times> string \<times> string) \<Rightarrow> rpc_client \<Rightarrow> rpc_client \<Rightarrow> bool"
  for e P req where
  call_starts: "rc_pcs u k = NotCalled \<Longrightarrow> rc_issued u + 1 < 2 ^ 32 \<Longrightarrow> caller_step e P req u (call_start k u)"
| call_registers: "rc_pcs u k = GotId i \<Longrightarrow> caller_step e P req u (call_register k i u)"
| call_sends: "rc_pcs u k = Registered i \<Longrightarrow>
    caller_step e P req u (call_write e P (Some (length (request_wire e P (request_of req k i)))) k (request_of req k i) u)"
| call_send_fails: "rc_pcs u k = Registered i \<Longrightarrow> caller_step e P req u (call_write e P None k (request_of req k i) u)"
| call_wakes: "rc_pcs u k = Waiting i \<Longrightarrow> pc_done_flag (rc_calls u k) \<Longrightarrow> caller_step e P req u (set_pc k (Finished (Some i)) u)"
| reader_checks: "rc_reading u \<Longrightarrow> \<not> rc_in_read u \<Longrightarrow> caller_step e P req u (reader_check u)"
| client_disconnects: "caller_step e P req u (disconnect u)"

text \<open>
  Callers, the reader, the end of the stream, a turn of the server's loop, a step of one of
  its workers.
\<close>

inductive session_step :: "endian \<Rightarrow> rpc_env \<Rightarrow> (nat \<Rightarrow> string \<times> string \<times> string) \<Rightarrow> u64 \<Rightarrow> 'm session \<Rightarrow> 'm session \<Rightarrow> bool"
  for e E req cid where
  calls: "caller_step e (env_pb E) req (ses_client s) u \<Longrightarrow> session_step e E req cid s (s\<lparr>ses_client := u\<rparr>)"
| receives: "rc_reading (ses_client s) \<Longrightarrow> rc_in_read (ses_client s) \<Longrightarrow>
    bs = take n (drop (ses_down s) (wrote cid (net_log (ses_server s)))) \<Longrightarrow> bs \<noteq> [] \<Longrightarrow> length bs \<le> extra_size \<Longrightarrow>
    reader_read e (env_pb E) (arriving bs) (ses_client s) = Some u \<Longrightarrow>
    session_step e E req cid s (s\<lparr>ses_client := u, ses_down := ses_down s + length bs\<rparr>)"
| hangs_up: "rc_reading (ses_client s) \<Longrightarrow> rc_in_read (ses_client s) \<Longrightarrow> at_eof readv (ses_client s) \<Longrightarrow>
    reader_read e (env_pb E) readv (ses_client s) = Some u \<Longrightarrow> session_step e E req cid s (s\<lparr>ses_client := u\<rparr>)"
| turns: "ch = take n (drop (ses_up s) (rc_wire (ses_client s))) \<Longrightarrow> length ch \<le> extra_size \<Longrightarrow>
    session_turn E cid wk ch wr (ses_server s) = Some w \<Longrightarrow>
    session_step e E req cid s (s\<lparr>ses_server := w, ses_up := ses_up s + length ch\<rparr>)"
| works: "worker_of a \<noteq> thread_id (the_loop (ses_server s)) \<Longrightarrow> work_act E (ses_server s) a = Some w \<Longrightarrow>
    session_step e E req cid s (s\<lparr>ses_server := w\<rparr>)"

text \<open>A connected channel and a connection on which nothing has happened yet.\<close>

definition session_init :: "(string \<rightharpoonup> 'm service) \<Rightarrow> u64 \<Rightarrow> 'm session \<Rightarrow> bool" where
  "session_init svcs cid s \<longleftrightarrow> client_init (ses_client s) \<and> ses_up s = 0 \<and> ses_down s = 0 \<and>
     open_conn cid (ses_server s) \<and> out_stream cid (ses_server s) = [] \<and> rpc_services (ses_server s) = svcs \<and>
     \<not> tp_stop (worker_pool (ses_server s)) \<and> idle_workers (ses_server s) \<and> pending_functors (the_loop (ses_server s)) = [] \<and>
     (\<exists>c. conns (ses_server s) cid = Some c \<and> buffer_inv (tc_input c) \<and> contents (tc_input c) = [])"

text \<open>The request of a call with an id, as bytes, and the server's answer to it.\<close>

definition body_of :: "rpc_env \<Rightarrow> (nat \<Rightarrow> string \<times> string \<times> string) \<Rightarrow> nat \<times> u32 \<Rightarrow> string" where
  "body_of E req ki = (case ki of (k, i) \<Rightarrow> the (ser_request (env_pb E) (request_of req k i)))"

definition reply_to :: "rpc_env \<Rightarrow> (string \<rightharpoonup> 'm service) \<Rightarrow> (nat \<Rightarrow> string \<times> string \<times> string) \<Rightarrow> nat \<times> u32 \<Rightarrow> rpc_response" where
  "reply_to E svcs req ki = the (answer E svcs (body_of E req ki))"

text \<open>The requests fit into frames, the services answer them, and the answers fit into frames.\<close>

definition callable :: "rpc_env \<Rightarrow> (string \<rightharpoonup> 'm service) \<Rightarrow> (nat \<Rightarrow> string \<times> string \<times> string) \<Rightarrow> bool" where
  "callable E svcs req \<longleftrightarrow> protobuf_ok (env_pb E) \<and>
     (\<forall>k i. \<exists>body resp rbody. ser_request (env_pb E) (request_of req k i) = Some body \<and> length body \<le> kMaxBodySize \<and>
        answer E svcs body = Some resp \<and> ser_response (env_pb E) resp = Some rbody \<and> length rbody < 2 ^ 32)"

lemma answer_id:
  assumes "answer E svcs f = Some r" "parse_request (env_pb E) f = Some q" shows "rs_id r = rq_id q"
  using assms by (auto simp: answer_def response_of_def error_response_def split: option.splits if_splits)

lemma callable_facts:
  assumes "callable E svcs req"
  shows "ser_request (env_pb E) (request_of req k i) = Some (body_of E req (k, i))" "body_ok (Some kMaxBodySize) (body_of E req ki)"
    "parse_request (env_pb E) (body_of E req (k, i)) = Some (request_of req k i)"
    "answer E svcs (body_of E req ki) = Some (reply_to E svcs req ki)"
    "\<exists>rbody. ser_response (env_pb E) (reply_to E svcs req ki) = Some rbody \<and> body_ok None rbody \<and>
       parse_response (env_pb E) rbody = Some (reply_to E svcs req ki)"
    "rs_id (reply_to E svcs req (k, i)) = i"
proof -
  have pb: "protobuf_ok (env_pb E)" using assms by (simp add: callable_def)
  have c: "\<exists>body resp rbody. ser_request (env_pb E) (request_of req k i) = Some body \<and> length body \<le> kMaxBodySize \<and>
        answer E svcs body = Some resp \<and> ser_response (env_pb E) resp = Some rbody \<and> length rbody < 2 ^ 32" for k i
    using assms by (simp add: callable_def)
  show b: "ser_request (env_pb E) (request_of req k i) = Some (body_of E req (k, i))" for k i
    using c [of k i] by (auto simp: body_of_def)
  show p: "parse_request (env_pb E) (body_of E req (k, i)) = Some (request_of req k i)" for k i
    using pb b [of k i] by (simp add: protobuf_ok_def)
  obtain k0 i0 where ki: "ki = (k0, i0)" by (cases ki)
  show "body_ok (Some kMaxBodySize) (body_of E req ki)"
    using c [of k0 i0] by (auto simp: ki body_of_def body_ok_def kMaxBodySize_def)
  show a: "answer E svcs (body_of E req ki) = Some (reply_to E svcs req ki)" for ki
    using c [of "fst ki" "snd ki"] by (cases ki) (auto simp: body_of_def reply_to_def)
  show "\<exists>rbody. ser_response (env_pb E) (reply_to E svcs req ki) = Some rbody \<and> body_ok None rbody \<and>
       parse_response (env_pb E) rbody = Some (reply_to E svcs req ki)"
    using c [of k0 i0] pb by (auto simp: ki body_of_def reply_to_def body_ok_def protobuf_ok_def)
  show "rs_id (reply_to E svcs req (k, i)) = i"
    using answer_id [OF a p] by (simp add: request_of_fields(1))
qed

section \<open>The client's half\<close>

text \<open>\<open>kis\<close> are the calls whose requests are on the wire, with their ids, in the order they were written.\<close>

definition sent_log :: "endian \<Rightarrow> protobuf \<Rightarrow> (nat \<Rightarrow> string \<times> string \<times> string) \<Rightarrow> (nat \<times> u32) list \<Rightarrow> rpc_client \<Rightarrow> bool" where
  "sent_log e P req kis u \<longleftrightarrow> rc_wire u = concat (map (\<lambda>(k, i). request_wire e P (request_of req k i)) kis) \<and>
     distinct (map snd kis) \<and> (\<forall>(k, i) \<in> set kis. sent_id (rc_pcs u k) = Some i) \<and>
     (\<forall>k i. rc_pcs u k = Waiting i \<or> rc_pcs u k = Async i \<longrightarrow> (k, i) \<in> set kis)"

text \<open>The reader has handled the frames of the bytes \<open>bs\<close> it was given; what it received are the first of the responses \<open>rs\<close>.\<close>

definition client_side :: "protobuf \<Rightarrow> string \<Rightarrow> rpc_response list \<Rightarrow> rpc_client \<Rightarrow> bool" where
  "client_side P bs rs u \<longleftrightarrow> (\<exists>more. rs = rc_received u @ more) \<and>
     (rc_reading u \<longrightarrow> (\<exists>gs. scan (parse_frame None) bs = (gs, None, contents (rc_buf u)) \<and>
        rc_received u = List.map_filter (parse_response P) gs))"

lemma caller_client: "caller_step e P req u u' \<Longrightarrow> client_step e P req u u'"
  by (induction rule: caller_step.induct) (auto intro: client_step.intros)

lemma caller_frame:
  assumes "caller_step e P req u u'"
  shows "rc_received u' = rc_received u" "rc_buf u' = rc_buf u" "rc_reading u' \<Longrightarrow> rc_reading u"
  using assms
  by (induction rule: caller_step.induct)
    (auto simp: call_start_def call_register_def call_write_def reader_check_def disconnect_def close_sock_def client_simps split: if_splits)

lemma caller_side: "client_side P bs rs u \<Longrightarrow> caller_step e P' req u u' \<Longrightarrow> client_side P bs rs u'"
  by (auto simp: client_side_def caller_frame dest: caller_frame(3))

lemma sent_log_pcs:
  assumes "sent_log e P req kis u" "rc_wire u' = rc_wire u" "\<And>j. j \<noteq> k \<Longrightarrow> rc_pcs u' j = rc_pcs u j"
    "sent_id (rc_pcs u k) = None \<or> sent_id (rc_pcs u' k) = sent_id (rc_pcs u k)" "\<And>i. rc_pcs u' k \<noteq> Waiting i" "\<And>i. rc_pcs u' k \<noteq> Async i"
  shows "sent_log e P req kis u'"
proof -
  have "sent_id (rc_pcs u' j) = Some i" if "sent_id (rc_pcs u j) = Some i" for i j
    using that assms(3,4) by (cases "j = k") auto
  moreover have "rc_pcs u j = rc_pcs u' j" if "rc_pcs u' j = Waiting i \<or> rc_pcs u' j = Async i" for i j
    using that assms(3,5,6) by (cases "j = k") auto
  ultimately show ?thesis using assms(1) unfolding sent_log_def assms(2) by fastforce
qed

lemma sent_log_same: "sent_log e P req kis u \<Longrightarrow> rc_wire u' = rc_wire u \<Longrightarrow> rc_pcs u' = rc_pcs u \<Longrightarrow> sent_log e P req kis u'"
  by (simp add: sent_log_def)

lemma sent_log_new:
  assumes inv: "client_inv u" and s: "sent_log e P req kis u" and k: "rc_pcs u k = Registered i" and pc: "pc = Async i \<or> pc = Waiting i"
    and u': "rc_wire u' = rc_wire u @ request_wire e P (request_of req k i)" "rc_pcs u' = (rc_pcs u)(k := pc)"
  shows "sent_log e P req (kis @ [(k, i)]) u'"
proof -
  have old: "k' \<noteq> k \<and> i' \<noteq> i" if "(k', i') \<in> set kis" for k' i'
  proof -
    have k': "sent_id (rc_pcs u k') = Some i'" using s that by (auto simp: sent_log_def)
    then have "k' \<noteq> k" using k by auto
    then show ?thesis using client_inv_unique [OF inv sent_call_id [OF k'], of k] k by (metis call_id.simps(3))
  qed
  then have n: "i \<notin> snd ` set kis" "\<forall>(k', i') \<in> set kis. k' \<noteq> k" by fastforce+
  have "sent_id (((rc_pcs u)(k := pc)) k') = Some i'" if "(k', i') \<in> set (kis @ [(k, i)])" for k' i'
    using that n(2) s pc by (auto simp: sent_log_def)
  moreover have "(k', i') \<in> set (kis @ [(k, i)])"
    if "((rc_pcs u)(k := pc)) k' = Waiting i' \<or> ((rc_pcs u)(k := pc)) k' = Async i'" for k' i'
    using that s pc by (cases "k' = k") (auto simp: sent_log_def)
  moreover have "rc_wire u' = concat (map (\<lambda>(k, i). request_wire e P (request_of req k i)) (kis @ [(k, i)]))" "distinct (map snd (kis @ [(k, i)]))"
    using s n(1) u'(1) by (auto simp: sent_log_def)
  ultimately show ?thesis unfolding sent_log_def u'(2) by blast
qed

lemma caller_sent:
  assumes inv: "client_inv u" and s: "sent_log e P req kis u" and st: "caller_step e P req u u'"
  shows "\<exists>new. sent_log e P req (kis @ new) u'"
  using st
proof cases
  case (call_starts k)
  then have "sent_log e P req kis u'"
    by (intro sent_log_pcs [OF s, of u' k]) (auto simp: call_start_def client_simps)
  then show ?thesis by (metis append_Nil2)
next
  case (call_registers k i)
  then have "sent_log e P req kis u'"
    by (intro sent_log_pcs [OF s, of u' k]) (auto simp: call_register_def client_simps)
  then show ?thesis by (metis append_Nil2)
next
  case (call_sends k i)
  then show ?thesis
    using sent_log_new [OF inv s call_sends(2), of "if pc_done (rc_calls u k) then Async i else Waiting i" u']
    by (auto simp: call_write_def client_simps request_of_fields(1))
next
  case (call_send_fails k i)
  then have "sent_log e P req kis u'"
    by (intro sent_log_pcs [OF s, of u' k]) (auto simp: call_write_def client_simps)
  then show ?thesis by (metis append_Nil2)
next
  case (call_wakes k i)
  then have "sent_log e P req kis u'"
    by (intro sent_log_pcs [OF s, of u' k]) (auto simp: client_simps)
  then show ?thesis by (metis append_Nil2)
next
  case reader_checks
  then have "sent_log e P req kis u'" by (intro sent_log_same [OF s]) (simp_all add: reader_check_def)
  then show ?thesis by (metis append_Nil2)
next
  case client_disconnects
  then have "sent_log e P req kis u'" by (intro sent_log_same [OF s]) (simp_all add: disconnect_def close_sock_def)
  then show ?thesis by (metis append_Nil2)
qed

lemma on_messages_received:
  "rc_received (foldl (channel_on_message P) u fs) = rc_received u @ List.map_filter (parse_response P) fs"
  "rc_wire (foldl (channel_on_message P) u fs) = rc_wire u" "rc_pcs (foldl (channel_on_message P) u fs) = rc_pcs u"
  by (induction fs arbitrary: u)
    (auto simp: channel_on_message_def upd_call_def map_filter_simps Let_def split: option.split)

section \<open>The invariant of the session\<close>

definition session_ok :: "endian \<Rightarrow> rpc_env \<Rightarrow> (string \<rightharpoonup> 'm service) \<Rightarrow> (nat \<Rightarrow> string \<times> string \<times> string) \<Rightarrow> u64 \<Rightarrow>
    (nat \<times> u32) list \<Rightarrow> string list \<Rightarrow> string \<Rightarrow> rpc_response list \<Rightarrow> 'm session \<Rightarrow> bool" where
  "session_ok e E svcs req cid kis fs rest rs s \<longleftrightarrow>
     reachable client_init (client_step e (env_pb E) req) (ses_client s) \<and>
     sent_log e (env_pb E) req kis (ses_client s) \<and> ses_up s \<le> length (rc_wire (ses_client s)) \<and>
     scan (parse_frame (Some kMaxBodySize)) (take (ses_up s) (rc_wire (ses_client s))) = (fs, None, rest) \<and>
     server_side E svcs cid fs rest rs (ses_server s) \<and> ses_down s \<le> length (out_stream cid (ses_server s)) \<and>
     client_side (env_pb E) (take (ses_down s) (out_stream cid (ses_server s))) rs (ses_client s)"

definition session_inv :: "endian \<Rightarrow> rpc_env \<Rightarrow> (string \<rightharpoonup> 'm service) \<Rightarrow> (nat \<Rightarrow> string \<times> string \<times> string) \<Rightarrow> u64 \<Rightarrow> 'm session \<Rightarrow> bool" where
  "session_inv e E svcs req cid s \<longleftrightarrow> (\<exists>kis fs rest rs. session_ok e E svcs req cid kis fs rest rs s)"

lemma wire_bodies:
  assumes "callable E svcs req" "sent_log e (env_pb E) req kis u"
  shows "rc_wire u = concat (map wire_frame (map (body_of E req) kis))" "list_all (body_ok (Some kMaxBodySize)) (map (body_of E req) kis)"
proof -
  have "request_wire e (env_pb E) (request_of req k i) = wire_frame (body_of E req (k, i))" for k i
    by (rule request_wire_frame [OF callable_facts(1) [OF assms(1)]])
  then show "rc_wire u = concat (map wire_frame (map (body_of E req) kis))"
    using assms(2) by (simp add: sent_log_def case_prod_unfold comp_def)
  show "list_all (body_ok (Some kMaxBodySize)) (map (body_of E req) kis)"
    using callable_facts(2) [OF assms(1)] by (simp add: list_all_iff)
qed

text \<open>What the server has taken off the wire are the first requests on it.\<close>

lemma handled_prefix:
  assumes c: "callable E svcs req" and s: "sent_log e (env_pb E) req kis u" and xs: "xs @ ys = rc_wire u"
  obtains n r where "scan (parse_frame (Some kMaxBodySize)) xs = (map (body_of E req) (take n kis), None, r)"
proof -
  obtain gs hs r where "scan (parse_frame (Some kMaxBodySize)) xs = (gs, None, r)" "map (body_of E req) kis = gs @ hs"
    by (rule srv.scan_prefix [OF wire_bodies(2) [OF c s], of xs ys]) (use xs wire_bodies(1) [OF c s] in auto)
  then show thesis using that [of "length gs" r] by (simp add: take_map [symmetric])
qed

lemma bodies_answered: "callable E svcs req \<Longrightarrow> list_all (answered E svcs) (map (body_of E req) kis)"
  using callable_facts(4) by (fastforce simp: list_all_iff answered_def)

lemma map_filter_answers: "callable E svcs req \<Longrightarrow> List.map_filter (answer E svcs) (map (body_of E req) kis) = map (reply_to E svcs req) kis"
  by (induction kis) (simp_all add: map_filter_simps callable_facts(4))

text \<open>The responses given to the connection are answers to requests on the wire, each at most once.\<close>

lemma responses_of_wire:
  assumes c: "callable E svcs req" and ok: "session_ok e E svcs req cid kis fs rest rs s"
  shows "mset rs \<subseteq># mset (map (reply_to E svcs req) kis)"
proof -
  let ?u = "ses_client s"
  have s: "sent_log e (env_pb E) req kis ?u" and sc: "scan (parse_frame (Some kMaxBodySize)) (take (ses_up s) (rc_wire ?u)) = (fs, None, rest)"
    and sv: "server_side E svcs cid fs rest rs (ses_server s)" using ok by (simp_all add: session_ok_def)
  obtain n where n: "fs = map (body_of E req) (take n kis)"
    by (rule handled_prefix [OF c s, of "take (ses_up s) (rc_wire ?u)" "drop (ses_up s) (rc_wire ?u)"]) (use sc in auto)
  have "mset rs \<subseteq># mset (List.map_filter (answer E svcs) fs)" using sv unfolding server_side_def by (metis mset_subset_eq_add_left)
  also have "\<dots> = mset (map (reply_to E svcs req) (take n kis))" unfolding n map_filter_answers [OF c] ..
  also have "\<dots> \<subseteq># mset (map (reply_to E svcs req) kis)"
    by (metis append_take_drop_id map_append mset_append mset_subset_eq_add_left)
  finally show ?thesis .
qed

lemma response_origin:
  assumes c: "callable E svcs req" and ok: "session_ok e E svcs req cid kis fs rest rs s" and r: "r \<in> set rs"
  obtains k i where "(k, i) \<in> set kis" "r = reply_to E svcs req (k, i)" "rs_id r = i" "sent_id (rc_pcs (ses_client s) k) = Some i"
proof -
  have "r \<in># mset (map (reply_to E svcs req) kis)" using mset_subset_eqD [OF responses_of_wire [OF c ok]] r by simp
  then obtain k i where ki: "(k, i) \<in> set kis" "r = reply_to E svcs req (k, i)" by auto
  then show thesis using that callable_facts(6) [OF c] ok by (auto simp: session_ok_def sent_log_def)
qed

lemma responses_distinct:
  assumes c: "callable E svcs req" and ok: "session_ok e E svcs req cid kis fs rest rs s"
  shows "distinct (map rs_id rs)"
proof -
  have "rs_id (reply_to E svcs req ki) = snd ki" for ki using callable_facts(6) [OF c] by (cases ki) simp
  then have "image_mset rs_id (mset (map (reply_to E svcs req) kis)) = mset (map snd kis)"
    by (simp add: multiset.map_comp comp_def)
  then have "mset (map rs_id rs) \<subseteq># mset (map snd kis)"
    using image_mset_subseteq_mono [OF responses_of_wire [OF c ok], of rs_id] by simp
  moreover have "distinct (map snd kis)" using ok by (simp add: session_ok_def sent_log_def)
  ultimately show ?thesis by (metis distinct_count_atmost_1 mset_eq_imp_distinct_iff mset_subset_eq_exists_conv distinct_append mset_append ex_mset)
qed

text \<open>The server moves on: its stream and its responses grow, the client does not notice.\<close>

lemma client_side_more: "client_side P bs rs u \<Longrightarrow> client_side P bs (rs @ es) u"
  by (auto simp: client_side_def)

lemma session_ok_server:
  assumes ok: "session_ok e E svcs req cid kis fs rest rs s" and sv: "server_side E svcs cid fs' rest' (rs @ es) w"
    and up: "n \<le> length (rc_wire (ses_client s))" "scan (parse_frame (Some kMaxBodySize)) (take n (rc_wire (ses_client s))) = (fs', None, rest')"
  shows "session_ok e E svcs req cid kis fs' rest' (rs @ es) (s\<lparr>ses_server := w, ses_up := n\<rparr>)"
proof -
  have "out_stream cid w = out_stream cid (ses_server s) @ concat (map (reply_bytes E) es)"
    using server_side_stream [OF sv] server_side_stream [of E svcs cid fs rest rs "ses_server s"] ok by (simp add: session_ok_def)
  then show ?thesis using ok sv up client_side_more unfolding session_ok_def by auto
qed

lemma turn_ok:
  assumes K: "write_ok (env_kernel E)" "write_no_error (env_kernel E)" and c: "callable E svcs req"
    and ok: "session_ok e E svcs req cid kis fs rest rs s"
    and ch: "ch = take n (drop (ses_up s) (rc_wire (ses_client s)))" "length ch \<le> extra_size"
  shows "\<exists>w fs' rest' rs'. session_turn E cid wk ch wr (ses_server s) = Some w \<and> pending_functors (the_loop w) = [] \<and>
    session_ok e E svcs req cid kis fs' rest' rs' (s\<lparr>ses_server := w, ses_up := ses_up s + length ch\<rparr>) \<and>
    (ch = [] \<longrightarrow> same_work (ses_server s) w)"
proof -
  let ?x = "rc_wire (ses_client s)" and ?p = "parse_frame (Some kMaxBodySize)"
  have f: "ses_up s \<le> length ?x" "scan ?p (take (ses_up s) ?x) = (fs, None, rest)" "sent_log e (env_pb E) req kis (ses_client s)"
    "server_side E svcs cid fs rest rs (ses_server s)" using ok by (simp_all add: session_ok_def)
  have t: "take (ses_up s + length ch) ?x = take (ses_up s) ?x @ ch" and le: "ses_up s + length ch \<le> length ?x"
    using ch(1) f(1) by (auto simp: take_add min_def)
  obtain m r where m: "scan ?p (take (ses_up s) ?x @ ch) = (map (body_of E req) (take m kis), None, r)"
    by (rule handled_prefix [OF c f(3), of "take (ses_up s) ?x @ ch" "drop (ses_up s + length ch) ?x"]) (auto simp: t [symmetric])
  obtain gs where gs: "scan ?p (rest @ ch) = (gs, None, r)" "map (body_of E req) (take m kis) = fs @ gs"
    using m srv.scan_append [of "take (ses_up s) ?x" ch] f(2) by (auto split: prod.splits)
  have "list_all (answered E svcs) gs" using bodies_answered [OF c, of "take m kis"] gs(2) by simp
  from turn_side [OF K f(4) ch(2) srv.scan_rest_incomplete [OF f(2)] gs(1) this, of wk wr] obtain w es where
    w: "session_turn E cid wk ch wr (ses_server s) = Some w" "server_side E svcs cid (fs @ gs) r (rs @ es) w"
      "pending_functors (the_loop w) = []" "gs = [] \<longrightarrow> same_work (ses_server s) w" by blast
  have "session_ok e E svcs req cid kis (fs @ gs) r (rs @ es) (s\<lparr>ses_server := w, ses_up := ses_up s + length ch\<rparr>)"
    by (rule session_ok_server [OF ok w(2) le]) (use m gs(2) t in simp)
  moreover have "gs = []" if "ch = []" using gs(1) srv.scan_incomplete [OF srv.scan_rest_incomplete [OF f(2)]] that by simp
  ultimately show ?thesis using w by blast
qed

text \<open>The reader gets bytes of the reply stream.\<close>

lemma reply_frames:
  assumes c: "callable E svcs req" and ok: "session_ok e E svcs req cid kis fs rest rs s"
  obtains bodies where "out_stream cid (ses_server s) = concat (map wire_frame bodies)" "list_all (body_ok None) bodies"
    "map (parse_response (env_pb E)) bodies = map Some rs"
proof -
  have b: "\<exists>b. reply_bytes E r = wire_frame b \<and> body_ok None b \<and> parse_response (env_pb E) b = Some r" if r: "r \<in> set rs" for r
  proof -
    obtain k i where "r = reply_to E svcs req (k, i)" by (rule response_origin [OF c ok r])
    then show ?thesis using callable_facts(5) [OF c, of "(k, i)"] by (auto simp: reply_bytes_def)
  qed
  then obtain g where g: "\<forall>r \<in> set rs. reply_bytes E r = wire_frame (g r) \<and> body_ok None (g r) \<and> parse_response (env_pb E) (g r) = Some r"
    by metis
  have "map (reply_bytes E) rs = map wire_frame (map g rs)" "list_all (body_ok None) (map g rs)"
    "map (parse_response (env_pb E)) (map g rs) = map Some rs" using g by (auto simp: list_all_iff)
  moreover have "out_stream cid (ses_server s) = concat (map (reply_bytes E) rs)" using ok server_side_stream by (auto simp: session_ok_def)
  ultimately show thesis using that by metis
qed

lemma map_filter_Some: "map f xs = map Some ys \<Longrightarrow> List.map_filter f xs = ys"
  by (induction xs arbitrary: ys) (auto simp: map_filter_simps)

lemma receive_ok:
  assumes c: "callable E svcs req" and ok: "session_ok e E svcs req cid kis fs rest rs s"
    and rd: "rc_reading (ses_client s)" "rc_in_read (ses_client s)"
    and bs: "bs = take n (drop (ses_down s) (wrote cid (net_log (ses_server s))))" "bs \<noteq> []" "length bs \<le> extra_size"
  shows "\<exists>u. reader_read e (env_pb E) (arriving bs) (ses_client s) = Some u \<and> rc_reading u \<and> rc_connected u = rc_connected (ses_client s) \<and>
    \<not> rc_in_read u \<and> rc_pcs u = rc_pcs (ses_client s) \<and> rc_wire u = rc_wire (ses_client s) \<and>
    session_ok e E svcs req cid kis fs rest rs (s\<lparr>ses_client := u, ses_down := ses_down s + length bs\<rparr>)"
proof -
  let ?u = "ses_client s" and ?o = "out_stream cid (ses_server s)" and ?P = "env_pb E" and ?p = "parse_frame None"
  have d: "ses_down s + length bs \<le> length ?o" and t: "take (ses_down s + length bs) ?o = take (ses_down s) ?o @ bs"
    using bs(1,2) by (auto simp: out_stream_def take_add min_def drop_append)
  have inv: "client_inv ?u" using cm.reachable_inv ok by (auto simp: session_ok_def)
  obtain gs where gs: "scan ?p (take (ses_down s) ?o) = (gs, None, contents (rc_buf ?u))" "rc_received ?u = List.map_filter (parse_response ?P) gs"
    using ok rd(1) by (auto simp: session_ok_def client_side_def)
  obtain bodies where b: "?o = concat (map wire_frame bodies)" "list_all (body_ok None) bodies" "map (parse_response ?P) bodies = map Some rs"
    by (rule reply_frames [OF c ok])
  have "(take (ses_down s) ?o @ bs) @ drop (ses_down s + length bs) ?o = concat (map wire_frame bodies)"
    unfolding t [symmetric] append_take_drop_id by (rule b(1))
  then obtain g h r where g: "scan ?p (take (ses_down s) ?o @ bs) = (g, None, r)" "bodies = g @ h"
    by (rule cl.scan_prefix [OF b(2)])
  obtain gs2 where g2: "scan ?p (contents (rc_buf ?u) @ bs) = (gs2, None, r)" "g = gs @ gs2"
    using g(1) cl.scan_append [of "take (ses_down s) ?o" bs] gs(1) by (auto split: prod.splits)
  have rs: "rs = List.map_filter (parse_response ?P) gs @ List.map_filter (parse_response ?P) gs2 @ List.map_filter (parse_response ?P) h"
    using map_filter_Some [OF b(3)] g(2) g2(2) by simp
  have sent: "answers_sent ?P gs2 ?u"
    unfolding answers_sent_def
  proof (intro ballI allI impI)
    fix f resp assume "f \<in> set gs2" "parse_response ?P f = Some resp"
    then have "resp \<in> set rs" unfolding rs by (force simp: List.map_filter_def)
    then show "\<exists>k. sent_id (rc_pcs ?u k) = Some (rs_id resp)" by (rule response_origin [OF c ok]) auto
  qed
  let ?v = "foldl (channel_on_message ?P) ?u gs2"
  obtain b' where rr: "reader_read e ?P (arriving bs) ?u = Some (?v\<lparr>rc_connected := rc_connected ?u, rc_buf := b', rc_reading := True, rc_in_read := False\<rparr>)"
    "contents b' = r"
    using reader_read_frames [OF _ arriving_ok arriving_all [OF bs(3)] bs(2) g2(1), of e ?P] inv
    by (auto simp: client_inv_def ids_ok_def on_messages_frame)
  let ?w = "?v\<lparr>rc_connected := rc_connected ?u, rc_buf := b', rc_reading := True, rc_in_read := False\<rparr>"
  have "client_step e ?P req ?u ?w"
    by (rule client_step.reads [OF rd arriving_ok _ rr(1)]) (use arriving_all [OF bs(3)] g2(1) sent in auto)
  then have "reachable client_init (client_step e ?P req) ?w" using ok by (auto simp: session_ok_def intro: reach_step)
  moreover have "client_side ?P (take (ses_down s + length bs) ?o) rs ?w"
    unfolding client_side_def t using g(1) g2(2) rr(2) gs(2) rs by (simp add: on_messages_received)
  moreover have "sent_log e ?P req kis ?w"
    by (rule sent_log_same [of e ?P req kis ?u]) (use ok in \<open>simp_all add: session_ok_def on_messages_received\<close>)
  ultimately have "session_ok e E svcs req cid kis fs rest rs (s\<lparr>ses_client := ?w, ses_down := ses_down s + length bs\<rparr>)"
    using ok d by (simp add: session_ok_def on_messages_received)
  then show ?thesis using rr(1) by (simp add: on_messages_received)
qed

lemma hang_up_ok:
  assumes ok: "session_ok e E svcs req cid kis fs rest rs s" and rd: "rc_reading (ses_client s)" "rc_in_read (ses_client s)"
    and eof: "at_eof readv (ses_client s)" and u: "reader_read e (env_pb E) readv (ses_client s) = Some u"
  shows "session_ok e E svcs req cid kis fs rest rs (s\<lparr>ses_client := u\<rparr>)"
proof -
  let ?u = "ses_client s"
  have r: "reachable client_init (client_step e (env_pb E) req) ?u" using ok by (simp add: session_ok_def)
  note inv = cm.reachable_inv [OF r]
  have u': "u = (fail_pending (?u\<lparr>rc_connected := False\<rparr>))\<lparr>rc_reading := False\<rparr>" using eof_read [OF inv eof] u by simp
  obtain gs where "scan (parse_frame None) (take (ses_down s) (out_stream cid (ses_server s))) = (gs, None, contents (rc_buf ?u))"
    using ok rd(1) by (auto simp: session_ok_def client_side_def)
  then have "scan (parse_frame None) (contents (rc_buf ?u)) = ([], None, contents (rc_buf ?u))"
    by (rule cl.scan_incomplete [OF cl.scan_rest_incomplete])
  then have "answers_sent (env_pb E) (fst (scan (parse_frame None) (contents (rc_buf ?u)))) ?u" by (simp add: answers_sent_def)
  from eof_step [OF inv rd eof this] have "reachable client_init (client_step e (env_pb E) req) u" unfolding u' using r by (blast intro: reach_step)
  moreover have "sent_log e (env_pb E) req kis u"
    by (rule sent_log_same [of e _ req kis ?u]) (use ok in \<open>simp_all add: session_ok_def u' fail_pending_def\<close>)
  ultimately show ?thesis using ok by (simp add: session_ok_def client_side_def u' fail_pending_def)
qed

lemma caller_ok:
  assumes ok: "session_ok e E svcs req cid kis fs rest rs s" and st: "caller_step e (env_pb E) req (ses_client s) u"
  shows "\<exists>kis'. session_ok e E svcs req cid kis' fs rest rs (s\<lparr>ses_client := u\<rparr>)"
proof -
  let ?u = "ses_client s"
  have f: "reachable client_init (client_step e (env_pb E) req) ?u" "sent_log e (env_pb E) req kis ?u" "ses_up s \<le> length (rc_wire ?u)"
    using ok by (simp_all add: session_ok_def)
  obtain new where new: "sent_log e (env_pb E) req (kis @ new) u" using caller_sent [OF cm.reachable_inv [OF f(1)] f(2) st] by blast
  then obtain more where "rc_wire u = rc_wire ?u @ more" using f(2) by (auto simp: sent_log_def)
  then have "ses_up s \<le> length (rc_wire u)" "take (ses_up s) (rc_wire u) = take (ses_up s) (rc_wire ?u)" using f(3) by auto
  moreover have "reachable client_init (client_step e (env_pb E) req) u" using f(1) caller_client [OF st] by (rule reach_step)
  ultimately have "session_ok e E svcs req cid (kis @ new) fs rest rs (s\<lparr>ses_client := u\<rparr>)"
    using ok new caller_side [OF _ st] by (simp add: session_ok_def)
  then show ?thesis by blast
qed

lemma session_step_inv:
  assumes K: "write_ok (env_kernel E)" "write_no_error (env_kernel E)" and c: "callable E svcs req"
    and inv: "session_inv e E svcs req cid s" and st: "session_step e E req cid s s'"
  shows "session_inv e E svcs req cid s'"
proof -
  obtain kis fs rest rs where ok: "session_ok e E svcs req cid kis fs rest rs s" using inv by (auto simp: session_inv_def)
  from st show ?thesis
  proof cases
    case (calls u)
    then show ?thesis using caller_ok [OF ok calls(2)] by (auto simp: session_inv_def)
  next
    case (receives bs n u)
    then show ?thesis using receive_ok [OF c ok receives(2-6)] by (auto simp: session_inv_def)
  next
    case (hangs_up readv u)
    then show ?thesis using hang_up_ok [OF ok hangs_up(2-5)] by (auto simp: session_inv_def)
  next
    case (turns ch n wk wr w)
    then show ?thesis using turn_ok [OF K c ok turns(2,3), of wk wr] by (auto simp: session_inv_def)
  next
    case (works a w)
    have "server_side E svcs cid fs rest rs w" by (rule work_side [OF _ works(3,2)]) (use ok in \<open>simp add: session_ok_def\<close>)
    then have "session_ok e E svcs req cid kis fs rest (rs @ []) (s\<lparr>ses_server := w, ses_up := ses_up s\<rparr>)"
      by (intro session_ok_server [OF ok]) (use ok in \<open>simp_all add: session_ok_def\<close>)
    then show ?thesis using works(1) by (auto simp: session_inv_def)
  qed
qed

lemma client_init_wire: "client_init u \<Longrightarrow> rc_wire u = []"
  by (auto simp: client_init_def channel_connect_def rpc_channel_new_def Let_def split: if_splits option.splits)

lemma session_init_inv:
  assumes "session_init svcs cid s" shows "session_inv e E svcs req cid s"
proof -
  let ?u = "ses_client s" and ?w = "ses_server s"
  have f: "client_init ?u" "open_conn cid ?w" "out_stream cid ?w = []" "idle_workers ?w" "pending_functors (the_loop ?w) = []"
    "ses_up s = 0" "ses_down s = 0" using assms by (simp_all add: session_init_def)
  note u = client_init_wire [OF f(1)] client_init_fields [OF f(1)]
  have "sent_log e (env_pb E) req [] ?u" using u(1) by (simp add: sent_log_def u(3))
  moreover have "settling cid [] {#} ?w" using f(2-5) by (simp add: settling_def owed_def idle_workers_def map_filter_simps)
  then have "server_side E svcs cid [] [] [] ?w"
    using assms by (simp add: server_side_def session_init_def idle_workers_def map_filter_simps)
  moreover have "client_side (env_pb E) [] [] ?u"
    by (simp add: client_side_def u cl.scan_incomplete [OF cl.empty_incomplete] contents_buffer_new map_filter_simps)
  ultimately have "session_ok e E svcs req cid [] [] [] [] s"
    using reach_init [of client_init ?u] f u(1) srv.scan_incomplete [OF srv.empty_incomplete] by (simp add: session_ok_def)
  then show ?thesis by (auto simp: session_inv_def)
qed

interpretation sm: invariant_system "session_init svcs cid" "session_step e E req cid"
  "\<lambda>s. write_ok (env_kernel E) \<and> write_no_error (env_kernel E) \<and> callable E svcs req \<longrightarrow> session_inv e E svcs req cid s" for svcs cid e E req
  by unfold_locales (blast intro: session_init_inv session_step_inv)+

end
