(* ===== verification/Call_Outcomes.thy ===== *)
theory Call_Outcomes
  imports Rpc_Channel
begin

text \<open>
  What the fields of a call mean while the client runs: why a controller is failed, and what a
  call that has not returned holds before and after its response. Both are invariants of the
  client's machine.
\<close>

section \<open>Why a call fails\<close>

text \<open>A failed controller holds one of the client's own reasons or the error of a response with the call's id.\<close>

definition own_reasons :: "string set" where
  "own_reasons = {''not connected'', ''write failed'', ''connection closed''}"

definition failure_ok :: "rpc_client \<Rightarrow> nat \<Rightarrow> bool" where
  "failure_ok u k \<longleftrightarrow> (ctl_failed (pc_controller (rc_calls u k)) \<longrightarrow>
     ctl_err_text (pc_controller (rc_calls u k)) \<in> own_reasons \<or>
     (\<exists>m \<in> set (rc_received u). call_id (rc_pcs u k) = Some (rs_id m) \<and> \<not> rs_success m \<and>
        ctl_err_text (pc_controller (rc_calls u k)) = rs_error m))"

lemma failure_ok_cong:
  assumes "failure_ok u k" "pc_controller (rc_calls u' k) = pc_controller (rc_calls u k)" "set (rc_received u) \<subseteq> set (rc_received u')"
    "call_id (rc_pcs u k) = None \<or> call_id (rc_pcs u' k) = call_id (rc_pcs u k)"
  shows "failure_ok u' k"
  using assms unfolding failure_ok_def by (metis option.distinct(1) subsetD)

lemma failure_ok_own: "ctl_err_text (pc_controller (rc_calls u k)) \<in> own_reasons \<Longrightarrow> failure_ok u k"
  by (simp add: failure_ok_def)

lemma on_message_failure:
  assumes inv: "client_inv u" and ok: "failure_ok u k"
  shows "failure_ok (channel_on_message P u f) k"
proof (cases "\<exists>resp. parse_response P f = Some resp \<and> rc_pending_calls u (rs_id resp) = Some k")
  case True
  then obtain resp where r: "parse_response P f = Some resp" "rc_pending_calls u (rs_id resp) = Some k" by blast
  let ?u = "channel_on_message P u f"
  have u: "rc_received ?u = rc_received u @ [resp]" "rc_pcs ?u = rc_pcs u"
    "pc_controller (rc_calls ?u k) = (if rs_success resp then pc_controller (rc_calls u k) else \<lparr>ctl_failed = True, ctl_err_text = rs_error resp\<rparr>)"
    using r by (simp_all add: channel_on_message_def client_simps Let_def)
  have "call_id (rc_pcs u k) = Some (rs_id resp)" using client_inv_pending [OF inv r(2)] by blast
  then show ?thesis
    using failure_ok_cong [OF ok, of ?u] u by (cases "rs_success resp") (auto simp: failure_ok_def)
next
  case False
  then show ?thesis
    by (intro failure_ok_cong [OF ok])
      (auto simp: channel_on_message_def upd_call_def Let_def split: option.split)
qed

lemma on_messages_failure:
  assumes "client_inv u" "rc_reading u" "answers_sent P fs u" "\<forall>k. failure_ok u k"
  shows "failure_ok (foldl (channel_on_message P) u fs) k"
  using assms
proof (induction fs arbitrary: u)
  case (Cons f fs)
  have "client_inv (channel_on_message P u f)"
    by (rule on_message_inv [OF Cons.prems(1,2)]) (use Cons.prems(3) in \<open>auto simp: answers_sent_def\<close>)
  moreover have "answers_sent P fs (channel_on_message P u f)" using Cons.prems(3) by (auto simp: answers_sent_def on_message_frame)
  ultimately show ?case using Cons.IH Cons.prems on_message_failure by (simp add: on_message_frame)
qed simp

lemma failure_step:
  assumes inv: "client_inv u" and ok: "\<forall>k. failure_ok u k" and st: "client_step e P req u u'"
  shows "failure_ok u' k"
  using st
proof cases
  case (starts j)
  then show ?thesis
    by (cases "k = j \<and> \<not> rc_connected u")
      (intro failure_ok_own failure_ok_cong [OF ok [rule_format]];
        auto simp: call_start_def is_connected_def client_simps own_reasons_def)+
next
  case (registers j i)
  then show ?thesis by (intro failure_ok_cong [OF ok [rule_format]]) (auto simp: call_register_def client_simps)
next
  case (writes j i taken)
  then show ?thesis
    by (cases "k = j \<and> taken = None")
      (intro failure_ok_own failure_ok_cong [OF ok [rule_format]];
        auto simp: call_write_def request_of_fields(1) client_simps own_reasons_def split: option.split)+
next
  case (wakes j i)
  then show ?thesis by (intro failure_ok_cong [OF ok [rule_format]]) (auto simp: client_simps)
next
  case checks
  then show ?thesis by (intro failure_ok_cong [OF ok [rule_format]]) (auto simp: reader_check_def)
next
  case (reads readv)
  show ?thesis
  proof (rule reader_read_cases [OF inv reads(3-5)])
    assume u': "u' = (fail_pending (u\<lparr>rc_connected := False\<rparr>))\<lparr>rc_reading := False\<rparr>"
    show ?thesis
      by (cases "k \<in> ran (rc_pending_calls u)")
        (intro failure_ok_own failure_ok_cong [OF ok [rule_format]]; auto simp: u' fail_pending_def client_simps own_reasons_def)+
  next
    fix fs go_on conn b
    assume fs: "answers_sent P fs u" and u': "u' = (foldl (channel_on_message P) u fs)\<lparr>rc_connected := conn, rc_buf := b, rc_reading := go_on, rc_in_read := False\<rparr>"
    show ?thesis by (rule failure_ok_cong [OF on_messages_failure [OF inv reads(1) fs ok]]) (simp_all add: u')
  qed
next
  case disconnects
  then show ?thesis by (intro failure_ok_cong [OF ok [rule_format]]) (auto simp: disconnect_def close_sock_def)
qed

lemma failure_init: "client_init u \<Longrightarrow> failure_ok u k"
  using client_init_fields(1) [of u] by (auto simp: failure_ok_def call_new_def controller_new_def)

interpretation fr: invariant_system client_init "client_step e P req" "\<lambda>u. client_inv u \<and> (\<forall>k. failure_ok u k)" for e P req
  by unfold_locales (blast intro: client_init_inv failure_init client_step_inv failure_step)+

section \<open>What a live call holds\<close>

text \<open>
  While the reader runs, a call that has not returned is as it was made until a response with
  its id arrives, and then it is what \<^verbatim>\<open>on_message\<close> made of that response.
\<close>

definition completed :: "rpc_response \<Rightarrow> pending_call \<Rightarrow> pending_call" where
  "completed m c = run_done ((if rs_success m then c\<lparr>pc_response := Some (rs_result m)\<rparr> else fail_call (rs_error m) c)\<lparr>pc_done_flag := True\<rparr>)"

lemma completed_success: "rs_success m \<Longrightarrow> pc_response (completed m c) = Some (rs_result m)"
  by (simp add: completed_def run_done_def)

lemma completed_error: "\<not> rs_success m \<Longrightarrow> ctl_err_text (pc_controller (completed m c)) = rs_error m"
  by (simp add: completed_def run_done_def fail_call_def SetFailed_def)

definition untouched :: "pending_call \<Rightarrow> bool" where
  "untouched c \<longleftrightarrow> c = call_new (pc_done c)"

definition live_ok :: "rpc_client \<Rightarrow> nat \<Rightarrow> bool" where
  "live_ok u k \<longleftrightarrow> (rc_reading u \<longrightarrow>
     (early_pc (rc_pcs u k) \<longrightarrow> untouched (rc_calls u k)) \<and>
     (\<forall>i. rc_pcs u k = Waiting i \<or> rc_pcs u k = Async i \<longrightarrow>
        (if pc_done_flag (rc_calls u k)
         then \<exists>m \<in> set (rc_received u). rs_id m = i \<and> rc_calls u k = completed m (call_new (pc_done (rc_calls u k)))
         else untouched (rc_calls u k))))"

lemma live_ok_cong:
  assumes "live_ok u k" "rc_calls u' k = rc_calls u k" "rc_pcs u' k = rc_pcs u k" "set (rc_received u) \<subseteq> set (rc_received u')"
    "rc_reading u' \<Longrightarrow> rc_reading u"
  shows "live_ok u' k"
  using assms(1,4,5) unfolding live_ok_def assms(2,3) by (metis subsetD)

lemma untouched_flag: "untouched c \<Longrightarrow> \<not> pc_done_flag c"
  unfolding untouched_def by (metis call_new_def pending_call.select_convs(5))

lemma live_early:
  assumes "live_ok u k" "early_pc (rc_pcs u k)" "rc_calls u' k = rc_calls u k" "rc_reading u' \<Longrightarrow> rc_reading u"
  shows "live_ok u' k"
proof -
  have "untouched (rc_calls u' k)" if "rc_reading u'" using assms that by (simp add: live_ok_def)
  then show ?thesis using untouched_flag by (auto simp: live_ok_def)
qed

lemma live_finished: "rc_pcs u k = Finished i \<Longrightarrow> live_ok u k"
  by (simp add: live_ok_def)

lemma on_message_live:
  assumes inv: "client_inv u" and rd: "rc_reading u" and ok: "live_ok u k"
    and sent: "\<And>resp. parse_response P f = Some resp \<Longrightarrow> \<exists>k. sent_id (rc_pcs u k) = Some (rs_id resp)"
  shows "live_ok (channel_on_message P u f) k"
proof (cases "\<exists>resp. parse_response P f = Some resp \<and> rc_pending_calls u (rs_id resp) = Some k")
  case False
  then show ?thesis
    by (intro live_ok_cong [OF ok]) (auto simp: channel_on_message_def upd_call_def Let_def split: option.splits)
next
  case True
  then obtain resp where r: "parse_response P f = Some resp" "rc_pending_calls u (rs_id resp) = Some k" by blast
  let ?u = "channel_on_message P u f" and ?c = "rc_calls u k"
  obtain k0 where "sent_id (rc_pcs u k0) = Some (rs_id resp)" using sent [OF r(1)] by blast
  moreover have p: "call_id (rc_pcs u k) = Some (rs_id resp)" "\<not> pc_done_flag ?c" using client_inv_pending [OF inv r(2)] rd by auto
  ultimately have "sent_id (rc_pcs u k) = Some (rs_id resp)" using client_inv_unique [OF inv] sent_call_id by metis
  then have pc: "\<not> early_pc (rc_pcs u k)" by (cases "rc_pcs u k") auto
  have u: "rc_calls ?u k = completed resp ?c" "rc_pcs ?u = rc_pcs u" "resp \<in> set (rc_received ?u)" "rc_reading ?u"
    using r rd by (simp_all add: channel_on_message_def upd_call_def completed_def Let_def)
  have f: "pc_done_flag (completed resp ?c)" "pc_done (completed resp ?c) = pc_done ?c"
    by (simp_all add: completed_def run_done_def fail_call_def)
  have "i = rs_id resp \<and> ?c = call_new (pc_done ?c)" if "rc_pcs u k = Waiting i \<or> rc_pcs u k = Async i" for i
    using that ok rd p by (auto simp: live_ok_def untouched_def)
  then show ?thesis using pc u(3) unfolding live_ok_def u(1,2) f(2) by (metis f(1))
qed

lemma on_messages_live:
  assumes "client_inv u" "rc_reading u" "answers_sent P fs u" "live_ok u k"
  shows "live_ok (foldl (channel_on_message P) u fs) k"
  using assms
proof (induction fs arbitrary: u)
  case (Cons f fs)
  have sent: "\<exists>k. sent_id (rc_pcs u k) = Some (rs_id resp)" if "parse_response P f = Some resp" for resp
    using Cons.prems(3) that by (auto simp: answers_sent_def)
  have "answers_sent P fs (channel_on_message P u f)" using Cons.prems(3) by (auto simp: answers_sent_def on_message_frame)
  then show ?case
    using Cons.IH on_message_inv [OF Cons.prems(1,2) sent] on_message_live [OF Cons.prems(1,2,4) sent] Cons.prems(2) by (simp add: on_message_frame)
qed simp

lemma live_step:
  assumes inv: "client_inv u" and ok: "live_ok u k" and st: "client_step e P req u u'"
  shows "live_ok u' k"
  using st
proof cases
  case (starts j)
  show ?thesis
  proof (cases "k = j")
    case True
    then show ?thesis
      using starts live_early [OF ok, of u'] live_finished [of u' k None]
      by (cases "rc_connected u") (simp_all add: call_start_def is_connected_def client_simps)
  qed (use starts in \<open>auto intro!: live_ok_cong [OF ok] simp: call_start_def client_simps\<close>)
next
  case (registers j i)
  then show ?thesis
    using live_early [OF ok, of u'] live_ok_cong [OF ok, of u'] by (cases "k = j") (simp_all add: call_register_def client_simps)
next
  case (writes j i taken)
  show ?thesis
  proof (cases "k = j")
    case True
    then show ?thesis
      using writes live_early [OF ok, of u'] live_finished [of u' k "Some i"]
      by (cases taken) (simp_all add: call_write_def request_of_fields(1) client_simps)
  qed (use writes in \<open>auto intro!: live_ok_cong [OF ok] simp: call_write_def client_simps split: option.split\<close>)
next
  case (wakes j i)
  then show ?thesis
    using live_finished [of u' k "Some i"] live_ok_cong [OF ok, of u'] by (cases "k = j") (simp_all add: client_simps)
next
  case checks
  then show ?thesis by (intro live_ok_cong [OF ok]) (auto simp: reader_check_def)
next
  case (reads readv)
  show ?thesis
  proof (rule reader_read_cases [OF inv reads(3-5)])
    assume "u' = (fail_pending (u\<lparr>rc_connected := False\<rparr>))\<lparr>rc_reading := False\<rparr>"
    then show ?thesis by (simp add: live_ok_def)
  next
    fix fs go_on conn b
    assume fs: "answers_sent P fs u" and u': "u' = (foldl (channel_on_message P) u fs)\<lparr>rc_connected := conn, rc_buf := b, rc_reading := go_on, rc_in_read := False\<rparr>"
    show ?thesis
      by (rule live_ok_cong [OF on_messages_live [OF inv reads(1) fs ok]]) (use reads(1) in \<open>simp_all add: u' on_messages_frame\<close>)
  qed
next
  case disconnects
  then show ?thesis by (intro live_ok_cong [OF ok]) (auto simp: disconnect_def close_sock_def split: if_splits)
qed

lemma live_init: "client_init u \<Longrightarrow> live_ok u k"
  using client_init_fields(1,2) [of u] by (auto simp: live_ok_def untouched_def call_new_def)

interpretation lv: invariant_system client_init "client_step e P req" "\<lambda>u. client_inv u \<and> (\<forall>k. live_ok u k)" for e P req
  by unfold_locales (blast intro: client_init_inv live_init client_step_inv live_step)+

end
