(* ===== verification/Pipelined_Calls.thy ===== *)
theory Pipelined_Calls
  imports Call_Session Call_Outcomes
begin

text \<open>
  Pipelined calls: in a session every call gets the answer to its own request, and from every
  state with a live connection the calls that wait can all complete.
\<close>

section \<open>Every call can complete\<close>

text \<open>All requests have reached the server, it owes nothing, and the client has read all replies.\<close>

definition settled :: "u64 \<Rightarrow> 'm session \<Rightarrow> bool" where
  "settled cid s \<longleftrightarrow> ses_up s = length (rc_wire (ses_client s)) \<and> idle_workers (ses_server s) \<and>
     pending_functors (the_loop (ses_server s)) = [] \<and> ses_down s = length (out_stream cid (ses_server s))"

lemma settled_received:
  assumes c: "callable E svcs req" and ok: "session_ok e E svcs req cid kis fs rest rs s" and st: "settled cid s" and rd: "rc_reading (ses_client s)"
  shows "mset (rc_received (ses_client s)) = mset (map (reply_to E svcs req) kis)"
proof -
  let ?u = "ses_client s" and ?w = "ses_server s"
  have s: "sent_log e (env_pb E) req kis ?u" and sc: "scan (parse_frame (Some kMaxBodySize)) (rc_wire ?u) = (fs, None, rest)"
    and sv: "server_side E svcs cid fs rest rs ?w" using ok st by (simp_all add: session_ok_def settled_def)
  have fs: "fs = map (body_of E req) kis"
    using sc srv.scan_all [OF wire_bodies(2) [OF c s]] wire_bodies(1) [OF c s] by simp
  have "owed ?w = {#}" using st by (simp add: settled_def owed_def idle_workers_def map_filter_simps)
  then have rs: "mset rs = mset (map (reply_to E svcs req) kis)"
    using sv st map_filter_answers [OF c, of kis] by (auto simp: server_side_def settling_def settled_def fs)
  obtain gs where gs: "scan (parse_frame None) (out_stream cid ?w) = (gs, None, contents (rc_buf ?u))" "rc_received ?u = List.map_filter (parse_response (env_pb E)) gs"
    using ok st rd by (auto simp: session_ok_def client_side_def settled_def)
  obtain bodies where b: "out_stream cid ?w = concat (map wire_frame bodies)" "list_all (body_ok None) bodies"
    "map (parse_response (env_pb E)) bodies = map Some rs" by (rule reply_frames [OF c ok])
  have "gs = bodies" using gs(1) cl.scan_all [OF b(2)] b(1) by simp
  then show ?thesis using gs(2) map_filter_Some [OF b(3)] rs by simp
qed

lemma settled_calls:
  assumes c: "callable E svcs req" and inv: "session_inv e E svcs req cid s" and st: "settled cid s" and rd: "rc_reading (ses_client s)"
    and pc: "rc_pcs (ses_client s) k = Waiting i \<or> rc_pcs (ses_client s) k = Async i"
  shows "rc_calls (ses_client s) k = completed (reply_to E svcs req (k, i)) (call_new (pc_done (rc_calls (ses_client s) k)))"
proof -
  let ?u = "ses_client s" and ?r = "reply_to E svcs req (k, i)"
  obtain kis fs rest rs where ok: "session_ok e E svcs req cid kis fs rest rs s" using inv by (auto simp: session_inv_def)
  have l: "client_inv ?u" "live_ok ?u k" using lv.reachable_inv ok by (auto simp: session_ok_def)
  have ki: "(k, i) \<in> set kis" using ok pc unfolding session_ok_def sent_log_def by blast
  have eq: "mset (rc_received ?u) = mset (map (reply_to E svcs req) kis)" by (rule settled_received [OF c ok st rd])
  then have m: "?r \<in> set (rc_received ?u)" using ki by (metis imageI set_map set_mset_mset)
  have id: "rs_id ?r = i" by (rule callable_facts(6) [OF c])
  then have "rc_pcs ?u k = Waiting (rs_id ?r) \<or> rc_pcs ?u k = Async (rs_id ?r)" using pc by simp
  then have "pc_done_flag (rc_calls ?u k)" using l(1) m unfolding client_inv_def call_ok_def by blast
  then obtain m' where m': "m' \<in> set (rc_received ?u)" "rs_id m' = i" "rc_calls ?u k = completed m' (call_new (pc_done (rc_calls ?u k)))"
    using l(2) rd pc unfolding live_ok_def by auto
  have "mset (map rs_id (rc_received ?u)) = mset (map snd kis)"
    using arg_cong [OF eq, of "image_mset rs_id"] callable_facts(6) [OF c]
    by (simp add: multiset.map_comp comp_def case_prod_unfold) (metis (no_types, lifting) image_mset_cong prod.collapse)
  then have "distinct (map rs_id (rc_received ?u))"
    using ok by (metis mset_eq_imp_distinct_iff session_ok_def sent_log_def)
  then have "m' = ?r" using m m'(1,2) id by (auto simp: distinct_map inj_on_def)
  then show ?thesis using m'(3) by simp
qed

text \<open>The server reads what is left of the requests.\<close>

lemma requests_delivered:
  assumes K: "write_ok (env_kernel E)" "write_no_error (env_kernel E)" and c: "callable E svcs req" and "session_inv e E svcs req cid s"
  shows "\<exists>s'. (session_step e E req cid)\<^sup>*\<^sup>* s s' \<and> session_inv e E svcs req cid s' \<and> ses_client s' = ses_client s \<and>
    ses_up s' = length (rc_wire (ses_client s))"
  using assms(4)
proof (induction "length (rc_wire (ses_client s)) - ses_up s" arbitrary: s rule: less_induct)
  case less
  obtain kis fs rest rs where ok: "session_ok e E svcs req cid kis fs rest rs s" using less.prems by (auto simp: session_inv_def)
  let ?x = "rc_wire (ses_client s)"
  let ?ch = "take extra_size (drop (ses_up s) ?x)"
  show ?case
  proof (cases "ses_up s = length ?x")
    case True
    then show ?thesis using less.prems by blast
  next
    case False
    then have up: "ses_up s < length ?x" using ok by (simp add: session_ok_def)
    obtain w fs' rest' rs' where w: "session_turn E cid False ?ch False (ses_server s) = Some w"
      "session_ok e E svcs req cid kis fs' rest' rs' (s\<lparr>ses_server := w, ses_up := ses_up s + length ?ch\<rparr>)"
      using turn_ok [OF K c ok refl, of extra_size False False] by auto
    let ?s = "s\<lparr>ses_server := w, ses_up := ses_up s + length ?ch\<rparr>"
    have "session_step e E req cid s ?s" by (rule session_step.turns [OF refl _ w(1)]) simp
    moreover have "\<exists>s'. (session_step e E req cid)\<^sup>*\<^sup>* ?s s' \<and> session_inv e E svcs req cid s' \<and> ses_client s' = ses_client ?s \<and>
        ses_up s' = length (rc_wire (ses_client ?s))"
      by (rule less.hyps) (use up w(2) in \<open>auto simp: session_inv_def extra_size_def\<close>)
    ultimately show ?thesis by (auto intro: converse_rtranclp_into_rtranclp)
  qed
qed

text \<open>The workers finish what they run and empty the queue.\<close>

lemma work_steps:
  assumes "fold_cb (work_act E) acts (ses_server s) = Some w" "list_all (\<lambda>a. worker_of a \<noteq> thread_id (the_loop (ses_server s))) acts"
  shows "(session_step e E req cid)\<^sup>*\<^sup>* s (s\<lparr>ses_server := w\<rparr>)"
  using assms
proof (induction acts arbitrary: s)
  case Nil
  then have "s\<lparr>ses_server := w\<rparr> = s" by auto
  then show ?case by simp
next
  case (Cons a acts)
  obtain w1 where w1: "work_act E (ses_server s) a = Some w1" "fold_cb (work_act E) acts w1 = Some w"
    using Cons.prems(1) by (auto simp: bind_eq_Some_conv)
  have "thread_id (the_loop w1) = thread_id (the_loop (ses_server s))"
  proof (cases a)
    case (Take tid)
    then have "worker_take tid (ses_server s) = Some w1" using w1(1) by (simp split: if_splits)
    then show ?thesis by (rule worker_take_cases) simp
  next
    case (Reply tid)
    then have "tid \<noteq> thread_id (the_loop (ses_server s))" "worker_reply E tid (ses_server s) = Some w1" using w1(1) by (simp_all split: if_splits)
    then show ?thesis by (rule worker_reply_cases) (simp add: loop_defs)
  qed
  then have "(session_step e E req cid)\<^sup>*\<^sup>* (s\<lparr>ses_server := w1\<rparr>) (s\<lparr>ses_server := w1\<rparr>\<lparr>ses_server := w\<rparr>)"
    by (intro Cons.IH) (use w1(2) Cons.prems(2) in simp_all)
  moreover have "session_step e E req cid s (s\<lparr>ses_server := w1\<rparr>)" by (rule session_step.works [OF _ w1(1)]) (use Cons.prems(2) in simp)
  ultimately show ?case by (auto intro: converse_rtranclp_into_rtranclp)
qed

lemma replies_all:
  assumes "settling cid out resps w" "in_flight w (thread_id (the_loop w)) = None"
  shows "\<exists>acts w'. fold_cb (work_act E) acts w = Some w' \<and> list_all (\<lambda>a. worker_of a \<noteq> thread_id (the_loop w)) acts \<and>
    in_flight w' = Map.empty \<and> thread_id (the_loop w') = thread_id (the_loop w)"
  using assms
proof (induction "card (dom (in_flight w))" arbitrary: w)
  case 0
  then have "in_flight w = Map.empty" by (simp add: settling_def)
  then show ?case by (intro exI [of _ "[]"] exI [of _ w]) simp
next
  case (Suc n)
  then obtain tid t where t: "in_flight w tid = Some t" "finite (dom (in_flight w))"
    by (metis card.empty domD ex_in_conv nat.distinct(1) settling_def)
  then have tid: "tid \<noteq> thread_id (the_loop w)" using Suc.prems(2) by auto
  have "task_for cid t" using Suc.prems(1) t(1) by (auto simp: settling_def ran_def)
  then obtain r where r: "svc_call (tk_service t) (tk_method t) (tk_request t) controller_new = Some r"
    by (auto simp: task_for_def task_result_def)
  let ?w = "w\<lparr>in_flight := (in_flight w)(tid := None),
            the_loop := wakeup (push_functor (UserFunctor (SendResponse (tk_conn t) (response_of (tk_id t) r))) (the_loop w))\<rparr>"
  have a: "work_act E w (Reply tid) = Some ?w" using worker_reply_effect [OF tid t(1) r] tid by simp
  have "settling cid out resps ?w" by (rule settling_run [OF Suc.prems(1), of E "[Reply tid]"]) (use a in simp)
  moreover have "card (dom (in_flight ?w)) = n" using Suc.hyps(2) t(2) domI [of "in_flight w", OF t(1)] by (simp add: card_Diff_singleton)
  moreover have th: "thread_id (the_loop ?w) = thread_id (the_loop w)" by (simp add: loop_defs)
  moreover have "in_flight ?w (thread_id (the_loop ?w)) = None" using th Suc.prems(2) by simp
  ultimately obtain acts w' where "fold_cb (work_act E) acts ?w = Some w'" "list_all (\<lambda>a. worker_of a \<noteq> thread_id (the_loop w)) acts"
    "in_flight w' = Map.empty" "thread_id (the_loop w') = thread_id (the_loop w)"
    using Suc.hyps(1) [of ?w] by metis
  then show ?case using a tid by (intro exI [of _ "Reply tid # acts"] exI [of _ w']) simp
qed

lemma work_all:
  assumes inv: "session_inv e E svcs req cid s"
  shows "\<exists>w. (session_step e E req cid)\<^sup>*\<^sup>* s (s\<lparr>ses_server := w\<rparr>) \<and> idle_workers w"
proof -
  let ?w = "ses_server s"
  obtain out resps where st: "settling cid out resps ?w" "in_flight ?w (thread_id (the_loop ?w)) = None"
    using inv by (auto simp: session_inv_def session_ok_def server_side_def)
  obtain acts w1 where 1: "fold_cb (work_act E) acts ?w = Some w1" "list_all (\<lambda>a. worker_of a \<noteq> thread_id (the_loop ?w)) acts"
    "in_flight w1 = Map.empty" "thread_id (the_loop w1) = thread_id (the_loop ?w)"
    using replies_all [OF st] by blast
  have "settling cid out resps w1" by (rule settling_run [OF st(1) 1(1)])
  then have ts: "list_all (task_for cid) (tp_tasks (worker_pool w1))" by (simp add: settling_def)
  obtain tid where tid: "tid \<noteq> thread_id (the_loop w1)" by (metis n_not_Suc_n)
  let ?acts = "concat (replicate (length (tp_tasks (worker_pool w1))) [Take tid, Reply tid])"
  obtain w2 where 2: "fold_cb (work_act E) ?acts w1 = Some w2" "idle_workers w2"
    using one_worker_settles [OF tid refl 1(3) ts] by blast
  have "fold_cb (work_act E) (acts @ ?acts) ?w = Some w2" using 1(1) 2(1) by (simp add: fold_cb_append)
  moreover have "list_all (\<lambda>a. worker_of a \<noteq> thread_id (the_loop ?w)) (acts @ ?acts)"
    using 1(2,4) tid by (auto simp: list_all_iff)
  ultimately show ?thesis using work_steps 2(2) by blast
qed

text \<open>The loop writes what is left of the replies.\<close>

lemma flush_turn:
  assumes K: "write_ok (env_kernel E)" "write_progress (env_kernel E)" and w: "open_conn cid w" "pending_functors (the_loop w) = []"
    "out_buffered cid w \<noteq> []"
  shows "\<exists>w'. session_turn E cid False [] True w = Some w' \<and> length (out_buffered cid w') < length (out_buffered cid w)"
proof -
  let ?E = "on_host E []" and ?evs = "turn_events cid False False True"
  obtain q where q: "poll (\<lambda>n. Inr ?evs) (loop_poller (the_loop w)) = (?evs, q)" by (simp add: poll_def)
  let ?w = "w\<lparr>the_loop := (the_loop w)\<lparr>loop_poller := q\<rparr>\<rparr>"
  have cb: "wc_cb (server_cbs (rpc_cbs ?E)) = None" by (simp add: server_cbs_alt rpc_cbs_def reply_cbs_def no_conn_cbs_def)
  have k: "write_ok (env_kernel ?E)" "write_progress (env_kernel ?E)" using K(1) by simp (use K(2) in \<open>simp add: write_progress_def on_host_def\<close>)
  have "open_conn cid ?w" using w(1) by (simp add: open_conn_loop)
  then obtain c where c: "conns ?w cid = Some c" "out_inv cid ?w" by (auto simp: open_conn_def)
  have "\<exists>w1. handle_write (env_kernel ?E) (server_cbs (rpc_cbs ?E)) cid ?w = Some w1 \<and> length (out_buffered cid w1) < length (out_buffered cid w)"
    by (rule handle_write_cases [OF k(1) cb c(2,1)]) (use k(2) w(3) c(1) in \<open>auto simp: out_buffered_def\<close>)
  then obtain w1 where 1: "handle_write (env_kernel ?E) (server_cbs (rpc_cbs ?E)) cid ?w = Some w1"
    "length (out_buffered cid w1) < length (out_buffered cid w)" by blast
  have p: "pending_functors (the_loop w1) = []" using quiet_rpc(4) [OF quiet_handle_write [OF cb 1(1)]] w(2) by simp
  have "conn_handle_event (env_kernel ?E) (server_cbs (rpc_cbs ?E)) cid EPOLLOUT ?w = Some w1"
    using 1(1) c(1) by (simp add: epollout_event conn_handle_event_def conn_channel_cbs_def no_channel_cbs_def run_cb_def)
  then have "fold_cb (server_dispatch (env_kernel ?E) (env_accept ?E) (rpc_cbs ?E)) ?evs ?w = Some w1"
    by (simp add: turn_events_def conn_ptr_dispatch)
  then have "session_turn E cid False [] True w =
      Some (w1\<lparr>the_loop := (the_loop w1)\<lparr>pending_functors := [], calling_pending_functors := False\<rparr>\<rparr>)"
    using q p by (simp add: session_turn_def rpc_turn_def loop_turn_def do_pending_functors_def swap_functors_def)
  then show ?thesis using 1(2) by (simp add: out_buffered_def)
qed

lemma flush_all:
  assumes K: "write_ok (env_kernel E)" "write_no_error (env_kernel E)" "write_progress (env_kernel E)" and c: "callable E svcs req"
    and "session_inv e E svcs req cid s" "pending_functors (the_loop (ses_server s)) = []"
  shows "\<exists>w. (session_step e E req cid)\<^sup>*\<^sup>* s (s\<lparr>ses_server := w\<rparr>) \<and> same_work (ses_server s) w \<and>
    pending_functors (the_loop w) = [] \<and> out_buffered cid w = []"
  using assms(5,6)
proof (induction "length (out_buffered cid (ses_server s))" arbitrary: s rule: less_induct)
  case less
  obtain kis fs rest rs where ok: "session_ok e E svcs req cid kis fs rest rs s" using less.prems(1) by (auto simp: session_inv_def)
  show ?case
  proof (cases "out_buffered cid (ses_server s) = []")
    case True
    then show ?thesis using less.prems(2) by (intro exI [of _ "ses_server s"]) (simp add: same_work_def)
  next
    case False
    have "open_conn cid (ses_server s)" using ok server_side_open by (auto simp: session_ok_def)
    from flush_turn [OF K(1,3) this less.prems(2) False] obtain w1 where
      1: "session_turn E cid False [] True (ses_server s) = Some w1" "length (out_buffered cid w1) < length (out_buffered cid (ses_server s))" by blast
    have 2: "pending_functors (the_loop w1) = []" "same_work (ses_server s) w1" "session_inv e E svcs req cid (s\<lparr>ses_server := w1\<rparr>)"
      using turn_ok [OF K(1,2) c ok, of "[]" 0 False True] 1(1) by (auto simp: session_inv_def)
    obtain w where "(session_step e E req cid)\<^sup>*\<^sup>* (s\<lparr>ses_server := w1\<rparr>) (s\<lparr>ses_server := w\<rparr>)" "same_work w1 w"
      "pending_functors (the_loop w) = []" "out_buffered cid w = []"
      using less.hyps [of "s\<lparr>ses_server := w1\<rparr>"] 1(2) 2 by auto
    moreover have "session_step e E req cid s (s\<lparr>ses_server := w1\<rparr>)"
      using session_step.turns [of "[]" 0 s E cid False True w1 e req] 1(1) by simp
    ultimately show ?thesis using 2(2) by (auto simp: same_work_def intro: converse_rtranclp_into_rtranclp)
  qed
qed

text \<open>The client reads what is left of the replies.\<close>

lemma reader_enters:
  assumes "session_ok e E svcs req cid kis fs rest rs s" "rc_reading (ses_client s)"
    and v: "v = (if rc_in_read (ses_client s) then ses_client s else reader_check (ses_client s))"
  shows "(session_step e E req cid)\<^sup>*\<^sup>* s (s\<lparr>ses_client := v\<rparr>) \<and> (\<exists>kis. session_ok e E svcs req cid kis fs rest rs (s\<lparr>ses_client := v\<rparr>))"
proof (cases "rc_in_read (ses_client s)")
  case False
  then have "caller_step e (env_pb E) req (ses_client s) v" unfolding v by (simp add: caller_step.reader_checks assms(2))
  then show ?thesis using session_step.calls caller_ok [OF assms(1)] by blast
qed (use assms(1) v in auto)

lemma receive_all:
  assumes c: "callable E svcs req" and "session_inv e E svcs req cid s" "rc_reading (ses_client s)" "rc_connected (ses_client s)"
    "out_buffered cid (ses_server s) = []"
  shows "\<exists>u. (session_step e E req cid)\<^sup>*\<^sup>* s (s\<lparr>ses_client := u, ses_down := length (out_stream cid (ses_server s))\<rparr>) \<and>
    rc_reading u \<and> rc_pcs u = rc_pcs (ses_client s) \<and> rc_wire u = rc_wire (ses_client s)"
  using assms(2-)
proof (induction "length (out_stream cid (ses_server s)) - ses_down s" arbitrary: s rule: less_induct)
  case less
  let ?o = "out_stream cid (ses_server s)"
  obtain kis fs rest rs where ok0: "session_ok e E svcs req cid kis fs rest rs s" using less.prems(1) by (auto simp: session_inv_def)
  have o: "wrote cid (net_log (ses_server s)) = ?o" using less.prems(4) by (simp add: out_stream_def)
  show ?case
  proof (cases "ses_down s = length ?o")
    case True
    then have "s\<lparr>ses_client := ses_client s, ses_down := length ?o\<rparr> = s" by simp
    then show ?thesis using less.prems(2) by (metis rtranclp.rtrancl_refl)
  next
    case False
    then have d: "ses_down s < length ?o" using ok0 by (simp add: session_ok_def)
    let ?v = "if rc_in_read (ses_client s) then ses_client s else reader_check (ses_client s)"
    let ?s = "s\<lparr>ses_client := ?v\<rparr>"
    have v: "rc_reading ?v" "rc_in_read ?v" "rc_connected ?v" "rc_pcs ?v = rc_pcs (ses_client s)" "rc_wire ?v = rc_wire (ses_client s)"
      using less.prems(2,3) by (simp_all add: reader_check_def)
    have st: "(session_step e E req cid)\<^sup>*\<^sup>* s ?s \<and> (\<exists>kis. session_ok e E svcs req cid kis fs rest rs ?s)"
      by (rule reader_enters [OF ok0 less.prems(2) refl])
    then obtain kis where ok: "session_ok e E svcs req cid kis fs rest rs ?s" by blast
    let ?bs = "take extra_size (drop (ses_down s) ?o)"
    have b: "?bs \<noteq> []" "length ?bs \<le> extra_size" using d by (auto simp: extra_size_def)
    have bs: "?bs = take extra_size (drop (ses_down ?s) (wrote cid (net_log (ses_server ?s))))" by (simp add: o)
    obtain u where u: "reader_read e (env_pb E) (arriving ?bs) ?v = Some u" "rc_reading u" "rc_connected u" "rc_pcs u = rc_pcs ?v" "rc_wire u = rc_wire ?v"
      "session_ok e E svcs req cid kis fs rest rs (?s\<lparr>ses_client := u, ses_down := ses_down ?s + length ?bs\<rparr>)"
      using receive_ok [OF c ok _ _ bs b] v(1-3) by auto
    let ?t = "s\<lparr>ses_client := u, ses_down := ses_down s + length ?bs\<rparr>"
    have t: "session_step e E req cid ?s ?t"
      using session_step.receives [of ?s, OF _ _ bs b] v(1,2) u(1) by simp
    have "\<exists>u'. (session_step e E req cid)\<^sup>*\<^sup>* ?t (?t\<lparr>ses_client := u', ses_down := length (out_stream cid (ses_server ?t))\<rparr>) \<and>
        rc_reading u' \<and> rc_pcs u' = rc_pcs (ses_client ?t) \<and> rc_wire u' = rc_wire (ses_client ?t)"
      by (rule less.hyps) (use d b(1) u(2,3,6) less.prems(4) in \<open>auto simp: session_inv_def\<close>)
    then obtain u' where u': "(session_step e E req cid)\<^sup>*\<^sup>* ?t (s\<lparr>ses_client := u', ses_down := length ?o\<rparr>)"
      "rc_reading u'" "rc_pcs u' = rc_pcs u" "rc_wire u' = rc_wire u" by auto
    have "(session_step e E req cid)\<^sup>*\<^sup>* s (s\<lparr>ses_client := u', ses_down := length ?o\<rparr>)"
      using st t u'(1) by (meson converse_rtranclp_into_rtranclp rtranclp_trans)
    then show ?thesis using u'(2-4) u(4,5) v(4,5) by auto
  qed
qed

text \<open>All of it: from every state with a live reader the session can settle, and no call moves meanwhile.\<close>

lemma session_settles:
  assumes K: "write_ok (env_kernel E)" "write_no_error (env_kernel E)" "write_progress (env_kernel E)" and c: "callable E svcs req"
    and inv: "session_inv e E svcs req cid s" and rd: "rc_reading (ses_client s)" "rc_connected (ses_client s)"
  shows "\<exists>s'. (session_step e E req cid)\<^sup>*\<^sup>* s s' \<and> session_inv e E svcs req cid s' \<and> settled cid s' \<and>
    rc_reading (ses_client s') \<and> rc_pcs (ses_client s') = rc_pcs (ses_client s)"
proof -
  let ?st = "(session_step e E req cid)\<^sup>*\<^sup>*"
  have keep: "session_inv e E svcs req cid t" if "?st s t" for t using sm.steps_inv [OF that] inv K(1,2) c by blast
  obtain s1 where 1: "?st s s1" "session_inv e E svcs req cid s1" "ses_client s1 = ses_client s" "ses_up s1 = length (rc_wire (ses_client s))"
    using requests_delivered [OF K(1,2) c inv] by blast
  obtain w2 where 2: "?st s1 (s1\<lparr>ses_server := w2\<rparr>)" "idle_workers w2" using work_all [OF 1(2)] by blast
  have i2: "session_inv e E svcs req cid (s1\<lparr>ses_server := w2\<rparr>)" using keep rtranclp_trans [OF 1(1) 2(1)] by blast
  then obtain kis fs rest rs where ok: "session_ok e E svcs req cid kis fs rest rs (s1\<lparr>ses_server := w2\<rparr>)" by (auto simp: session_inv_def)
  obtain w3 where w3: "session_turn E cid True [] False w2 = Some w3" "pending_functors (the_loop w3) = []" "same_work w2 w3"
    "session_inv e E svcs req cid (s1\<lparr>ses_server := w3\<rparr>)"
    using turn_ok [OF K(1,2) c ok, of "[]" 0 True False] by (fastforce simp: session_inv_def)
  have 3: "?st (s1\<lparr>ses_server := w2\<rparr>) (s1\<lparr>ses_server := w3\<rparr>)"
    using session_step.turns [of "[]" 0 "s1\<lparr>ses_server := w2\<rparr>" E cid True False w3 e req] w3(1) by simp
  obtain w4 where w4: "?st (s1\<lparr>ses_server := w3\<rparr>) (s1\<lparr>ses_server := w4\<rparr>)" "same_work w3 w4" "pending_functors (the_loop w4) = []"
    "out_buffered cid w4 = []"
    using flush_all [OF K c w3(4)] w3(2) by auto
  have 4: "?st s (s1\<lparr>ses_server := w4\<rparr>)" using 1(1) 2(1) 3 w4(1) by (meson rtranclp_trans)
  obtain u where u: "?st (s1\<lparr>ses_server := w4\<rparr>) (s1\<lparr>ses_server := w4, ses_client := u, ses_down := length (out_stream cid w4)\<rparr>)"
    "rc_reading u" "rc_pcs u = rc_pcs (ses_client s)" "rc_wire u = rc_wire (ses_client s)"
    using receive_all [OF c keep [OF 4]] rd w4(4) 1(3) by auto
  let ?s = "s1\<lparr>ses_server := w4, ses_client := u, ses_down := length (out_stream cid w4)\<rparr>"
  have "idle_workers w4" using 2(2) w3(3) w4(2) by (simp add: same_work_def idle_workers_def)
  then have "settled cid ?s" using 1(4) u(4) w4(3) by (simp add: settled_def)
  moreover have "?st s ?s" by (rule rtranclp_trans [OF 4 u(1)])
  ultimately show ?thesis using keep u(2,3) by (intro exI [of _ ?s]) simp
qed

section \<open>A concrete session\<close>

text \<open>
  Call 0 is synchronous and echoes, call 1 has a closure and names a service that is not
  there. Both are written before the server has read anything, the second one first.
\<close>

definition pipe_req :: "nat \<Rightarrow> string \<times> string \<times> string" where
  "pipe_req k = (if k = 0 then ''demo.Echo'' else ''x'', ''Say'', ''hi'')"

definition echo_services :: "string \<rightharpoonup> string service" where
  "echo_services = [''demo.Echo'' \<mapsto> echo_service]"

definition pipe_session :: "rpc_client \<Rightarrow> string session" where
  "pipe_session u = \<lparr>ses_client = u, ses_server = demo_rpc [], ses_up = 0, ses_down = 0\<rparr>"

definition pipe_write :: "nat \<Rightarrow> u32 \<Rightarrow> rpc_client \<Rightarrow> rpc_client" where
  "pipe_write k i = call_write LittleEndian demo_protobuf
     (Some (length (request_wire LittleEndian demo_protobuf (request_of pipe_req k i)))) k (request_of pipe_req k i)"

definition pipe_sent :: rpc_client where
  "pipe_sent = pipe_write 0 1 (pipe_write 1 2 (call_register 1 2 (call_register 0 1 (call_start 1 (call_start 0 demo_channel)))))"

abbreviation pipe_step :: "string session \<Rightarrow> string session \<Rightarrow> bool" where
  "pipe_step \<equiv> session_step LittleEndian far_env pipe_req 1"

lemma pipe_callable: "callable far_env echo_services pipe_req"
proof -
  let ?b = "\<lambda>k i. demo_body (request_of pipe_req k i)"
  have "ser_request demo_protobuf (request_of pipe_req k i) = Some (?b k i)" "length (?b k i) \<le> kMaxBodySize" for k i
    by (simp_all add: demo_body_def demo_protobuf_def request_of_def pipe_req_def put_str_def kMaxBodySize_def)
  moreover have a: "answer far_env echo_services (?b k i) =
      Some (if k = 0 then \<lparr>rs_id = i, rs_success = True, rs_result = ''hi'', rs_error = []\<rparr> else error_response i ''service not found: x'')" for k i
    unfolding answer_def far_env_simps demo_body_parse
    by (simp add: request_of_def pipe_req_def echo_services_def echo_service_def response_of_def controller_new_def)
  moreover have "\<exists>rb. ser_response demo_protobuf (if k = (0 :: nat) then \<lparr>rs_id = i, rs_success = True, rs_result = ''hi'', rs_error = []\<rparr>
      else error_response i ''service not found: x'') = Some rb \<and> length rb < 2 ^ 32" for k i
    by (simp add: demo_protobuf_def error_response_def put_str_def)
  ultimately show ?thesis unfolding callable_def far_env_simps using demo_protobuf_ok by blast
qed

lemma pipe_replies:
  "reply_to far_env echo_services pipe_req (0, i) = \<lparr>rs_id = i, rs_success = True, rs_result = ''hi'', rs_error = []\<rparr>"
  "reply_to far_env echo_services pipe_req (1, i) = error_response i ''service not found: x''"
proof -
  have b: "body_of far_env pipe_req (k, i) = demo_body (request_of pipe_req k i)" for k
    by (simp add: body_of_def demo_body_def far_env_simps)
  show "reply_to far_env echo_services pipe_req (0, i) = \<lparr>rs_id = i, rs_success = True, rs_result = ''hi'', rs_error = []\<rparr>"
    "reply_to far_env echo_services pipe_req (1, i) = error_response i ''service not found: x''"
    unfolding reply_to_def b answer_def far_env_simps demo_body_parse
    by (simp_all add: request_of_def pipe_req_def echo_services_def echo_service_def response_of_def controller_new_def)
qed

lemma far_kernel: "write_ok (env_kernel far_env)" "write_no_error (env_kernel far_env)" "write_progress (env_kernel far_env)"
  by (simp_all add: far_env_simps calm_kernel_ok) (simp add: calm_kernel_def write_progress_def)

lemma pipe_init: "session_init echo_services 1 (pipe_session demo_channel)"
proof -
  have "\<exists>c. conns (demo_rpc []) 1 = Some c \<and> buffer_inv (tc_input c) \<and> contents (tc_input c) = []"
    by (simp add: demo_rpc_def append_buf_inv buffer_new_inv queue_simps)
  moreover have "idle_workers (demo_rpc [])" "\<not> tp_stop (worker_pool (demo_rpc []))" "rpc_services (demo_rpc []) = echo_services"
    by (simp_all add: demo_rpc_def thread_pool_new_def idle_workers_def echo_services_def)
  ultimately show ?thesis
    using demo_channel_init demo_rpc_open by (simp add: session_init_def pipe_session_def)
qed

lemma demo_channel_fields:
  "rc_pcs demo_channel k = NotCalled" "rc_connected demo_channel" "rc_reading demo_channel" "rc_next_request_id demo_channel = 1"
  "rc_issued demo_channel = 0" "pc_done (rc_calls demo_channel k) \<longleftrightarrow> k = 1"
  by (simp_all add: demo_channel_def channel_connect_def demo_calls_def rpc_channel_new_def call_new_def Let_def)

lemmas pipe_defs = pipe_sent_def pipe_write_def call_start_def call_register_def call_write_def set_pc_def is_connected_def
  demo_channel_fields request_of_fields(1)

lemma pipe_client:
  "rc_pcs pipe_sent 0 = Waiting 1" "rc_pcs pipe_sent 1 = Async 2" "rc_reading pipe_sent" "rc_connected pipe_sent"
  by (simp_all add: pipe_defs)

lemma pipe_calls:
  assumes "reachable (session_init svcs cid) (session_step e E req cid) s" "caller_step e (env_pb E) req (ses_client s) u"
  shows "reachable (session_init svcs cid) (session_step e E req cid) (s\<lparr>ses_client := u\<rparr>)"
  using reach_step [OF assms(1) session_step.calls [OF assms(2)]] .

lemma pipe_reachable: "reachable (session_init echo_services 1) pipe_step (pipe_session pipe_sent)"
proof -
  let ?R = "\<lambda>u. reachable (session_init echo_services 1) pipe_step (pipe_session u)"
  have st: "?R v" if "?R u" "caller_step LittleEndian demo_protobuf pipe_req u v" for u v
    using pipe_calls [OF that(1)] that(2) by (simp add: pipe_session_def far_env_simps)
  let ?u1 = "call_start 0 demo_channel" let ?u2 = "call_start 1 ?u1" let ?u3 = "call_register 0 1 ?u2"
  let ?u4 = "call_register 1 2 ?u3" let ?u5 = "pipe_write 1 2 ?u4"
  have "?R demo_channel" by (rule reach_init [of "session_init echo_services 1", OF pipe_init])
  then have "?R ?u1" by (rule st [OF _ caller_step.call_starts]) (simp_all add: pipe_defs)
  then have "?R ?u2" by (rule st [OF _ caller_step.call_starts]) (simp_all add: pipe_defs)
  then have "?R ?u3" by (rule st [OF _ caller_step.call_registers]) (simp add: pipe_defs)
  then have "?R ?u4" by (rule st [OF _ caller_step.call_registers]) (simp add: pipe_defs)
  then have "?R ?u5" unfolding pipe_write_def by (rule st [OF _ caller_step.call_sends]) (simp add: pipe_defs)
  then show ?thesis unfolding pipe_sent_def pipe_write_def by (rule st [OF _ caller_step.call_sends]) (simp add: pipe_defs)
qed

section \<open>Properties\<close>

text \<open>
  C2. Pipelined calls get their own answers: any number of calls share a connection to the server,
  callers, reader, \<^verbatim>\<open>disconnect\<close>, the server's loop and its workers run in any order, and TCP cuts
  both streams anywhere. In every state of such a session the client has received at most one
  response per id; a response stored for a call is what the service computed for that call's
  request; a failed controller holds one of the client's own reasons or the server's error for
  that call's request; no turn of the server's loop fails; and the client is in a state its own
  theorems speak of, so that what they assume of the server holds of this one. The session
  ends when the server sees the connection close.
\<close>

theorem pipelined_calls_correct:
  assumes "write_ok (env_kernel E)" "write_no_error (env_kernel E)" "callable E svcs req"
    and "reachable (session_init svcs cid) (session_step e E req cid) s"
  shows "reachable client_init (client_step e (env_pb E) req) (ses_client s) \<and>
    distinct (map rs_id (rc_received (ses_client s))) \<and>
    (\<forall>k r. pc_response (rc_calls (ses_client s) k) = Some r \<longrightarrow>
       (\<exists>i. call_id (rc_pcs (ses_client s) k) = Some i \<and> rs_success (reply_to E svcs req (k, i)) \<and> rs_result (reply_to E svcs req (k, i)) = r)) \<and>
    (\<forall>k. ctl_failed (pc_controller (rc_calls (ses_client s) k)) \<longrightarrow>
       ctl_err_text (pc_controller (rc_calls (ses_client s) k)) \<in> own_reasons \<or>
       (\<exists>i. call_id (rc_pcs (ses_client s) k) = Some i \<and> \<not> rs_success (reply_to E svcs req (k, i)) \<and>
          ctl_err_text (pc_controller (rc_calls (ses_client s) k)) = rs_error (reply_to E svcs req (k, i)))) \<and>
    (\<forall>wk wr n. n \<le> extra_size \<longrightarrow>
       session_turn E cid wk (take n (drop (ses_up s) (rc_wire (ses_client s)))) wr (ses_server s) \<noteq> None)"
proof -
  let ?u = "ses_client s"
  obtain kis fs rest rs where ok: "session_ok e E svcs req cid kis fs rest rs s"
    using sm.reachable_inv [OF assms(4)] assms(1-3) by (auto simp: session_inv_def)
  then have u: "reachable client_init (client_step e (env_pb E) req) ?u" by (simp add: session_ok_def)
  obtain more where rs: "rs = rc_received ?u @ more" using ok by (auto simp: session_ok_def client_side_def)
  have inv: "client_inv ?u" "failure_ok ?u k" for k using fr.reachable_inv [OF u] by auto
  have d: "distinct (map rs_id (rc_received ?u))" using responses_distinct [OF assms(3) ok] rs by simp
  have own: "m = reply_to E svcs req (k, rs_id m)" if "m \<in> set (rc_received ?u)" "call_id (rc_pcs ?u k) = Some (rs_id m)" for m k
  proof -
    have "m \<in> set rs" using that(1) rs by simp
    then obtain k' where k': "m = reply_to E svcs req (k', rs_id m)" "sent_id (rc_pcs ?u k') = Some (rs_id m)"
      by (rule response_origin [OF assms(3) ok]) auto
    then show ?thesis using client_inv_unique [OF inv(1) sent_call_id [OF k'(2)] that(2)] by simp
  qed
  have r: "\<exists>i. call_id (rc_pcs ?u k) = Some i \<and> rs_success (reply_to E svcs req (k, i)) \<and> rs_result (reply_to E svcs req (k, i)) = r"
    if p: "pc_response (rc_calls ?u k) = Some r" for k r
  proof -
    obtain m where "m \<in> set (rc_received ?u)" "call_id (rc_pcs ?u k) = Some (rs_id m)" "rs_success m" "rs_result m = r"
      using inv(1) p unfolding client_inv_def call_ok_def by blast
    then show ?thesis using own by metis
  qed
  have f: "ctl_err_text (pc_controller (rc_calls ?u k)) \<in> own_reasons \<or>
       (\<exists>i. call_id (rc_pcs ?u k) = Some i \<and> \<not> rs_success (reply_to E svcs req (k, i)) \<and>
          ctl_err_text (pc_controller (rc_calls ?u k)) = rs_error (reply_to E svcs req (k, i)))"
    if "ctl_failed (pc_controller (rc_calls ?u k))" for k
    using inv(2) [of k] that own unfolding failure_ok_def by metis
  have t: "session_turn E cid wk (take n (drop (ses_up s) (rc_wire ?u))) wr (ses_server s) \<noteq> None" if "n \<le> extra_size" for wk wr n
  proof -
    have "length (take n (drop (ses_up s) (rc_wire ?u))) \<le> extra_size" using that by simp
    from turn_ok [OF assms(1-3) ok refl this, of wk wr] show ?thesis by (metis option.distinct(1))
  qed
  show ?thesis using u d r f t by blast
qed

theorem pipelined_calls_correct_witness:
  "\<exists>s. reachable (session_init echo_services 1) pipe_step s \<and> pc_response (rc_calls (ses_client s) 0) = Some ''hi'' \<and>
     call_id (rc_pcs (ses_client s) 0) = Some 1 \<and> rs_result (reply_to far_env echo_services pipe_req (0, 1)) = ''hi'' \<and>
     distinct (map rs_id (rc_received (ses_client s)))"
proof -
  have "session_inv LittleEndian far_env echo_services pipe_req 1 (pipe_session pipe_sent)"
    using sm.reachable_inv [OF pipe_reachable] far_kernel pipe_callable by blast
  then obtain s where s: "pipe_step\<^sup>*\<^sup>* (pipe_session pipe_sent) s" "session_inv LittleEndian far_env echo_services pipe_req 1 s" "settled 1 s"
    "rc_reading (ses_client s)" "rc_pcs (ses_client s) = rc_pcs pipe_sent"
    using session_settles [OF far_kernel pipe_callable, of LittleEndian 1 "pipe_session pipe_sent"] pipe_client(3,4) by (auto simp: pipe_session_def)
  have "pc_response (rc_calls (ses_client s) 0) = Some ''hi''"
    using settled_calls [OF pipe_callable s(2-4), of 0 1] s(5) pipe_client(1) pipe_replies(1) [of 1]
    by (metis completed_success rpc_response.select_convs(2,3))
  moreover have r: "reachable (session_init echo_services 1) pipe_step s" by (rule reachable_steps [OF pipe_reachable s(1)])
  moreover have "call_id (rc_pcs (ses_client s) 0) = Some 1" using s(5) pipe_client(1) by simp
  ultimately show ?thesis using pipelined_calls_correct [OF far_kernel(1,2) pipe_callable r] by fastforce
qed



end
