(* ===== verification/Connection_Isolation.thy ===== *)
theory Connection_Isolation
  imports Remote_Call
begin

text \<open>
  Connections do not interfere: whatever the server does for one connection leaves the others
  alone, and what it leaves behind in the loop's queue and in the worker pool is again for that
  connection. The rules of \<open>local_op\<close> follow the shape of the handlers.
\<close>

section \<open>Local operations\<close>

text \<open>The connection a queued closure is for.\<close>

fun functor_conn :: "rpc_functor net_functor \<Rightarrow> u64" where
  "functor_conn (SendInLoop cid d) = cid"
| "functor_conn (ShutdownInLoop cid) = cid"
| "functor_conn (HandleClose cid) = cid"
| "functor_conn (ConnectionEstablished cid) = cid"
| "functor_conn (DestroyConnection cid) = cid"
| "functor_conn (UserFunctor x) = rpc_fcid x"

definition touches_only :: "u64 \<Rightarrow> 'm rpc_world \<Rightarrow> 'm rpc_world \<Rightarrow> bool" where
  "touches_only cid w w' \<longleftrightarrow>
     (\<forall>i. i \<noteq> cid \<longrightarrow> conns w' i = conns w i \<and> wrote i (net_log w') = wrote i (net_log w) \<and>
        (i \<in> ts_connections (tcp_srv w') \<longleftrightarrow> i \<in> ts_connections (tcp_srv w))) \<and>
     rpc_services w' = rpc_services w \<and> in_flight w' = in_flight w \<and>
     (\<exists>fs. pending_functors (the_loop w') = pending_functors (the_loop w) @ fs \<and> list_all (\<lambda>f. functor_conn f = cid) fs) \<and>
     (\<exists>ts. tp_tasks (worker_pool w') = tp_tasks (worker_pool w) @ ts \<and> list_all (\<lambda>t. tk_conn t = cid) ts)"

definition local_op :: "u64 \<Rightarrow> ('m rpc_world \<Rightarrow> 'm rpc_world option) \<Rightarrow> bool" where
  "local_op cid f \<longleftrightarrow> (\<forall>w w'. f w = Some w' \<longrightarrow> touches_only cid w w')"

lemma touches_refl [simp]: "touches_only cid w w"
  by (simp add: touches_only_def)

lemma touches_trans:
  assumes "touches_only cid u v" "touches_only cid v w" shows "touches_only cid u w"
proof -
  obtain fs gs ts us where
    "pending_functors (the_loop v) = pending_functors (the_loop u) @ fs" "list_all (\<lambda>f. functor_conn f = cid) fs"
    "pending_functors (the_loop w) = pending_functors (the_loop v) @ gs" "list_all (\<lambda>f. functor_conn f = cid) gs"
    "tp_tasks (worker_pool v) = tp_tasks (worker_pool u) @ ts" "list_all (\<lambda>t. tk_conn t = cid) ts"
    "tp_tasks (worker_pool w) = tp_tasks (worker_pool v) @ us" "list_all (\<lambda>t. tk_conn t = cid) us"
    using assms unfolding touches_only_def by blast
  then have "\<exists>hs. pending_functors (the_loop w) = pending_functors (the_loop u) @ hs \<and> list_all (\<lambda>f. functor_conn f = cid) hs"
    "\<exists>vs. tp_tasks (worker_pool w) = tp_tasks (worker_pool u) @ vs \<and> list_all (\<lambda>t. tk_conn t = cid) vs"
    by (auto intro: exI [of _ "fs @ gs"] exI [of _ "ts @ us"])
  then show ?thesis using assms unfolding touches_only_def by metis
qed

lemma touches_put: "touches_only cid w (put_conn cid c w)"
  by (simp add: touches_only_def put_conn_def)

lemma touches_tick: "touches_only cid w (tick w)"
  by (simp add: touches_only_def tick_def)

lemma touches_log: "(\<And>i. i \<noteq> cid \<Longrightarrow> wrote i [ev] = []) \<Longrightarrow> touches_only cid w (log_event ev w)"
  by (simp add: touches_only_def log_event_def)

lemma touches_queue: "functor_conn f = cid \<Longrightarrow> touches_only cid w (queue_in_loop f w)"
  by (auto simp: touches_only_def loop_defs)

lemma touches_poller: "touches_only cid w (w\<lparr>the_loop := (the_loop w)\<lparr>loop_poller := p\<rparr>\<rparr>)"
  by (simp add: touches_only_def)

lemma local_opI: "(\<And>w w'. f w = Some w' \<Longrightarrow> touches_only cid w w') \<Longrightarrow> local_op cid f"
  by (simp add: local_op_def)

lemma local_opD: "local_op cid f \<Longrightarrow> f w = Some w' \<Longrightarrow> touches_only cid w w'"
  by (simp add: local_op_def)

named_theorems local_rules

lemma local_Some [local_rules]: "(\<And>w. touches_only cid w (h w)) \<Longrightarrow> local_op cid (\<lambda>w. Some (h w))"
  by (auto simp: local_op_def)

lemma local_None [local_rules]: "local_op cid (\<lambda>w. None)"
  by (simp add: local_op_def)

lemma local_bind [local_rules]: "local_op cid f \<Longrightarrow> local_op cid g \<Longrightarrow> local_op cid (\<lambda>w. f w \<bind> g)"
  unfolding local_op_def bind_eq_Some_conv by (blast intro: touches_trans)

text \<open>The same for one run, where the operation starts in a state that is already a local change away.\<close>

lemma local_after: "local_op cid f \<Longrightarrow> f v = Some w' \<Longrightarrow> touches_only cid w v \<Longrightarrow> touches_only cid w w'"
  unfolding local_op_def by (blast intro: touches_trans)

lemma local_conn [local_rules]: "(\<And>c. local_op cid (g c)) \<Longrightarrow> local_op cid (\<lambda>w. conns w i \<bind> (\<lambda>c. g c w))"
  by (auto simp: local_op_def bind_eq_Some_conv)

lemma local_if [local_rules]: "local_op cid f \<Longrightarrow> local_op cid g \<Longrightarrow> local_op cid (\<lambda>w. if b w then f w else g w)"
  by (simp add: local_op_def)

lemma local_option [local_rules]:
  "local_op cid f \<Longrightarrow> (\<And>x. local_op cid (g x)) \<Longrightarrow> local_op cid (\<lambda>w. case v w of None \<Rightarrow> f w | Some x \<Rightarrow> g x w)"
  by (auto simp: local_op_def split: option.splits)

lemma local_sum [local_rules]:
  "(\<And>x. local_op cid (f x)) \<Longrightarrow> (\<And>x. local_op cid (g x)) \<Longrightarrow> local_op cid (\<lambda>w. case v w of Inl x \<Rightarrow> f x w | Inr x \<Rightarrow> g x w)"
  by (auto simp: local_op_def split: sum.splits)

lemma local_pair [local_rules]:
  "(\<And>x y. local_op cid (f x y)) \<Longrightarrow> local_op cid (\<lambda>w. case v w of (x, y) \<Rightarrow> f x y w)"
  by (auto simp: local_op_def split: prod.splits)

lemma local_run [local_rules]: "local_op cid f \<Longrightarrow> functor_conn g = cid \<Longrightarrow> local_op cid (run_in_loop f g)"
  by (auto simp: local_op_def run_in_loop_def intro: touches_queue split: if_splits)

section \<open>The handlers of a connection\<close>

lemma local_set_state [local_rules]: "local_op cid (set_state st cid)"
  unfolding set_state_def by (intro local_rules touches_put)

lemmas touches_poller_put = touches_trans [OF touches_poller touches_put]

lemma local_interest [local_rules]: "local_op cid (conn_interest op cid)"
  by (rule local_opI)
    (auto simp: conn_interest_def loop_set_interest_def bind_eq_Some_conv case_prod_unfold touches_poller_put split: if_splits)

lemma local_remove_channel [local_rules]:
  "local_op cid (\<lambda>w. loop_channel_remove ch w \<bind> (\<lambda>(ch', w'). Some (put_conn cid (h ch') w')))"
  by (rule local_opI) (auto simp: loop_channel_remove_def case_prod_unfold touches_poller_put split: if_splits)

definition local_cbs :: "u64 \<Rightarrow> 'm rpc_world conn_cbs \<Rightarrow> bool" where
  "local_cbs cid cbs \<longleftrightarrow> local_op cid (call_cb (conn_cb cbs) cid) \<and> local_op cid (call_cb (message_cb cbs) cid) \<and>
     local_op cid (call_cb (wc_cb cbs) cid) \<and> local_op cid (call_cb (closed_cb cbs) cid)"

lemma local_notify: 
  assumes "local_cbs cid cbs" shows "local_op cid (notify_connection cbs cid)"
proof (rule local_opI)
  fix w w' assume n: "notify_connection cbs cid w = Some w'"
  have cb: "local_op cid (call_cb (conn_cb cbs) cid)" using assms by (simp add: local_cbs_def)
  show "touches_only cid w w'"
  proof (cases "conn_cb cbs")
    case (Some f)
    then obtain c where "conns w cid = Some c" "f cid (log_event (ConnectionCb cid (tc_state c)) w) = Some w'"
      using n by (auto simp: notify_connection_def bind_eq_Some_conv)
    then have "call_cb (conn_cb cbs) cid (log_event (ConnectionCb cid (tc_state c)) w) = Some w'" using Some by (simp add: call_cb_def)
    then show ?thesis by (rule local_after [OF cb _ touches_log]) simp
  qed (use n in \<open>simp add: notify_connection_def\<close>)
qed

lemma local_handle_close: "local_cbs cid cbs \<Longrightarrow> local_op cid (handle_close cbs cid)"
  unfolding handle_close_def by (intro local_rules local_notify) (simp_all add: local_cbs_def)

lemma local_buffer_rest: "local_op cid (buffer_rest d cid)"
  by (rule local_opI)
    (auto simp: buffer_rest_def Let_def bind_eq_Some_conv split: if_splits intro: touches_put local_after [OF local_interest _ touches_put])

text \<open>The callbacks a send runs: write-complete and, on an error, those of closing.\<close>

lemma local_send_in_loop:
  assumes "local_cbs cid cbs" shows "local_op cid (send_in_loop K cbs d cid)"
proof (rule local_opI)
  fix w w' assume s: "send_in_loop K cbs d cid w = Some w'"
  have wc: "local_op cid (call_cb (wc_cb cbs) cid)" using assms by (simp add: local_cbs_def)
  have t: "touches_only cid w (log_event (Wrote cid x) (tick w))" for x
    by (rule touches_trans [OF touches_tick touches_log]) simp
  moreover have "touches_only cid w (log_event (WroteAll cid) (log_event (Wrote cid x) (tick w)))" for x
    by (rule touches_trans [OF t touches_log]) simp
  ultimately show "touches_only cid w w'"
    using s local_after [OF local_handle_close [OF assms] _ touches_tick] local_after [OF local_buffer_rest _ touches_tick]
      local_after [OF local_buffer_rest _ touches_refl] local_after [OF local_buffer_rest _ t] local_after [OF wc]
    unfolding send_in_loop_def handle_error_def Let_def
    by (auto simp: bind_eq_Some_conv split: if_splits sum.splits)
qed

lemma local_send_buffer: "local_cbs cid cbs \<Longrightarrow> local_op cid (send_buffer K cbs cid b)"
  unfolding send_buffer_def
  by (rule local_opI)
    (auto simp: bind_eq_Some_conv split: if_splits intro: local_opD [OF local_run [OF local_send_in_loop functor_conn.simps(1)]])

lemma local_shutdown_in_loop: "local_op cid (shutdown_in_loop cid :: 'm rpc_world \<Rightarrow> 'm rpc_world option)"
proof (rule local_opI)
  fix w w' :: "'m rpc_world" assume "shutdown_in_loop cid w = Some w'"
  moreover have "touches_only cid w (log_event (ShutdownWr cid) w)" by (rule touches_log) simp
  ultimately show "touches_only cid w w'" by (auto simp: shutdown_in_loop_def bind_eq_Some_conv split: if_splits)
qed

lemma local_force_close: "local_op cid (force_close cid)"
  unfolding force_close_def by (intro local_rules touches_queue touches_refl) simp

lemma local_handle_read: "local_cbs cid cbs \<Longrightarrow> local_op cid (handle_read K cbs cid)"
proof (rule local_opI)
  fix w w' assume cbs: "local_cbs cid cbs" and r: "handle_read K cbs cid w = Some w'"
  have t: "touches_only cid w (put_conn cid c (tick w))" for c by (rule touches_trans [OF touches_tick touches_put])
  have m: "local_op cid (call_cb (message_cb cbs) cid)" using cbs by (simp add: local_cbs_def)
  obtain c where c: "conns w cid = Some c" using r by (cases "conns w cid") (simp_all add: handle_read_def)
  obtain res b where "read_fd (sys_readv K (ticks w) (tc_sockfd c)) (tc_input c) = (res, b)" by (rule prod.exhaust)
  with c show "touches_only cid w w'"
    using r local_after [OF local_handle_close [OF cbs] _ t] local_after [OF m _ t]
    by (cases res) (auto simp: handle_read_def handle_error_def Let_def split: if_splits)
qed

lemma local_handle_write: "local_cbs cid cbs \<Longrightarrow> local_op cid (handle_write K cbs cid)"
proof (rule local_opI)
  fix w w' assume cbs: "local_cbs cid cbs" and r: "handle_write K cbs cid w = Some w'"
  have wc: "local_op cid (call_cb (wc_cb cbs) cid)" using cbs by (simp add: local_cbs_def)
  have t: "touches_only cid w (log_event (Wrote cid x) (put_conn cid c (tick w)))" for x c
    by (rule touches_trans [OF touches_trans [OF touches_tick touches_put] touches_log]) simp
  have d: "local_op cid (\<lambda>w. conn_interest DisableWriting cid w \<bind> (\<lambda>w2. call_cb (wc_cb cbs) cid (log_event (WroteAll cid) w2) \<bind>
      (\<lambda>w3. conns w3 cid \<bind> (\<lambda>c3. if tc_state c3 = kDisconnecting then shutdown_in_loop cid w3 else Some w3))))"
  proof -
    have "local_op cid (\<lambda>w. call_cb (wc_cb cbs) cid (log_event (WroteAll cid) w))"
      by (rule local_opI) (erule local_after [OF wc], rule touches_log, simp)
    then show ?thesis by (intro local_rules local_shutdown_in_loop touches_refl)
  qed
  obtain c where c: "conns w cid = Some c" using r by (cases "conns w cid") (simp_all add: handle_write_def)
  let ?out = "take (readable (tc_output c)) (peek (tc_output c))"
  show "touches_only cid w w'"
  proof (cases "is_writing (tc_channel c) \<and> (\<exists>n. sys_write K (ticks w) (tc_sockfd c) ?out = Inr n \<and> n \<noteq> 0)")
    case False
    then have "w' = w \<or> w' = tick w" using r c by (auto simp: handle_write_def Let_def split: if_splits sum.splits)
    then show ?thesis using touches_tick by auto
  next
    case True
    then obtain n where n: "is_writing (tc_channel c)" "sys_write K (ticks w) (tc_sockfd c) ?out = Inr n" "n \<noteq> 0" by blast
    then obtain b where b: "retrieve n (tc_output c) = Some b" using r c by (cases "retrieve n (tc_output c)") (simp_all add: handle_write_def)
    show ?thesis using r c n b local_after [OF d _ t] t by (auto simp: handle_write_def Let_def split: if_splits)
  qed
qed

lemma local_put: "local_op cid f \<Longrightarrow> local_op cid (\<lambda>w. f (put_conn cid c w))"
  by (rule local_opI) (erule (1) local_after, rule touches_put)

lemma local_destroyed: "local_cbs cid cbs \<Longrightarrow> local_op cid (connection_destroyed cbs cid)"
  unfolding connection_destroyed_def by (intro local_rules local_notify touches_refl)

lemma local_established: "local_cbs cid cbs \<Longrightarrow> local_op cid (connection_established cbs cid)"
  unfolding connection_established_def by (intro local_rules local_notify local_put)

section \<open>The server\<close>

text \<open>The callbacks of the server: printing, the codec, and the removal from the table.\<close>

lemma local_remove_in_loop: "local_cbs cid u \<Longrightarrow> local_op cid (remove_in_loop u cid)"
proof (rule local_opI)
  fix w w' assume u: "local_cbs cid u" and r: "remove_in_loop u cid w = Some w'"
  show "touches_only cid w w'"
    by (rule local_after [OF local_destroyed [OF u]]) (use r in \<open>auto simp: remove_in_loop_def touches_only_def upd_srv_def\<close>)
qed

lemma local_server_cbs:
  assumes "local_cbs cid u" shows "local_cbs cid (server_cbs u)"
proof -
  have "local_op cid (run_in_loop (remove_in_loop u cid) (DestroyConnection cid))"
    by (intro local_run local_remove_in_loop assms) simp
  moreover have "call_cb (Some (remove_connection u)) cid = run_in_loop (remove_in_loop u cid) (DestroyConnection cid)"
    by (simp add: fun_eq_iff call_cb_def remove_connection_def)
  ultimately show ?thesis using assms by (simp add: local_cbs_def server_cbs_alt)
qed

lemma local_reply_cbs: "local_cbs cid reply_cbs"
  by (simp add: local_cbs_def reply_cbs_def no_conn_cbs_def print_only_def call_cb_def local_op_def)

lemma local_codec_send [local_rules]: "local_op cid (codec_send E cid resp)"
  unfolding codec_send_def send_def send_raw_def
  by (intro local_rules local_send_buffer local_server_cbs local_reply_cbs touches_refl)

lemma local_on_frame: "local_op cid (\<lambda>w :: 'm rpc_world. on_frame E cid w frame)"
proof (rule local_opI)
  fix w w' :: "'m rpc_world" assume f: "on_frame E cid w frame = Some w'"
  have "touches_only cid w (w\<lparr>worker_pool := (worker_pool w)\<lparr>tp_tasks := tp_tasks (worker_pool w) @ [t]\<rparr>\<rparr>)" if "tk_conn t = cid" for t
    using that by (simp add: touches_only_def)
  then show "touches_only cid w w'"
    using f local_opD [OF local_codec_send] by (auto simp: on_frame_def submit_def split: option.splits sum.splits if_splits)
qed

lemma local_on_message:
  assumes "\<And>f. local_op cid (\<lambda>w. msg_cb c w f)" "err_cb c = None" "local_op cid (conn_force_close c)"
    and "on_message e c b w = Some (b', w')"
  shows "touches_only cid w w'"
  using assms
proof (induction e c b w rule: on_message.induct)
  case (1 e c b w)
  let ?len = "unat (ntohl e (load_u32 e (take 4 (drop 4 (peek b)))))"
  have fail: "touches_only cid w w'" if "codec_fail c r w = Some w'" for r
    using that 1(3,4) by (simp add: codec_fail_def local_op_def)
  consider "w' = w" | r where "codec_fail c r w = Some w'"
    | b1 f b2 w1 where "\<not> readable b < kHeaderSize" "ntohl e (load_u32 e (take 4 (peek b))) = kMagicNumber" "\<not> kMaxBodySize < ?len"
      "\<not> readable b < kHeaderSize + ?len" "retrieve kHeaderSize b = Some b1" "retrieve_as_string ?len b1 = Some (f, b2)"
      "msg_cb c w f = Some w1" "on_message e c b2 w1 = Some (b', w')"
    using 1(5) by (subst (asm) on_message.simps) (auto simp: Let_def bind_eq_Some_conv split: if_splits option.splits)
  then show ?case
  proof cases
    case 3
    have "touches_only cid w1 w'" by (rule 1(1) [OF 3(1) refl _ refl 3(3-6) refl 3(7) 1(2-4) 3(8)]) (use 3(2) in simp)
    then show ?thesis using touches_trans local_opD [OF 1(2) 3(7)] by blast
  qed (use fail in auto)
qed

lemma local_rpc_on_message: "local_op cid (rpc_on_message E cid :: 'm rpc_world \<Rightarrow> 'm rpc_world option)"
proof (rule local_opI)
  fix w w' :: "'m rpc_world" assume "rpc_on_message E cid w = Some w'"
  then obtain c :: tcp_connection and b w1 c1 where m: "on_message (env_endian E) (rpc_codec E cid) (tc_input c) w = Some (b, w1)"
    and w': "w' = put_conn cid (c1\<lparr>tc_input := b\<rparr>) w1"
    by (auto simp: rpc_on_message_def bind_eq_Some_conv)
  have "touches_only cid w w1"
    by (rule local_on_message [OF _ _ _ m]) (simp_all add: rpc_codec_def local_on_frame local_force_close)
  then show "touches_only cid w w'" unfolding w' by (rule touches_trans [OF _ touches_put])
qed

lemma local_rpc_cbs: "local_cbs cid (rpc_cbs E :: 'm rpc_world conn_cbs)"
proof -
  have "call_cb (Some (rpc_on_message E)) cid = (rpc_on_message E cid :: 'm rpc_world \<Rightarrow> 'm rpc_world option)"
    by (simp add: fun_eq_iff call_cb_def)
  moreover have "local_cbs cid (reply_cbs :: 'm rpc_world conn_cbs)" by (rule local_reply_cbs)
  ultimately show ?thesis by (simp add: local_cbs_def rpc_cbs_def local_rpc_on_message)
qed

lemma conn_channel_sel:
  "read_cb (conn_channel_cbs K cbs cid) = Some (handle_read K cbs cid)" "write_cb (conn_channel_cbs K cbs cid) = Some (handle_write K cbs cid)"
  "error_cb (conn_channel_cbs K cbs cid) = Some (handle_close cbs cid)" "close_cb (conn_channel_cbs K cbs cid) = Some (handle_close cbs cid)"
  by (simp_all add: conn_channel_cbs_def no_channel_cbs_def fun_eq_iff handle_error_def)

lemma local_event: "local_op cid (conn_handle_event K (server_cbs (rpc_cbs E)) cid revts :: 'm rpc_world \<Rightarrow> 'm rpc_world option)"
proof -
  let ?cbs = "server_cbs (rpc_cbs E :: 'm rpc_world conn_cbs)"
  note cbs = local_server_cbs [OF local_rpc_cbs, of cid E]
  have cb: "local_op cid (run_cb (Some f))" if "local_op cid f" for f :: "'m rpc_world \<Rightarrow> 'm rpc_world option"
    using that by (simp add: local_op_def run_cb_def)
  have g: "local_op cid (handle_event_with_guard r (conn_channel_cbs K ?cbs cid))" for r
    unfolding handle_event_with_guard_def conn_channel_sel
    by (intro local_rules cb local_handle_close local_handle_read local_handle_write cbs touches_refl)
  show ?thesis unfolding conn_handle_event_def handle_event_def if_True by (intro local_rules g)
qed

lemma local_closure: "local_op (functor_conn f) (\<lambda>w. server_exec K (rpc_cbs E) (run_rpc_functor E) w f)"
proof (cases f)
  case (UserFunctor x)
  then show ?thesis by (cases x) (simp add: local_codec_send)
qed (simp_all add: local_send_in_loop local_shutdown_in_loop local_handle_close local_established local_remove_in_loop
    local_server_cbs local_rpc_cbs)

text \<open>Accepting touches the connection whose id it gives out.\<close>

lemma local_accept:
  assumes "handle_accept A (rpc_cbs E) w = Some w'"
  shows "touches_only (ts_next_conn_id (tcp_srv w)) w w'"
proof (cases "A (ticks w) (ts_listen_fd (tcp_srv w))")
  case None
  then show ?thesis using assms touches_tick by (auto simp: handle_accept_def)
next
  case (Some r)
  obtain fd addr port where r: "r = (fd, addr, port)" by (metis prod_cases3)
  let ?i = "ts_next_conn_id (tcp_srv w)" and ?peer = "peer_text addr port"
  let ?v = "upd_srv (\<lambda>s. s\<lparr>ts_connections := insert ?i (ts_connections s)\<rparr>)
    (put_conn ?i (tcp_connection_new fd ?i ?peer) (upd_srv (\<lambda>s. s\<lparr>ts_next_conn_id := ?i + 1\<rparr>) (tick w)))"
  have l: "local_op ?i (run_in_loop (connection_established (server_cbs (rpc_cbs E)) ?i) (ConnectionEstablished ?i))"
    by (intro local_run local_established local_server_cbs local_rpc_cbs) simp
  have "run_in_loop (connection_established (server_cbs (rpc_cbs E)) ?i) (ConnectionEstablished ?i) ?v = Some w'"
    using assms Some r by (simp add: handle_accept_def new_connection_def Let_def tick_def)
  moreover have "touches_only ?i w ?v" by (simp add: touches_only_def upd_srv_def put_conn_def tick_def)
  ultimately show ?thesis by (rule local_after [OF l])
qed

section \<open>Runs of the server\<close>

text \<open>What the threads of the server do: events of connections, closures the loop has taken, steps of the workers.\<close>

datatype server_act = ConnEvent u64 u32 | RunClosure "rpc_functor net_functor" | WorkerAct work_action

fun server_act_exec :: "rpc_env \<Rightarrow> 'm rpc_world \<Rightarrow> server_act \<Rightarrow> 'm rpc_world option" where
  "server_act_exec E w (ConnEvent cid revts) = conn_handle_event (env_kernel E) (server_cbs (rpc_cbs E)) cid revts w"
| "server_act_exec E w (RunClosure f) = server_exec (env_kernel E) (rpc_cbs E) (run_rpc_functor E) w f"
| "server_act_exec E w (WorkerAct a) = work_act E w a"

fun act_conn :: "server_act \<Rightarrow> u64 option" where
  "act_conn (ConnEvent cid revts) = Some cid"
| "act_conn (RunClosure f) = Some (functor_conn f)"
| "act_conn (WorkerAct a) = None"

lemma act_local: "act_conn a = Some i \<Longrightarrow> server_act_exec E w a = Some w' \<Longrightarrow> touches_only i w w'"
  using local_opD [OF local_event] local_opD [OF local_closure] by (cases a) auto

text \<open>Workers touch no connection: they move a task and queue a closure.\<close>

lemma worker_act_conns:
  assumes "work_act E w a = Some w'" shows "conns w' = conns w" "net_log w' = net_log w" "tcp_srv w' = tcp_srv w"
proof -
  have "conns w' = conns w \<and> net_log w' = net_log w \<and> tcp_srv w' = tcp_srv w"
  proof (cases a)
    case (Take tid)
    then have "worker_take tid w = Some w'" using assms by (simp split: if_splits)
    then show ?thesis by (rule worker_take_cases) simp
  next
    case (Reply tid)
    then have "tid \<noteq> thread_id (the_loop w)" "worker_reply E tid w = Some w'" using assms by (simp_all split: if_splits)
    then show ?thesis by (rule worker_reply_cases) simp
  qed
  then show "conns w' = conns w" "net_log w' = net_log w" "tcp_srv w' = tcp_srv w" by simp_all
qed

lemma acts_elsewhere:
  assumes "fold_cb (server_act_exec E) acts w = Some w'" "list_all (\<lambda>a. act_conn a \<noteq> Some cid) acts"
  shows "conns w' cid = conns w cid \<and> out_stream cid w' = out_stream cid w \<and>
    (cid \<in> ts_connections (tcp_srv w') \<longleftrightarrow> cid \<in> ts_connections (tcp_srv w))"
  using assms
proof (induction acts arbitrary: w)
  case (Cons a acts)
  obtain w1 where w1: "server_act_exec E w a = Some w1" "fold_cb (server_act_exec E) acts w1 = Some w'"
    using Cons.prems(1) by (auto simp: bind_eq_Some_conv)
  have "conns w1 cid = conns w cid \<and> out_stream cid w1 = out_stream cid w \<and>
      (cid \<in> ts_connections (tcp_srv w1) \<longleftrightarrow> cid \<in> ts_connections (tcp_srv w))"
  proof (cases "act_conn a")
    case None
    then obtain b where "a = WorkerAct b" by (cases a) auto
    then show ?thesis using worker_act_conns [of E w b w1] w1(1) by (simp add: out_defs)
  next
    case (Some i)
    then have "i \<noteq> cid" using Cons.prems(2) by auto
    then show ?thesis using act_local [OF Some w1(1)] by (simp add: touches_only_def out_defs)
  qed
  then show ?case using Cons.IH [OF w1(2)] Cons.prems(2) by simp
qed simp

section \<open>Properties\<close>

text \<open>
  C8. Connections do not interfere: in a run of events, closures and worker steps none of which is an
  event of connection \<open>cid\<close> or a closure for it, whatever the peers of the other connections send
  and however they end, the connection \<open>cid\<close> keeps its state, channel and buffers, its output stream and its
  place in the table. And an event or a closure of a connection changes that connection only, and what it
  queues into the loop and the worker pool is again for that connection; accepting touches only the
  connection whose id it gives out.
\<close>

theorem connections_isolated:
  assumes "fold_cb (server_act_exec E) acts (w :: 'm rpc_world) = Some w'" "list_all (\<lambda>a. act_conn a \<noteq> Some cid) acts"
  shows "conns w' cid = conns w cid \<and> out_stream cid w' = out_stream cid w \<and>
    (cid \<in> ts_connections (tcp_srv w') \<longleftrightarrow> cid \<in> ts_connections (tcp_srv w)) \<and>
    (\<forall>a i u u'. act_conn a = Some i \<and> server_act_exec E (u :: 'm rpc_world) a = Some u' \<longrightarrow> touches_only i u u') \<and>
    (\<forall>u u'. handle_accept (env_accept E) (rpc_cbs E) (u :: 'm rpc_world) = Some u' \<longrightarrow> touches_only (ts_next_conn_id (tcp_srv u)) u u')"
  using acts_elsewhere [OF assms] act_local local_accept by blast

text \<open>A server with two connections; one of them is answered.\<close>

definition two_conns :: "string rpc_world" where
  "two_conns = (demo_rpc [])\<lparr>conns := (conns (demo_rpc []))(2 \<mapsto> (tcp_connection_new 10 2 ''peer'')\<lparr>tc_state := kConnected\<rparr>)\<rparr>"

lemma two_conns_open: "open_conn 2 two_conns" "out_stream 1 two_conns = []"
  by (auto simp: two_conns_def open_conn_def out_inv_def demo_rpc_def is_in_loop_thread_def event_loop_new_def tcp_connection_new_def
      buffer_new_inv queue_simps out_defs split: prod.split)

theorem connections_isolated_witness:
  "\<exists>w'. fold_cb (server_act_exec demo_env) [RunClosure (UserFunctor (SendResponse 2 demo_response))] two_conns = Some w' \<and>
     out_stream 2 w' = out_stream 2 two_conns @ reply_bytes demo_env demo_response \<and>
     conns w' 1 = conns two_conns 1 \<and> out_stream 1 w' = []"
proof -
  have "write_ok (env_kernel demo_env)" "write_no_error (env_kernel demo_env)" using calm_kernel_ok by (simp_all add: demo_env_def)
  from codec_send_out [OF this two_conns_open(1), of demo_response] obtain w' where
    w': "codec_send demo_env 2 demo_response two_conns = Some w'" "out_stream 2 w' = out_stream 2 two_conns @ reply_bytes demo_env demo_response"
    by blast
  then have f: "fold_cb (server_act_exec demo_env) [RunClosure (UserFunctor (SendResponse 2 demo_response))] two_conns = Some w'" by simp
  have "list_all (\<lambda>a. act_conn a \<noteq> Some 1) [RunClosure (UserFunctor (SendResponse 2 demo_response))]" by simp
  from connections_isolated [OF f this] f w'(2) two_conns_open(2) show ?thesis by metis
qed

end
