(* ===== verification/Load_Balancer.thy ===== *)
theory Load_Balancer
  imports Prelude
begin

text \<open>
  \<^verbatim>\<open>registry/load_balancer.h\<close> and \<^verbatim>\<open>registry/load_balancer.cpp\<close>: the four strategies behind the
  \<^verbatim>\<open>LoadBalancer\<close> interface and their factory. \<^verbatim>\<open>std::uniform_int_distribution\<close> is a parameter
  that returns a number of the closed interval it is given. What C++ leaves undefined (an
  empty distribution interval, the overflow of an \<^verbatim>\<open>int\<close>, the dereferenced end of an empty
  map) is an error value of its own, next to the exception the code throws.
\<close>

unbundle bit_operations_syntax

section \<open>Endpoints\<close>

record service_endpoint =
  ep_host :: string
  ep_port :: u16
  ep_weight :: int

definition ep_to_string :: "service_endpoint \<Rightarrow> string" where
  "ep_to_string ep = ep_host ep @ '':'' @ decimal (unat (ep_port ep))"

datatype lb_error = NoEndpoints | EmptyInterval | IntOverflow | EndDereferenced

type_synonym 'lb selection = "lb_error + service_endpoint \<times> 'lb"

type_synonym int_dist = "int \<Rightarrow> int \<Rightarrow> int"

definition dist_ok :: "int_dist \<Rightarrow> bool" where
  "dist_ok dist \<longleftrightarrow> (\<forall>a b. a \<le> b \<longrightarrow> a \<le> dist a b \<and> dist a b \<le> b)"

section \<open>Random\<close>

definition random_select :: "int_dist \<Rightarrow> unit \<Rightarrow> service_endpoint list \<Rightarrow> unit selection" where
  "random_select dist st endpoints =
     (if endpoints = [] then Inl NoEndpoints
      else Inr (endpoints ! nat (dist 0 (int (length endpoints) - 1)), st))"

section \<open>Round-robin\<close>

definition rr_select :: "u64 \<Rightarrow> service_endpoint list \<Rightarrow> u64 selection" where
  "rr_select counter endpoints =
     (if endpoints = [] then Inl NoEndpoints
      else Inr (endpoints ! (unat counter mod length endpoints), counter + 1))"

section \<open>Weighted random\<close>

definition int_range :: "int \<Rightarrow> bool" where
  "int_range x \<longleftrightarrow> - (2 ^ 31) \<le> x \<and> x < 2 ^ 31"

text \<open>The summation loop in \<^verbatim>\<open>int\<close> arithmetic; \<^const>\<open>None\<close> is an overflow.\<close>

fun weight_total :: "int \<Rightarrow> service_endpoint list \<Rightarrow> int option" where
  "weight_total acc [] = Some acc"
| "weight_total acc (ep # eps) =
     (if int_range (acc + ep_weight ep) then weight_total (acc + ep_weight ep) eps else None)"

text \<open>The subtracting loop; \<open>last\<close> is what the function returns after it.\<close>

fun weighted_pick :: "int \<Rightarrow> service_endpoint list \<Rightarrow> service_endpoint \<Rightarrow> lb_error + service_endpoint" where
  "weighted_pick r [] back = Inr back"
| "weighted_pick r (ep # eps) back =
     (if \<not> int_range (r - ep_weight ep) then Inl IntOverflow
      else if r - ep_weight ep < 0 then Inr ep
      else weighted_pick (r - ep_weight ep) eps back)"

definition weighted_select :: "int_dist \<Rightarrow> unit \<Rightarrow> service_endpoint list \<Rightarrow> unit selection" where
  "weighted_select dist st endpoints =
     (if endpoints = [] then Inl NoEndpoints
      else case weight_total 0 endpoints of
        None \<Rightarrow> Inl IntOverflow
      | Some tot \<Rightarrow>
          if \<not> int_range (tot - 1) then Inl IntOverflow
          else if tot - 1 < 0 then Inl EmptyInterval
          else map_sum id (\<lambda>ep. (ep, st)) (weighted_pick (dist 0 (tot - 1)) endpoints (last endpoints)))"

section \<open>Consistent hash\<close>

text \<open>FNV-1a, 32 bits.\<close>

definition fnv1a :: "string \<Rightarrow> u32" where
  "fnv1a s = foldl (\<lambda>h c. (h XOR of_char c) * 16777619) 2166136261 s"

text \<open>\<^verbatim>\<open>std::map\<close> as a list sorted by key; \<open>ring_put\<close> is \<^verbatim>\<open>ring[h] = &ep\<close>.\<close>

type_synonym ring = "(u32 \<times> service_endpoint) list"

fun ring_put :: "u32 \<Rightarrow> service_endpoint \<Rightarrow> ring \<Rightarrow> ring" where
  "ring_put k v [] = [(k, v)]"
| "ring_put k v ((k', v') # r) =
     (if k < k' then (k, v) # (k', v') # r
      else if k = k' then (k, v) # r
      else (k', v') # ring_put k v r)"

definition vnode_hash :: "service_endpoint \<Rightarrow> nat \<Rightarrow> u32" where
  "vnode_hash ep i = fnv1a (ep_to_string ep @ ''#'' @ decimal i)"

definition build_ring :: "int \<Rightarrow> service_endpoint list \<Rightarrow> ring" where
  "build_ring virtual_nodes endpoints =
     fold (\<lambda>ep ring. fold (\<lambda>i ring. ring_put (vnode_hash ep i) ep ring) [0..<nat virtual_nodes] ring) endpoints []"

text \<open>\<^verbatim>\<open>lower_bound\<close>, or \<^verbatim>\<open>begin()\<close> when it is the end; \<^const>\<open>None\<close> on an empty map.\<close>

definition ring_at :: "u32 \<Rightarrow> ring \<Rightarrow> service_endpoint option" where
  "ring_at h ring =
     (case dropWhile (\<lambda>(k, v). k < h) ring of
        (k, v) # r \<Rightarrow> Some v
      | [] \<Rightarrow> (case ring of [] \<Rightarrow> None | (k, v) # r \<Rightarrow> Some v))"

definition key_hash :: "string \<Rightarrow> u32" where
  "key_hash key = fnv1a (if key = [] then ''default'' else key)"

record consistent_hash =
  ch_virtual_nodes :: int
  ch_key :: string

definition consistent_hash_new :: "int \<Rightarrow> consistent_hash" where
  "consistent_hash_new virtual_nodes = \<lparr>ch_virtual_nodes = virtual_nodes, ch_key = []\<rparr>"

definition set_hash_key :: "string \<Rightarrow> consistent_hash \<Rightarrow> consistent_hash" where
  "set_hash_key key lb = lb\<lparr>ch_key := key\<rparr>"

definition ch_select :: "consistent_hash \<Rightarrow> service_endpoint list \<Rightarrow> consistent_hash selection" where
  "ch_select lb endpoints =
     (if endpoints = [] then Inl NoEndpoints
      else case ring_at (key_hash (ch_key lb)) (build_ring (ch_virtual_nodes lb) endpoints) of
        None \<Rightarrow> Inl EndDereferenced
      | Some ep \<Rightarrow> Inr (ep, lb))"

section \<open>The interface and the factory\<close>

datatype lb_strategy = Random | RoundRobin | Weighted | ConsistentHash

datatype load_balancer = RandomLB | RoundRobinLB u64 | WeightedLB | ConsistentHashLB consistent_hash

definition make_load_balancer :: "lb_strategy \<Rightarrow> load_balancer" where
  "make_load_balancer strategy =
     (case strategy of
        Random \<Rightarrow> RandomLB
      | RoundRobin \<Rightarrow> RoundRobinLB 0
      | Weighted \<Rightarrow> WeightedLB
      | ConsistentHash \<Rightarrow> ConsistentHashLB (consistent_hash_new 150))"

text \<open>The virtual call \<^verbatim>\<open>lb_->select(endpoints)\<close>.\<close>

fun lb_select :: "int_dist \<Rightarrow> load_balancer \<Rightarrow> service_endpoint list \<Rightarrow> load_balancer selection" where
  "lb_select dist RandomLB eps = map_sum id (\<lambda>(ep, st). (ep, RandomLB)) (random_select dist () eps)"
| "lb_select dist (RoundRobinLB c) eps = map_sum id (\<lambda>(ep, c). (ep, RoundRobinLB c)) (rr_select c eps)"
| "lb_select dist WeightedLB eps = map_sum id (\<lambda>(ep, st). (ep, WeightedLB)) (weighted_select dist () eps)"
| "lb_select dist (ConsistentHashLB ch) eps = map_sum id (\<lambda>(ep, ch). (ep, ConsistentHashLB ch)) (ch_select ch eps)"

section \<open>The contract of a balancer\<close>

text \<open>A series of selections from the same list, with the endpoints chosen.\<close>

fun selections :: "('lb \<Rightarrow> service_endpoint list \<Rightarrow> 'lb selection) \<Rightarrow> nat \<Rightarrow> service_endpoint list \<Rightarrow> 'lb \<Rightarrow>
    lb_error + service_endpoint list \<times> 'lb" where
  "selections select 0 eps lb = Inr ([], lb)"
| "selections select (Suc n) eps lb =
     (case select lb eps of Inl e \<Rightarrow> Inl e
      | Inr (ep, lb1) \<Rightarrow> map_sum id (\<lambda>(chosen, lb2). (ep # chosen, lb2)) (selections select n eps lb1))"

text \<open>
  What users of \<^verbatim>\<open>LoadBalancer::select\<close> rely on: the documented exception for an empty list, and
  otherwise one of the given endpoints, as long as the list is usable for the strategy.
\<close>

locale balancer =
  fixes select :: "'lb \<Rightarrow> service_endpoint list \<Rightarrow> 'lb selection"
    and usable :: "'lb \<Rightarrow> service_endpoint list \<Rightarrow> bool"
  assumes select_empty: "select lb [] = Inl NoEndpoints"
    and select_member: "usable lb eps \<Longrightarrow> eps \<noteq> [] \<Longrightarrow>
      \<exists>ep lb'. select lb eps = Inr (ep, lb') \<and> ep \<in> set eps \<and> (\<forall>eps'. usable lb' eps' = usable lb eps')"
begin

lemma select_fails_iff: "usable lb eps \<Longrightarrow> (\<exists>e. select lb eps = Inl e) \<longleftrightarrow> eps = []"
  using select_empty select_member by fastforce

lemma select_in: "usable lb eps \<Longrightarrow> select lb eps = Inr (ep, lb') \<Longrightarrow> ep \<in> set eps"
  using select_empty [of lb] select_member [of lb eps] by (cases "eps = []") auto

lemma selections_members:
  "usable lb eps \<Longrightarrow> eps \<noteq> [] \<Longrightarrow>
   \<exists>chosen lb'. selections select n eps lb = Inr (chosen, lb') \<and> length chosen = n \<and> set chosen \<subseteq> set eps"
proof (induction n arbitrary: lb)
  case (Suc n)
  obtain ep lb1 where 1: "select lb eps = Inr (ep, lb1)" "ep \<in> set eps" "usable lb1 eps"
    using select_member [OF Suc.prems] Suc.prems(1) by blast
  from Suc.IH [OF 1(3) Suc.prems(2)] show ?case using 1 by auto
qed simp

end

text \<open>A distribution cut to its interval; the identity on one that keeps to it.\<close>

definition clamp_dist :: "int_dist \<Rightarrow> int_dist" where
  "clamp_dist dist a b = max a (min b (dist a b))"

lemma clamp_dist_ok: "dist_ok (clamp_dist dist)"
  by (auto simp: dist_ok_def clamp_dist_def)

definition weights_ok :: "service_endpoint list \<Rightarrow> bool" where
  "weights_ok eps \<longleftrightarrow> list_all (\<lambda>ep. 0 \<le> ep_weight ep) eps \<and>
     0 < sum_list (map ep_weight eps) \<and> sum_list (map ep_weight eps) < 2 ^ 31"

definition lb_usable :: "load_balancer \<Rightarrow> service_endpoint list \<Rightarrow> bool" where
  "lb_usable lb eps \<longleftrightarrow>
     (case lb of WeightedLB \<Rightarrow> weights_ok eps | ConsistentHashLB ch \<Rightarrow> 0 < ch_virtual_nodes ch | _ \<Rightarrow> True)"

section \<open>Lemmas\<close>

lemma random_in:
  assumes "dist_ok dist" "eps \<noteq> []"
  shows "nat (dist 0 (int (length eps) - 1)) < length eps"
proof -
  have "0 \<le> int (length eps) - 1" using assms(2) by (cases eps) auto
  then show ?thesis using assms(1) unfolding dist_ok_def by (metis nat_less_iff zless_iff_Suc_zadd zle_diff1_eq)
qed

lemma weight_total_sum:
  "list_all (\<lambda>ep. 0 \<le> ep_weight ep) eps \<Longrightarrow> 0 \<le> acc \<Longrightarrow> acc + sum_list (map ep_weight eps) < 2 ^ 31 \<Longrightarrow>
   weight_total acc eps = Some (acc + sum_list (map ep_weight eps))"
proof (induction eps arbitrary: acc)
  case (Cons ep eps)
  have "0 \<le> sum_list (map ep_weight eps)" using Cons.prems(1) by (intro sum_list_nonneg) (auto simp: list_all_iff)
  then show ?case using Cons by (simp add: int_range_def algebra_simps)
qed simp

lemma weighted_pick_in:
  "list_all (\<lambda>ep. 0 \<le> ep_weight ep) eps \<Longrightarrow> 0 \<le> r \<Longrightarrow> r < sum_list (map ep_weight eps) \<Longrightarrow> r < 2 ^ 31 \<Longrightarrow>
   sum_list (map ep_weight eps) < 2 ^ 31 \<Longrightarrow>
   \<exists>ep \<in> set eps. weighted_pick r eps back = Inr ep \<and> 0 < ep_weight ep"
proof (induction eps arbitrary: r)
  case (Cons ep eps)
  have "0 \<le> sum_list (map ep_weight eps)" using Cons.prems(1) by (intro sum_list_nonneg) (auto simp: list_all_iff)
  then show ?case using Cons by (auto simp: int_range_def)
qed simp

lemma weighted_select_pick:
  assumes "weights_ok eps"
  shows "weighted_select dist () eps = map_sum id (\<lambda>ep. (ep, ()))
    (weighted_pick (dist 0 (sum_list (map ep_weight eps) - 1)) eps (last eps))"
  using assms weight_total_sum [of eps 0] by (auto simp: weights_ok_def weighted_select_def int_range_def)

lemma weighted_member:
  assumes "dist_ok dist" "weights_ok eps"
  shows "\<exists>ep. weighted_select dist () eps = Inr (ep, ()) \<and> ep \<in> set eps"
proof -
  let ?t = "sum_list (map ep_weight eps)"
  have "0 \<le> ?t - 1" using assms(2) by (simp add: weights_ok_def)
  then have "0 \<le> dist 0 (?t - 1)" "dist 0 (?t - 1) \<le> ?t - 1" using assms(1) unfolding dist_ok_def by blast+
  then have "\<exists>ep \<in> set eps. weighted_pick (dist 0 (?t - 1)) eps (last eps) = Inr ep \<and> 0 < ep_weight ep"
    using assms(2) by (intro weighted_pick_in) (auto simp: weights_ok_def)
  then show ?thesis using weighted_select_pick [OF assms(2)] by auto
qed

text \<open>The ring.\<close>

lemma map_of_rev_distinct: "distinct (map fst xs) \<Longrightarrow> map_of (rev xs) = map_of xs"
  by (rule map_of_eqI) (auto simp: map_of_eq_Some_iff rev_map [symmetric])

abbreviation ring_ok :: "ring \<Rightarrow> bool" where
  "ring_ok r \<equiv> sorted_wrt (<) (map fst r)"

lemma ring_put_keys: "set (map fst (ring_put k v r)) = insert k (set (map fst r))"
  by (induction k v r rule: ring_put.induct) auto

lemma ring_put_ok: "ring_ok r \<Longrightarrow> ring_ok (ring_put k v r)"
proof (induction k v r rule: ring_put.induct)
  case (2 k v k' v' r)
  then show ?case using ring_put_keys [of k v r] by (auto simp: less_trans)
qed simp

lemma ring_put_map: "ring_ok r \<Longrightarrow> map_of (ring_put k v r) = (map_of r)(k \<mapsto> v)"
  by (induction k v r rule: ring_put.induct) (auto simp: fun_upd_twist)

definition points :: "int \<Rightarrow> service_endpoint list \<Rightarrow> ring" where
  "points vn eps = concat (map (\<lambda>ep. map (\<lambda>i. (vnode_hash ep i, ep)) [0..<nat vn]) eps)"

lemma build_ring_points: "build_ring vn eps = fold (\<lambda>(k, v). ring_put k v) (points vn eps) []"
proof -
  have "fold (\<lambda>i ring. ring_put (vnode_hash ep i) ep ring) is r = fold (\<lambda>(k, v). ring_put k v) (map (\<lambda>i. (vnode_hash ep i, ep)) is) r"
    for ep r "is" by (induction "is" arbitrary: r) auto
  then have "fold (\<lambda>ep ring. fold (\<lambda>i ring. ring_put (vnode_hash ep i) ep ring) [0..<nat vn] ring) eps r =
      fold (\<lambda>(k, v). ring_put k v) (points vn eps) r" for r
    by (induction eps arbitrary: r) (auto simp: points_def)
  then show ?thesis by (simp add: build_ring_def)
qed

lemma fold_ring_put:
  "ring_ok r \<Longrightarrow> ring_ok (fold (\<lambda>(k, v). ring_put k v) ps r) \<and>
     map_of (fold (\<lambda>(k, v). ring_put k v) ps r) = map_of r ++ map_of (rev ps)"
  by (induction ps arbitrary: r) (auto simp: ring_put_ok ring_put_map map_add_def fun_eq_iff split: option.splits)

lemma build_ring_ok: "ring_ok (build_ring vn eps)" "map_of (build_ring vn eps) = map_of (rev (points vn eps))"
  using fold_ring_put [of "[]" "points vn eps"] by (simp_all add: build_ring_points)

text \<open>The key a hash is served by: the next one clockwise.\<close>

definition ring_succ :: "u32 \<Rightarrow> u32 set \<Rightarrow> u32" where
  "ring_succ h K = (if \<exists>k \<in> K. h \<le> k then Min {k \<in> K. h \<le> k} else Min K)"

lemma ring_at_succ:
  assumes "ring_ok r" "r \<noteq> []"
  shows "ring_at h r = map_of r (ring_succ h (fst ` set r)) \<and> ring_succ h (fst ` set r) \<in> fst ` set r"
proof -
  have d: "distinct (map fst r)" using assms(1) by (simp add: strict_sorted_iff)
  define tw dw where "tw = takeWhile (\<lambda>(k, v). k < h) r" and "dw = dropWhile (\<lambda>(k, v). k < h) r"
  then have td: "takeWhile (\<lambda>(k, v). k < h) r = tw" "dropWhile (\<lambda>(k, v). k < h) r = dw" "r = tw @ dw"
    by (simp_all only: takeWhile_dropWhile_id)
  have tw: "\<forall>x \<in> set tw. fst x < h" using td(1) by (auto dest: set_takeWhileD)
  show ?thesis
  proof (cases dw)
    case Nil
    obtain k v r' where r: "r = (k, v) # r'" using assms(2) by (cases r) auto
    have "\<not> (\<exists>k \<in> fst ` set r. h \<le> k)" using tw td(3) Nil by (auto simp: not_le)
    moreover have "Min (fst ` set r) = k" using assms(1) r by (intro Min_eqI) (auto simp: less_imp_le)
    ultimately show ?thesis using td(2) Nil r by (simp add: ring_at_def ring_succ_def)
  next
    case (Cons kv dw')
    obtain k v where kv: "kv = (k, v)" by fastforce
    have h: "h \<le> k" using td(2) Cons kv by (metis (mono_tags, lifting) case_prod_conv hd_dropWhile list.distinct(1) list.sel(1) not_le)
    have "sorted_wrt (<) (map fst tw @ k # map fst dw')" using assms(1) td(3) Cons kv by simp
    then have "Min {k' \<in> fst ` set r. h \<le> k'} = k"
      using td(3) Cons kv tw h by (intro Min_eqI) (auto simp: sorted_wrt_append less_imp_le dest: leD)
    moreover have "(k, v) \<in> set r" using td(3) Cons kv by simp
    ultimately show ?thesis
      using td(2) Cons kv h d by (force simp: ring_at_def ring_succ_def)
  qed
qed

lemma build_ring_empty: "\<not> 0 < vn \<Longrightarrow> build_ring vn eps = []"
proof -
  assume "\<not> 0 < vn"
  then have "points vn eps = []" by (simp add: points_def concat_eq_Nil_conv)
  then show ?thesis by (simp add: build_ring_points)
qed

lemma build_ring_nonempty: "0 < vn \<Longrightarrow> eps \<noteq> [] \<Longrightarrow> build_ring vn eps \<noteq> []"
proof -
  assume "0 < vn" "eps \<noteq> []"
  then have "points vn eps \<noteq> []" by (cases eps) (auto simp: points_def)
  then have "map_of (build_ring vn eps) \<noteq> Map.empty" using build_ring_ok(2) [of vn eps] by simp
  then show ?thesis by auto
qed

lemma build_ring_range: "map_of (build_ring vn eps) k = Some ep \<Longrightarrow> ep \<in> set eps"
  using build_ring_ok(2) [of vn eps] by (auto simp: points_def dest!: map_of_SomeD)

lemma ch_member:
  assumes "0 < ch_virtual_nodes lb" "eps \<noteq> []"
  shows "\<exists>ep. ch_select lb eps = Inr (ep, lb) \<and> ep \<in> set eps \<and>
    map_of (build_ring (ch_virtual_nodes lb) eps)
      (ring_succ (key_hash (ch_key lb)) (fst ` set (build_ring (ch_virtual_nodes lb) eps))) = Some ep"
proof -
  let ?r = "build_ring (ch_virtual_nodes lb) eps"
  from ring_at_succ [OF build_ring_ok(1) build_ring_nonempty [OF assms]]
  obtain ep where ep: "ring_at (key_hash (ch_key lb)) ?r = Some ep"
    "map_of ?r (ring_succ (key_hash (ch_key lb)) (fst ` set ?r)) = Some ep"
    by (metis domD dom_map_of_conv_image_fst)
  then show ?thesis using build_ring_range assms(2) by (auto simp: ch_select_def)
qed

interpretation random: balancer "random_select (clamp_dist dist)" "\<lambda>lb eps. True" for dist
  by unfold_locales (auto simp: random_select_def intro!: nth_mem random_in clamp_dist_ok)

interpretation round_robin: balancer rr_select "\<lambda>lb eps. True"
  by unfold_locales (auto simp: rr_select_def)

interpretation weighted: balancer "weighted_select (clamp_dist dist)" "\<lambda>lb. weights_ok" for dist
proof unfold_locales
  show "weighted_select (clamp_dist dist) lb [] = Inl NoEndpoints" for lb by (simp add: weighted_select_def)
qed (use weighted_member [OF clamp_dist_ok] in auto)

interpretation chash: balancer ch_select "\<lambda>lb eps. 0 < ch_virtual_nodes lb"
proof unfold_locales
  show "ch_select lb [] = Inl NoEndpoints" for lb by (simp add: ch_select_def)
qed (use ch_member in blast)

text \<open>The virtual call satisfies the contract because each class does.\<close>

interpretation lb: balancer "lb_select (clamp_dist dist)" lb_usable for dist
proof unfold_locales
  show "lb_select (clamp_dist dist) lb [] = Inl NoEndpoints" for lb
    by (cases lb) (simp_all add: random.select_empty round_robin.select_empty weighted.select_empty chash.select_empty)
  show "\<exists>ep lb'. lb_select (clamp_dist dist) lb eps = Inr (ep, lb') \<and> ep \<in> set eps \<and> (\<forall>eps'. lb_usable lb' eps' = lb_usable lb eps')"
    if "lb_usable lb eps" "eps \<noteq> []" for lb eps
  proof (cases lb)
    case RandomLB
    then show ?thesis using random.select_member [OF TrueI that(2), of dist "()"] by (auto simp: lb_usable_def)
  next
    case (RoundRobinLB c)
    then show ?thesis using round_robin.select_member [OF TrueI that(2), of c] by (auto simp: lb_usable_def)
  next
    case WeightedLB
    then show ?thesis using weighted.select_member [of eps dist "()"] that by (auto simp: lb_usable_def)
  next
    case (ConsistentHashLB ch)
    then show ?thesis using chash.select_member [of ch eps] that by (auto simp: lb_usable_def)
  qed
qed

lemma clamp_dist_id:
  assumes "dist_ok dist" shows "lb_select (clamp_dist dist) lb eps = lb_select dist lb eps"
proof -
  have c: "clamp_dist dist a b = dist a b" if "a \<le> b" for a b using assms that by (auto simp: dist_ok_def clamp_dist_def)
  have "random_select (clamp_dist dist) () eps = random_select dist () eps"
    using c [of 0 "int (length eps) - 1"] by (cases eps) (auto simp: random_select_def)
  moreover have "weighted_select (clamp_dist dist) () eps = weighted_select dist () eps"
    using c by (auto simp: weighted_select_def split: option.split)
  ultimately show ?thesis by (cases lb) simp_all
qed

text \<open>Round-robin as an index sequence.\<close>

lemma rr_selections:
  assumes "eps \<noteq> []" "unat c + n \<le> 2 ^ 64"
  shows "selections rr_select n eps c =
    Inr (map (\<lambda>k. eps ! ((unat c + k) mod length eps)) [0..<n], c + of_nat n)"
  using assms(2)
proof (induction n arbitrary: c)
  case (Suc n)
  show ?case
  proof (cases n)
    case 0
    then show ?thesis using assms(1) by (simp add: rr_select_def)
  next
    case (Suc m)
    then have u: "unat (c + 1) = unat c + 1" using Suc.prems by (simp add: unat_word_ariths)
    have "map (\<lambda>k. eps ! ((unat c + k) mod length eps)) [0..<Suc n] =
        eps ! (unat c mod length eps) # map (\<lambda>k. eps ! ((unat (c + 1) + k) mod length eps)) [0..<n]"
      unfolding u by (simp add: map_Suc_upt [symmetric] upt_conv_Cons del: upt_Suc)
    then show ?thesis
      using Suc.IH [of "c + 1"] u Suc.prems assms(1) by (simp add: rr_select_def algebra_simps del: upt_Suc)
  qed
qed simp

text \<open>The draws that lead to one endpoint.\<close>

lemma weighted_draws:
  assumes "list_all (\<lambda>ep. 0 \<le> ep_weight ep) eps" "sum_list (map ep_weight eps) < 2 ^ 31"
  shows "card {r. 0 \<le> r \<and> r < sum_list (map ep_weight eps) \<and> weighted_pick r eps back = Inr ep} =
    sum_list (map (\<lambda>e. nat (ep_weight e)) (filter (\<lambda>e. e = ep) eps))"
  using assms
proof (induction eps)
  case (Cons e eps)
  let ?W = "sum_list (map ep_weight eps)" and ?w = "ep_weight e"
  let ?S = "\<lambda>eps. {r. 0 \<le> r \<and> r < sum_list (map ep_weight eps) \<and> weighted_pick r eps back = Inr ep}"
  have nn: "0 \<le> ?W" "0 \<le> ?w" using Cons.prems(1) by (auto intro!: sum_list_nonneg simp: list_all_iff)
  have "?S (e # eps) = (if e = ep then {0..<?w} else {}) \<union> (\<lambda>r. r + ?w) ` ?S eps"
  proof (intro set_eqI)
    fix r
    have "r \<in> (\<lambda>r. r + ?w) ` ?S eps \<longleftrightarrow> r - ?w \<in> ?S eps"
      by (auto simp: image_iff intro!: exI [of _ "r - ?w"])
    then show "r \<in> ?S (e # eps) \<longleftrightarrow> r \<in> (if e = ep then {0..<?w} else {}) \<union> (\<lambda>r. r + ?w) ` ?S eps"
      using nn Cons.prems(2) by (auto simp: int_range_def)
  qed
  moreover have "(if e = ep then {0..<?w} else {}) \<inter> (\<lambda>r. r + ?w) ` ?S eps = {}" by auto
  moreover have "finite (?S eps)" by (rule finite_subset [of _ "{0..<?W}"]) auto
  ultimately have "card (?S (e # eps)) = card (if e = ep then {0..<?w} else {}) + card (?S eps)"
    by (simp add: card_Un_disjoint card_image inj_on_def)
  then show ?case using Cons nn by simp
next
  case Nil
  have e: "{r. 0 \<le> r \<and> r < sum_list (map ep_weight []) \<and> weighted_pick r [] back = Inr ep} = {}" by auto
  show ?case unfolding e by simp
qed

text \<open>Removing an endpoint removes its points and no other.\<close>

lemma points_filter: "points vn (filter P eps) = filter (\<lambda>(k, v). P v) (points vn eps)"
  by (induction eps) (auto simp: points_def filter_map o_def)

lemma ring_succ_subset:
  assumes "finite K" "K' \<subseteq> K" "ring_succ h K \<in> K'" shows "ring_succ h K' = ring_succ h K"
proof (cases "\<exists>k \<in> K. h \<le> k")
  case True
  let ?m = "Min {k \<in> K. h \<le> k}"
  have m: "?m \<in> {k \<in> K. h \<le> k}" using assms(1) True by (intro Min_in) auto
  have "Min {k \<in> K'. h \<le> k} = ?m"
    using assms True m by (intro Min_eqI) (auto simp: ring_succ_def intro: finite_subset)
  then show ?thesis using assms(3) True m by (auto simp: ring_succ_def)
next
  case False
  then have "Min K' = Min K"
    using assms by (intro Min_eqI) (auto simp: ring_succ_def intro: finite_subset)
  then show ?thesis using False assms(2) by (auto simp: ring_succ_def)
qed

section \<open>Properties\<close>


text \<open>Three endpoints for the witnesses.\<close>

definition ep_a :: service_endpoint where "ep_a = \<lparr>ep_host = ''a'', ep_port = 1, ep_weight = 1\<rparr>"

definition ep_b :: service_endpoint where "ep_b = \<lparr>ep_host = ''b'', ep_port = 2, ep_weight = 3\<rparr>"

definition ep_c :: service_endpoint where "ep_c = \<lparr>ep_host = ''c'', ep_port = 3, ep_weight = 0\<rparr>"

lemmas demo_eps = ep_a_def ep_b_def ep_c_def


text \<open>
  C22. Round-robin is fair: from any counter value that does not wrap meanwhile, as many consecutive
  selections as there are endpoints choose each of them exactly once, in list order from the
  counter's position on.
\<close>

theorem round_robin_fair:
  assumes "eps \<noteq> []" "unat c + length eps \<le> 2 ^ 64"
  shows "selections rr_select (length eps) eps c = Inr (rotate (unat c) eps, c + of_nat (length eps))"
proof -
  have "map (\<lambda>k. eps ! ((unat c + k) mod length eps)) [0..<length eps] = rotate (unat c) eps"
    by (rule nth_equalityI) (simp_all add: nth_rotate)
  then show ?thesis using rr_selections [OF assms] by simp
qed

theorem round_robin_fair_witness:
  "selections rr_select 3 [ep_a, ep_b, ep_c] 7 = Inr ([ep_b, ep_c, ep_a], 10)"
proof -
  have "rotate 7 [ep_a, ep_b, ep_c] = [ep_b, ep_c, ep_a]"
    by (subst rotate_conv_mod) (simp add: rotate_def)
  moreover have "length [ep_a, ep_b, ep_c] = 3" "unat (7 :: u64) = 7" "(7 :: u64) + of_nat 3 = 10" by simp_all
  ultimately have "selections rr_select (Suc (Suc (Suc 0))) [ep_a, ep_b, ep_c] 7 = Inr ([ep_b, ep_c, ep_a], 10)"
    using round_robin_fair [of "[ep_a, ep_b, ep_c]" 7] by (simp del: selections.simps)
  then show ?thesis by (simp only: numeral_3_eq_3)
qed

text \<open>
  C23. Weighted selection is proportional: of the draws the distribution can make, as many choose an
  endpoint as its weight says, for distinct endpoints with usable weights; so an endpoint of
  weight 0 is never chosen.
\<close>

theorem weighted_proportional:
  assumes "weights_ok eps" "distinct eps" "ep \<in> set eps"
  shows "card {r. 0 \<le> r \<and> r \<le> sum_list (map ep_weight eps) - 1 \<and> weighted_select (\<lambda>a b. r) () eps = Inr (ep, ())} =
    nat (ep_weight ep)"
proof -
  have "weighted_select (\<lambda>a b. r) () eps = Inr (ep, ()) \<longleftrightarrow> weighted_pick r eps (last eps) = Inr ep" for r
    using weighted_select_pick [OF assms(1), of "\<lambda>a b. r"] by (cases "weighted_pick r eps (last eps)") auto
  moreover have "filter (\<lambda>e. e = ep) eps = [ep]"
    using assms(2,3) by (induction eps) (auto simp: filter_empty_conv)
  ultimately show ?thesis
    using weighted_draws [of eps "last eps" ep] assms(1) by (simp add: weights_ok_def zle_diff1_eq)
qed

theorem weighted_proportional_witness:
  "card {r. 0 \<le> r \<and> r \<le> 3 \<and> weighted_select (\<lambda>a b. r) () [ep_a, ep_b, ep_c] = Inr (ep_b, ())} = 3"
  using weighted_proportional [of "[ep_a, ep_b, ep_c]" ep_b] by (simp add: weights_ok_def demo_eps)

text \<open>
  C21. Consistent hashing is stable: when an endpoint other than the selected one disappears, the same
  key still selects the same endpoint, provided no two virtual nodes hash to the same value.
\<close>

theorem consistent_hash_stable:
  assumes "ch_select lb eps = Inr (ep, lb')" "gone \<noteq> ep" "distinct (map fst (points (ch_virtual_nodes lb) eps))"
  shows "ch_select lb (filter (\<lambda>e. e \<noteq> gone) eps) = Inr (ep, lb')"
proof -
  let ?vn = "ch_virtual_nodes lb" and ?eps' = "filter (\<lambda>e. e \<noteq> gone) eps" and ?h = "key_hash (ch_key lb)"
  let ?r = "build_ring ?vn eps" and ?r' = "build_ring ?vn ?eps'"
  have ne: "eps \<noteq> []" "0 < ?vn" and lb': "lb' = lb"
    using assms(1) build_ring_empty [of ?vn eps]
    by (cases "0 < ?vn"; auto simp: ch_select_def ring_at_def split: if_splits option.splits)+
  from ch_member [OF ne(2,1)] assms(1) have ep: "ep \<in> set eps" "map_of ?r (ring_succ ?h (fst ` set ?r)) = Some ep" by auto
  have m: "map_of ?r = map_of (points ?vn eps)" using build_ring_ok(2) [of ?vn eps] map_of_rev_distinct [OF assms(3)] by simp
  have "distinct (map fst (points ?vn ?eps'))" unfolding points_filter using assms(3) by (simp add: distinct_map_filter)
  then have m': "map_of ?r' = map_of (filter (\<lambda>(k, v). v \<noteq> gone) (points ?vn eps))"
    using build_ring_ok(2) [of ?vn ?eps'] map_of_rev_distinct by (simp add: points_filter)
  have keep: "map_of ?r' k = Some v" if "map_of ?r k = Some v" "v \<noteq> gone" for k v
    using that m m' assms(3) \<open>distinct (map fst (points ?vn ?eps'))\<close> by (simp add: points_filter)
  have "fst ` set ?r' \<subseteq> fst ` set ?r"
    using m m' by (simp add: dom_map_of_conv_image_fst [symmetric]) (auto simp: dom_map_of_conv_image_fst)
  moreover have "ring_succ ?h (fst ` set ?r) \<in> fst ` set ?r'"
    using keep [OF ep(2)] assms(2) by (metis domI dom_map_of_conv_image_fst)
  ultimately have "ring_succ ?h (fst ` set ?r') = ring_succ ?h (fst ` set ?r)" by (intro ring_succ_subset) auto
  moreover have "?eps' \<noteq> []" using ep(1) assms(2) by (auto simp: filter_empty_conv)
  ultimately show ?thesis using ch_member [OF ne(2), of ?eps'] keep [OF ep(2)] assms(2) lb' by auto
qed

theorem consistent_hash_stable_witness:
  "ch_select (set_hash_key ''user-1'' (consistent_hash_new 2)) [ep_a] =
     Inr (ep_a, set_hash_key ''user-1'' (consistent_hash_new 2))"
proof -
  let ?lb = "set_hash_key ''user-1'' (consistent_hash_new 2)"
  have d: "distinct (map fst (points (ch_virtual_nodes ?lb) [ep_a, ep_b]))" by code_simp
  have s: "ch_select ?lb [ep_a, ep_b] = Inr (ep_a, ?lb)" by code_simp
  have "ep_b \<noteq> ep_a" by (simp add: demo_eps)
  from consistent_hash_stable [OF s this d] show ?thesis by (simp add: demo_eps)
qed

text \<open>
  Weights that sum to nothing are undefined behaviour: when no endpoint has a positive weight the
  interval given to the distribution is empty, for which the standard prescribes nothing.
\<close>

lemma weighted_zero_total_undefined:
  assumes "eps \<noteq> []" "list_all (\<lambda>ep. ep_weight ep = 0) eps"
  shows "weighted_select dist () eps = Inl EmptyInterval"
proof -
  have "weight_total 0 eps = Some 0" using assms(2) by (induction eps) (auto simp: int_range_def)
  then show ?thesis using assms(1) by (simp add: weighted_select_def int_range_def)
qed

end
