(* ===== verification/Zookeeper.thy ===== *)
theory Zookeeper
  imports Prelude
begin

text \<open>
  \<^verbatim>\<open>registry/zookeeper_client.h\<close> and \<^verbatim>\<open>registry/zookeeper_client.cpp\<close>: the in-memory stub that the
  default build uses, and the wrapper of the ZooKeeper C client. The stub's tables are a
  record; its mutex is not recursive, so a thread that locks it twice never returns, which
  is the error \<open>SelfDeadlock\<close>. The locale \<open>znodes\<close> states what the registry relies on in
  the tree of nodes and is interpreted on the stub's tables.
\<close>

section \<open>Paths\<close>

text \<open>\<^verbatim>\<open>std::string::rfind(char)\<close>, \<^const>\<open>None\<close> for \<^verbatim>\<open>npos\<close>.\<close>

definition rfind :: "char \<Rightarrow> string \<Rightarrow> nat option" where
  "rfind c s = (let n = length (takeWhile (\<lambda>x. x \<noteq> c) (rev s)) in if n = length s then None else Some (length s - n - 1))"

text \<open>Parent and last component, when the last slash is not at the front.\<close>

definition split_path :: "string \<Rightarrow> (string \<times> string) option" where
  "split_path path =
     (case rfind CHR ''/'' path of
        None \<Rightarrow> None
      | Some slash \<Rightarrow> if slash > 0 then Some (take slash path, drop (slash + 1) path) else None)"

section \<open>The stub\<close>

datatype zk_error = SelfDeadlock | StoiInvalidArgument | StoiOutOfRange | ZkRuntimeError string

record 'cb zk_stub =
  zk_nodes :: "string \<rightharpoonup> string"
  zk_children :: "string \<rightharpoonup> string list"
  zk_watchers :: "string \<rightharpoonup> 'cb"
  zk_locked :: bool

text \<open>The client is one object of the process; \<open>zk\<close> is its state, whichever implementation it is.\<close>

record 'z zk_world =
  zk :: 'z

definition zk_new :: "'cb zk_stub" where
  "zk_new = \<lparr>zk_nodes = Map.empty, zk_children = Map.empty, zk_watchers = Map.empty, zk_locked = False\<rparr>"

definition zk_connected :: "'cb zk_stub \<Rightarrow> bool" where
  "zk_connected s = True"

text \<open>\<^verbatim>\<open>lock_guard\<close>: the body runs with the mutex held and releases it at its end.\<close>

definition with_lock :: "(('cb zk_stub, 'w) zk_world_scheme \<Rightarrow> zk_error + 'a \<times> ('cb zk_stub, 'w) zk_world_scheme) \<Rightarrow>
    ('cb zk_stub, 'w) zk_world_scheme \<Rightarrow> zk_error + 'a \<times> ('cb zk_stub, 'w) zk_world_scheme" where
  "with_lock body w =
     (if zk_locked (zk w) then Inl SelfDeadlock
      else case body (w\<lparr>zk := (zk w)\<lparr>zk_locked := True\<rparr>\<rparr>) of
        Inl e \<Rightarrow> Inl e
      | Inr (a, w1) \<Rightarrow> Inr (a, w1\<lparr>zk := (zk w1)\<lparr>zk_locked := False\<rparr>\<rparr>))"

definition kids_of :: "string \<Rightarrow> 'cb zk_stub \<Rightarrow> string list" where
  "kids_of path s = (case zk_children s path of None \<Rightarrow> [] | Some kids \<Rightarrow> kids)"

text \<open>The table updates of \<^verbatim>\<open>create\<close>, with the watcher to call, and of \<^verbatim>\<open>remove\<close>.\<close>

definition stub_put :: "string \<Rightarrow> string \<Rightarrow> 'cb zk_stub \<Rightarrow> 'cb zk_stub" where
  "stub_put path data s =
     (let s1 = s\<lparr>zk_nodes := (zk_nodes s)(path \<mapsto> data)\<rparr> in
      case split_path path of None \<Rightarrow> s1
      | Some (parent, child) \<Rightarrow>
          let kids = kids_of parent s1 in
          s1\<lparr>zk_children := (zk_children s1)(parent \<mapsto> (if child \<in> set kids then kids else kids @ [child]))\<rparr>)"

definition stub_watcher :: "string \<Rightarrow> 'cb zk_stub \<Rightarrow> ('cb \<times> string) option" where
  "stub_watcher path s =
     (case split_path path of None \<Rightarrow> None
      | Some (parent, child) \<Rightarrow>
          if child \<in> set (kids_of parent s) then None
          else (case zk_watchers s parent of None \<Rightarrow> None | Some cb \<Rightarrow> Some (cb, parent)))"

definition stub_del :: "string \<Rightarrow> 'cb zk_stub \<Rightarrow> 'cb zk_stub" where
  "stub_del path s =
     (let s1 = s\<lparr>zk_nodes := (zk_nodes s)(path := None)\<rparr> in
      case split_path path of None \<Rightarrow> s1
      | Some (parent, child) \<Rightarrow>
          s1\<lparr>zk_children := (zk_children s1)(parent \<mapsto> filter (\<lambda>k. k \<noteq> child) (kids_of parent s1))\<rparr>)"

definition stub_get :: "string \<Rightarrow> 'cb zk_stub \<Rightarrow> string" where
  "stub_get path s = (case zk_nodes s path of None \<Rightarrow> [] | Some data \<Rightarrow> data)"

text \<open>\<open>fire\<close> runs a watcher's closure; \<^verbatim>\<open>create\<close> calls it with the mutex held.\<close>

definition zk_create :: "('cb \<Rightarrow> string \<Rightarrow> ('cb zk_stub, 'w) zk_world_scheme \<Rightarrow> zk_error + ('cb zk_stub, 'w) zk_world_scheme) \<Rightarrow>
    string \<Rightarrow> string \<Rightarrow> ('cb zk_stub, 'w) zk_world_scheme \<Rightarrow> zk_error + bool \<times> ('cb zk_stub, 'w) zk_world_scheme" where
  "zk_create fire path data =
     with_lock (\<lambda>w.
       let w1 = w\<lparr>zk := stub_put path data (zk w)\<rparr> in
       case stub_watcher path (zk w) of
         None \<Rightarrow> Inr (True, w1)
       | Some (cb, parent) \<Rightarrow> map_sum id (\<lambda>w2. (True, w2)) (fire cb parent w1))"

definition zk_create_ephemeral :: "('cb \<Rightarrow> string \<Rightarrow> ('cb zk_stub, 'w) zk_world_scheme \<Rightarrow> zk_error + ('cb zk_stub, 'w) zk_world_scheme) \<Rightarrow>
    string \<Rightarrow> string \<Rightarrow> ('cb zk_stub, 'w) zk_world_scheme \<Rightarrow> zk_error + bool \<times> ('cb zk_stub, 'w) zk_world_scheme" where
  "zk_create_ephemeral fire path data = zk_create fire path data"

definition zk_get :: "string \<Rightarrow> ('cb zk_stub, 'w) zk_world_scheme \<Rightarrow> zk_error + string \<times> ('cb zk_stub, 'w) zk_world_scheme" where
  "zk_get path = with_lock (\<lambda>w. Inr (stub_get path (zk w), w))"

definition zk_get_children :: "string \<Rightarrow> ('cb zk_stub, 'w) zk_world_scheme \<Rightarrow> zk_error + string list \<times> ('cb zk_stub, 'w) zk_world_scheme" where
  "zk_get_children path = with_lock (\<lambda>w. Inr (kids_of path (zk w), w))"

definition zk_watch_children :: "string \<Rightarrow> 'cb \<Rightarrow> ('cb zk_stub, 'w) zk_world_scheme \<Rightarrow> zk_error + bool \<times> ('cb zk_stub, 'w) zk_world_scheme" where
  "zk_watch_children path cb =
     with_lock (\<lambda>w. Inr (True, w\<lparr>zk := (zk w)\<lparr>zk_watchers := (zk_watchers (zk w))(path \<mapsto> cb)\<rparr>\<rparr>))"

definition zk_remove :: "string \<Rightarrow> ('cb zk_stub, 'w) zk_world_scheme \<Rightarrow> zk_error + bool \<times> ('cb zk_stub, 'w) zk_world_scheme" where
  "zk_remove path = with_lock (\<lambda>w. Inr (True, w\<lparr>zk := stub_del path (zk w)\<rparr>))"

section \<open>The wrapper of the C client\<close>

text \<open>
  The C client's functions are a parameter. They act on a state of their own, the client
  library with the service behind it; a call gives its return code, what it stored through its
  pointers and, unless it only reads, the new state. A handle is \<^const>\<open>None\<close> for the null pointer. \<open>zoo_next_event\<close> is the
  library's event thread: the type, the path and the context of the next call of a watcher.
\<close>

definition ZOK :: int where "ZOK = 0"

definition ZNODEEXISTS :: int where "ZNODEEXISTS = -110"

definition ZOO_EPHEMERAL :: int where "ZOO_EPHEMERAL = 1"

definition ZOO_CONNECTED_STATE :: int where "ZOO_CONNECTED_STATE = 3"

definition ZOO_CHILD_EVENT :: int where "ZOO_CHILD_EVENT = 4"

record ('z, 'cb) zoo_api =
  zookeeper_init :: "string \<Rightarrow> int \<Rightarrow> 'z \<Rightarrow> nat option \<times> 'z"
  zookeeper_close :: "nat option \<Rightarrow> 'z \<Rightarrow> 'z"
  zoo_state :: "nat option \<Rightarrow> 'z \<Rightarrow> int"
  zoo_create :: "nat option \<Rightarrow> string \<Rightarrow> string \<Rightarrow> int \<Rightarrow> 'z \<Rightarrow> int \<times> 'z"
  zoo_get :: "nat option \<Rightarrow> string \<Rightarrow> string \<Rightarrow> int \<Rightarrow> 'z \<Rightarrow> int \<times> string \<times> int"
  zoo_get_children :: "nat option \<Rightarrow> string \<Rightarrow> 'z \<Rightarrow> int \<times> string list"
  zoo_wget_children :: "nat option \<Rightarrow> string \<Rightarrow> 'cb \<Rightarrow> 'z \<Rightarrow> (int \<times> string list) \<times> 'z"
  zoo_delete :: "nat option \<Rightarrow> string \<Rightarrow> int \<Rightarrow> 'z \<Rightarrow> int \<times> 'z"
  zoo_next_event :: "'z \<Rightarrow> ((int \<times> string option \<times> 'cb) \<times> 'z) option"

record 'z real_zk =
  rz_hosts :: string
  rz_zh :: "nat option"
  rz_service :: 'z

text \<open>A \<^verbatim>\<open>std::string\<close> as the C string a call sees.\<close>

definition c_str :: "string \<Rightarrow> string" where
  "c_str s = takeWhile (\<lambda>c. c \<noteq> CHR 0x00) s"

definition set_service :: "'z \<Rightarrow> ('z real_zk, 'w) zk_world_scheme \<Rightarrow> ('z real_zk, 'w) zk_world_scheme" where
  "set_service z w = w\<lparr>zk := (zk w)\<lparr>rz_service := z\<rparr>\<rparr>"

abbreviation service_of :: "('z real_zk, 'w) zk_world_scheme \<Rightarrow> 'z" where
  "service_of w \<equiv> rz_service (zk w)"

definition real_new :: "('z, 'cb) zoo_api \<Rightarrow> string \<Rightarrow> int \<Rightarrow> 'z \<Rightarrow> zk_error + 'z real_zk" where
  "real_new Z hosts session_timeout_ms z =
     (case zookeeper_init Z (c_str hosts) session_timeout_ms z of
        (None, z1) \<Rightarrow> Inl (ZkRuntimeError ''zookeeper_init failed'')
      | (Some zh, z1) \<Rightarrow> Inr \<lparr>rz_hosts = hosts, rz_zh = Some zh, rz_service = z1\<rparr>)"

definition real_destroy :: "('z, 'cb) zoo_api \<Rightarrow> 'z real_zk \<Rightarrow> 'z" where
  "real_destroy Z r = (if rz_zh r \<noteq> None then zookeeper_close Z (rz_zh r) (rz_service r) else rz_service r)"

definition real_connected :: "('z, 'cb) zoo_api \<Rightarrow> 'z real_zk \<Rightarrow> bool" where
  "real_connected Z r \<longleftrightarrow> rz_zh r \<noteq> None \<and> zoo_state Z (rz_zh r) (rz_service r) = ZOO_CONNECTED_STATE"

definition real_create :: "('z, 'cb) zoo_api \<Rightarrow> string \<Rightarrow> string \<Rightarrow>
    ('z real_zk, 'w) zk_world_scheme \<Rightarrow> zk_error + bool \<times> ('z real_zk, 'w) zk_world_scheme" where
  "real_create Z path data w =
     (case zoo_create Z (rz_zh (zk w)) (c_str path) data 0 (service_of w) of
        (rc, z) \<Rightarrow> Inr (rc = ZOK \<or> rc = ZNODEEXISTS, set_service z w))"

definition real_create_ephemeral :: "('z, 'cb) zoo_api \<Rightarrow> string \<Rightarrow> string \<Rightarrow>
    ('z real_zk, 'w) zk_world_scheme \<Rightarrow> zk_error + bool \<times> ('z real_zk, 'w) zk_world_scheme" where
  "real_create_ephemeral Z path data w =
     (case zoo_create Z (rz_zh (zk w)) (c_str path) data ZOO_EPHEMERAL (service_of w) of
        (rc, z) \<Rightarrow> Inr (rc = ZOK \<or> rc = ZNODEEXISTS, set_service z w))"

text \<open>\<open>stack\<close> is the content of the uninitialised buffer. The return code is not looked at.\<close>

definition real_get :: "('z, 'cb) zoo_api \<Rightarrow> string \<Rightarrow> string \<Rightarrow>
    ('z real_zk, 'w) zk_world_scheme \<Rightarrow> zk_error + string \<times> ('z real_zk, 'w) zk_world_scheme" where
  "real_get Z stack path w =
     (case zoo_get Z (rz_zh (zk w)) (c_str path) (take 512 stack) 512 (service_of w) of
        (rc, buf, buf_len) \<Rightarrow> Inr (if buf_len > 0 then take (nat buf_len) buf else [], w))"

definition real_get_children :: "('z, 'cb) zoo_api \<Rightarrow> string \<Rightarrow>
    ('z real_zk, 'w) zk_world_scheme \<Rightarrow> zk_error + string list \<times> ('z real_zk, 'w) zk_world_scheme" where
  "real_get_children Z path w =
     (case zoo_get_children Z (rz_zh (zk w)) (c_str path) (service_of w) of
        (rc, sv) \<Rightarrow> Inr (sv, w))"

definition real_watch_children :: "('z, 'cb) zoo_api \<Rightarrow> string \<Rightarrow> 'cb \<Rightarrow>
    ('z real_zk, 'w) zk_world_scheme \<Rightarrow> zk_error + bool \<times> ('z real_zk, 'w) zk_world_scheme" where
  "real_watch_children Z path cb w =
     (case zoo_wget_children Z (rz_zh (zk w)) (c_str path) cb (service_of w) of
        ((rc, sv), z) \<Rightarrow> Inr (rc = ZOK, set_service z w))"

definition real_remove :: "('z, 'cb) zoo_api \<Rightarrow> string \<Rightarrow>
    ('z real_zk, 'w) zk_world_scheme \<Rightarrow> zk_error + bool \<times> ('z real_zk, 'w) zk_world_scheme" where
  "real_remove Z path w =
     (case zoo_delete Z (rz_zh (zk w)) (c_str path) (-1) (service_of w) of
        (rc, z) \<Rightarrow> Inr (rc = ZOK, set_service z w))"

text \<open>The C client's callback: only child events reach the registered closure.\<close>

definition zk_watcher :: "('cb \<Rightarrow> string \<Rightarrow> 'w \<Rightarrow> zk_error + 'w) \<Rightarrow> int \<Rightarrow> string option \<Rightarrow> 'cb option \<Rightarrow> 'w \<Rightarrow> zk_error + 'w" where
  "zk_watcher run type path ctx w =
     (case ctx of
        Some cb \<Rightarrow> if type = ZOO_CHILD_EVENT then run cb (case path of None \<Rightarrow> [] | Some p \<Rightarrow> p) w else Inr w
      | None \<Rightarrow> Inr w)"

text \<open>The event thread calls one watcher; \<^const>\<open>None\<close> when there is nothing to deliver.\<close>

definition real_event :: "('z, 'cb) zoo_api \<Rightarrow> ('cb \<Rightarrow> string \<Rightarrow> ('z real_zk, 'w) zk_world_scheme \<Rightarrow> zk_error + ('z real_zk, 'w) zk_world_scheme) \<Rightarrow>
    ('z real_zk, 'w) zk_world_scheme \<Rightarrow> (zk_error + ('z real_zk, 'w) zk_world_scheme) option" where
  "real_event Z run w =
     map_option (\<lambda>((type, path, ctx), z). zk_watcher run type path (Some ctx) (set_service z w)) (zoo_next_event Z (service_of w))"

section \<open>The interface\<close>

text \<open>
  The operations of \<^verbatim>\<open>ZooKeeperClient\<close> as its users call them: what the registry's \<^verbatim>\<open>refresh\<close>
  needs, and the rest. The build decides which of the two implementations they are.
\<close>

record ('cb, 'w) zk_reader =
  cl_watch_children :: "string \<Rightarrow> 'cb \<Rightarrow> 'w \<Rightarrow> zk_error + bool \<times> 'w"
  cl_get :: "string \<Rightarrow> 'w \<Rightarrow> zk_error + string \<times> 'w"
  cl_get_children :: "string \<Rightarrow> 'w \<Rightarrow> zk_error + string list \<times> 'w"

record ('cb, 'w) zk_client = "('cb, 'w) zk_reader" +
  cl_create :: "string \<Rightarrow> string \<Rightarrow> 'w \<Rightarrow> zk_error + bool \<times> 'w"
  cl_create_ephemeral :: "string \<Rightarrow> string \<Rightarrow> 'w \<Rightarrow> zk_error + bool \<times> 'w"
  cl_remove :: "string \<Rightarrow> 'w \<Rightarrow> zk_error + bool \<times> 'w"

definition stub_reader :: "('cb, ('cb zk_stub, 'w) zk_world_scheme) zk_reader" where
  "stub_reader = \<lparr>cl_watch_children = zk_watch_children, cl_get = zk_get, cl_get_children = zk_get_children\<rparr>"

definition stub_client :: "('cb \<Rightarrow> string \<Rightarrow> ('cb zk_stub, 'w) zk_world_scheme \<Rightarrow> zk_error + ('cb zk_stub, 'w) zk_world_scheme) \<Rightarrow>
    ('cb, ('cb zk_stub, 'w) zk_world_scheme) zk_client" where
  "stub_client fire =
     \<lparr>cl_watch_children = zk_watch_children, cl_get = zk_get, cl_get_children = zk_get_children,
      cl_create = zk_create fire, cl_create_ephemeral = zk_create_ephemeral fire, cl_remove = zk_remove\<rparr>"

definition real_client :: "('z, 'cb) zoo_api \<Rightarrow> string \<Rightarrow> ('cb, ('z real_zk, 'w) zk_world_scheme) zk_client" where
  "real_client Z stack =
     \<lparr>cl_watch_children = real_watch_children Z, cl_get = real_get Z stack, cl_get_children = real_get_children Z,
      cl_create = real_create Z, cl_create_ephemeral = real_create_ephemeral Z, cl_remove = real_remove Z\<rparr>"

section \<open>The tree of nodes\<close>

text \<open>
  What a client of the store relies on. A node is known to its parent by its last component;
  deleting it undoes both.
\<close>

locale znodes =
  fixes put :: "string \<Rightarrow> string \<Rightarrow> 's \<Rightarrow> 's" and del :: "string \<Rightarrow> 's \<Rightarrow> 's"
    and get :: "string \<Rightarrow> 's \<Rightarrow> string" and kids :: "string \<Rightarrow> 's \<Rightarrow> string list"
  assumes get_put: "get p (put q d s) = (if p = q then d else get p s)"
    and kids_put: "kids p (put q d s) = (case split_path q of
        None \<Rightarrow> kids p s
      | Some (par, c) \<Rightarrow> if p = par \<and> c \<notin> set (kids p s) then kids p s @ [c] else kids p s)"
    and get_del: "get p (del q s) = (if p = q then [] else get p s)"
    and kids_del: "kids p (del q s) = (case split_path q of
        None \<Rightarrow> kids p s
      | Some (par, c) \<Rightarrow> if p = par then filter (\<lambda>k. k \<noteq> c) (kids p s) else kids p s)"
begin

text \<open>A node with a slash-free name below a directory.\<close>

lemma put_del_kids:
  assumes "split_path q = Some (par, c)" "c \<notin> set (kids par s)"
  shows "kids par (del q (put q d s)) = kids par s"
  using assms by (auto simp: kids_put kids_del filter_id_conv)

end

interpretation zs: znodes stub_put stub_del stub_get kids_of
  by unfold_locales
    (auto simp: stub_put_def stub_del_def stub_get_def kids_of_def Let_def split: option.splits prod.splits if_splits)

section \<open>The client's operations on the tree\<close>

lemma kids_of_lock [simp]: "kids_of p (s\<lparr>zk_locked := b\<rparr>) = kids_of p s"
  by (simp add: kids_of_def)

lemma stub_watcher_lock [simp]: "stub_watcher p (s\<lparr>zk_locked := b\<rparr>) = stub_watcher p s"
  by (cases "split_path p") (auto simp: stub_watcher_def)

text \<open>No watcher is called when the parent is not watched.\<close>

lemma create_unwatched:
  assumes "\<not> zk_locked (zk w)" "stub_watcher path (zk w) = None"
  shows "zk_create fire path data w = Inr (True, w\<lparr>zk := stub_put path data (zk w)\<rparr>)"
proof -
  have "(stub_put path data ((zk w)\<lparr>zk_locked := True\<rparr>))\<lparr>zk_locked := False\<rparr> = stub_put path data (zk w)"
    using assms(1) by (simp add: stub_put_def kids_of_def Let_def split: option.split)
  then show ?thesis using assms by (simp add: zk_create_def with_lock_def Let_def)
qed

lemma stub_put_keeps [simp]:
  "zk_locked (stub_put p d s) = zk_locked s" "zk_watchers (stub_put p d s) = zk_watchers s"
  by (simp_all add: stub_put_def Let_def split: option.split)

lemma stub_del_keeps [simp]:
  "zk_locked (stub_del p s) = zk_locked s" "zk_watchers (stub_del p s) = zk_watchers s"
  by (simp_all add: stub_del_def Let_def split: option.split)

lemma zk_reads:
  assumes "\<not> zk_locked (zk w)"
  shows "zk_get p w = Inr (stub_get p (zk w), w)" "zk_get_children p w = Inr (kids_of p (zk w), w)"
    "zk_watch_children p cb w = Inr (True, w\<lparr>zk := (zk w)\<lparr>zk_watchers := (zk_watchers (zk w))(p \<mapsto> cb)\<rparr>\<rparr>)"
    "zk_remove p w = Inr (True, w\<lparr>zk := stub_del p (zk w)\<rparr>)"
proof -
  have l: "(zk w)\<lparr>zk_locked := False\<rparr> = zk w" using assms by (cases "zk w") simp
  have "(stub_del p ((zk w)\<lparr>zk_locked := True\<rparr>))\<lparr>zk_locked := False\<rparr> = stub_del p (zk w)"
    using assms l by (simp add: stub_del_def kids_of_def Let_def split: option.split)
  moreover have "(zk w)\<lparr>zk_watchers := m, zk_locked := False\<rparr> = (zk w)\<lparr>zk_watchers := m\<rparr>" for m
    using assms by (cases "zk w") simp
  ultimately show "zk_get p w = Inr (stub_get p (zk w), w)" "zk_get_children p w = Inr (kids_of p (zk w), w)"
    "zk_watch_children p cb w = Inr (True, w\<lparr>zk := (zk w)\<lparr>zk_watchers := (zk_watchers (zk w))(p \<mapsto> cb)\<rparr>\<rparr>)"
    "zk_remove p w = Inr (True, w\<lparr>zk := stub_del p (zk w)\<rparr>)"
    using assms l
    by (simp_all add: zk_get_def zk_get_children_def zk_watch_children_def zk_remove_def with_lock_def stub_get_def kids_of_def)
qed

text \<open>
  A node can be read after it was created and is gone after it was removed: on an unlocked stub whose
  parent node is not watched, \<^verbatim>\<open>create\<close> of a new child succeeds, \<^verbatim>\<open>get\<close> then returns its data and
  \<^verbatim>\<open>get_children\<close> of the parent lists it last; \<^verbatim>\<open>remove\<close> restores the parent's list and leaves no data.
\<close>

lemma create_remove_roundtrip:
  assumes "\<not> zk_locked (zk w)" "split_path path = Some (parent, child)" "child \<notin> set (kids_of parent (zk w))"
    "zk_watchers (zk w) parent = None"
  shows "\<exists>w1 w2. zk_create fire path data w = Inr (True, w1) \<and> zk_get path w1 = Inr (data, w1) \<and>
    zk_get_children parent w1 = Inr (kids_of parent (zk w) @ [child], w1) \<and>
    zk_remove path w1 = Inr (True, w2) \<and> zk_get path w2 = Inr ([], w2) \<and>
    zk_get_children parent w2 = Inr (kids_of parent (zk w), w2)"
proof -
  let ?w1 = "w\<lparr>zk := stub_put path data (zk w)\<rparr>"
  let ?w2 = "?w1\<lparr>zk := stub_del path (zk ?w1)\<rparr>"
  have "zk_create fire path data w = Inr (True, ?w1)"
    using assms by (intro create_unwatched) (simp_all add: stub_watcher_def)
  moreover have l: "\<not> zk_locked (zk ?w1)" "\<not> zk_locked (zk ?w2)" using assms(1) by simp_all
  moreover have "kids_of parent (zk ?w1) = kids_of parent (zk w) @ [child]" "stub_get path (zk ?w1) = data"
    using assms(2,3) by (simp_all add: zs.kids_put zs.get_put)
  moreover have "kids_of parent (zk ?w2) = kids_of parent (zk w)" "stub_get path (zk ?w2) = []"
    using zs.put_del_kids [OF assms(2,3)] by (simp_all add: zs.get_del)
  ultimately show ?thesis using zk_reads [OF l(1)] zk_reads [OF l(2)] by (intro exI [of _ ?w1] exI [of _ ?w2]) simp
qed

end
