(* ===== verification/Service_Registry.thy ===== *)
theory Service_Registry
  imports Load_Balancer Zookeeper
begin

text \<open>
  \<^verbatim>\<open>registry/service_registry.h\<close> and \<^verbatim>\<open>registry/service_registry.cpp\<close> on the in-memory stub: the
  registration, discovery and removal of endpoints, with the cache and the watchers. A
  watcher's closure is \<^verbatim>\<open>refresh(service_name)\<close>, so it is represented by the service's name.
  The registry's own mutex is only ever held around a single access to the cache.
\<close>

section \<open>Numbers\<close>

text \<open>\<^verbatim>\<open>std::to_string(int)\<close> and \<^verbatim>\<open>std::stoi\<close>: white space, a sign, then the digits up to the first other character.\<close>

definition int_to_string :: "int \<Rightarrow> string" where
  "int_to_string i = (if i < 0 then CHR ''-'' # decimal (nat (- i)) else decimal (nat i))"

definition is_digit :: "char \<Rightarrow> bool" where
  "is_digit c \<longleftrightarrow> 48 \<le> (of_char c :: nat) \<and> (of_char c :: nat) \<le> 57"

definition is_space :: "char \<Rightarrow> bool" where
  "is_space c \<longleftrightarrow> (of_char c :: nat) = 32 \<or> (9 \<le> (of_char c :: nat) \<and> (of_char c :: nat) \<le> 13)"

definition digits_value :: "string \<Rightarrow> nat" where
  "digits_value ds = foldl (\<lambda>n c. n * 10 + (of_char c - 48)) 0 ds"

fun take_sign :: "string \<Rightarrow> bool \<times> string" where
  "take_sign [] = (False, [])"
| "take_sign (c # cs) = (if c = CHR ''-'' then (True, cs) else if c = CHR ''+'' then (False, cs) else (False, c # cs))"

definition stoi :: "string \<Rightarrow> zk_error + int" where
  "stoi str =
     (let (neg, s2) = take_sign (dropWhile is_space str);
          ds = takeWhile is_digit s2
      in if ds = [] then Inl StoiInvalidArgument
         else
           let v = (if neg then - int (digits_value ds) else int (digits_value ds))
           in if int_range v then Inr v else Inl StoiOutOfRange)"

section \<open>The class\<close>

record 'z registry_world = "'z zk_world" +
  reg_lb :: load_balancer
  reg_cache :: "string \<rightharpoonup> service_endpoint list"

definition kRootPath :: string where "kRootPath = ''/rpc''"

definition service_path :: "string \<Rightarrow> string" where
  "service_path service_name = kRootPath @ ''/'' @ service_name"

definition node_path :: "string \<Rightarrow> string \<Rightarrow> u16 \<Rightarrow> string" where
  "node_path service_name host port = service_path service_name @ ''/'' @ host @ '':'' @ decimal (unat port)"

text \<open>One child of the service's node; \<^const>\<open>None\<close> for a name without a colon, which is skipped.\<close>

definition parse_child :: "(string, 'z registry_world, 'm) zk_reader_scheme \<Rightarrow> string \<Rightarrow> string \<Rightarrow> 'z registry_world \<Rightarrow>
    zk_error + service_endpoint option \<times> 'z registry_world" where
  "parse_child C path child w =
     (case rfind CHR '':'' child of
        None \<Rightarrow> Inr (None, w)
      | Some colon \<Rightarrow>
          (case stoi (drop (colon + 1) child) of
             Inl e \<Rightarrow> Inl e
           | Inr port \<Rightarrow>
               (case cl_get C (path @ ''/'' @ child) w of
                  Inl e \<Rightarrow> Inl e
                | Inr (weight_str, w1) \<Rightarrow>
                    (case (if weight_str = [] then Inr 1 else stoi weight_str) of
                       Inl e \<Rightarrow> Inl e
                     | Inr weight \<Rightarrow>
                         Inr (Some \<lparr>ep_host = take colon child, ep_port = of_int port, ep_weight = weight\<rparr>, w1)))))"

fun parse_children :: "(string, 'z registry_world, 'm) zk_reader_scheme \<Rightarrow> string \<Rightarrow> string list \<Rightarrow> 'z registry_world \<Rightarrow>
    zk_error + service_endpoint list \<times> 'z registry_world" where
  "parse_children C path [] w = Inr ([], w)"
| "parse_children C path (child # children) w =
     (case parse_child C path child w of
        Inl e \<Rightarrow> Inl e
      | Inr (ep, w1) \<Rightarrow>
          map_sum id (\<lambda>(eps, w2). ((case ep of None \<Rightarrow> eps | Some e \<Rightarrow> e # eps), w2)) (parse_children C path children w1))"

definition refresh :: "(string, 'z registry_world, 'm) zk_reader_scheme \<Rightarrow> string \<Rightarrow> 'z registry_world \<Rightarrow> zk_error + 'z registry_world" where
  "refresh C service_name w =
     (case cl_watch_children C (service_path service_name) service_name w of
        Inl e \<Rightarrow> Inl e
      | Inr (ok, w1) \<Rightarrow>
          (case cl_get_children C (service_path service_name) w1 of
             Inl e \<Rightarrow> Inl e
           | Inr (children, w2) \<Rightarrow>
               map_sum id (\<lambda>(eps, w3). w3\<lparr>reg_cache := (reg_cache w3)(service_name \<mapsto> eps)\<rparr>)
                 (parse_children C (service_path service_name) children w2)))"

text \<open>What a watcher does when it is called.\<close>

definition fire_refresh :: "(string, 'z registry_world, 'm) zk_reader_scheme \<Rightarrow> string \<Rightarrow> string \<Rightarrow> 'z registry_world \<Rightarrow>
    zk_error + 'z registry_world" where
  "fire_refresh C service_name path w = refresh C service_name w"

definition registry_new :: "(string, 'z registry_world) zk_client \<Rightarrow> lb_strategy \<Rightarrow> 'z \<Rightarrow> zk_error + 'z registry_world" where
  "registry_new C strategy client =
     map_sum id snd (cl_create C kRootPath [] \<lparr>zk = client, reg_lb = make_load_balancer strategy, reg_cache = Map.empty\<rparr>)"

definition reg_register_service :: "(string, 'z registry_world) zk_client \<Rightarrow> string \<Rightarrow> string \<Rightarrow> u16 \<Rightarrow> int \<Rightarrow> 'z registry_world \<Rightarrow>
    zk_error + bool \<times> 'z registry_world" where
  "reg_register_service C service_name host port weight w =
     (case cl_create C (service_path service_name) [] w of
        Inl e \<Rightarrow> Inl e
      | Inr (ok, w1) \<Rightarrow> cl_create_ephemeral C (node_path service_name host port) (int_to_string weight) w1)"

datatype discover_error = ZkError zk_error | LbError lb_error

definition discover :: "(string, 'z registry_world, 'm) zk_reader_scheme \<Rightarrow> int_dist \<Rightarrow> string \<Rightarrow> 'z registry_world \<Rightarrow>
    discover_error + service_endpoint \<times> 'z registry_world" where
  "discover C dist service_name w =
     (let cached = (case reg_cache w service_name of None \<Rightarrow> [] | Some eps \<Rightarrow> eps) in
      case (if cached = [] then
              map_sum ZkError (\<lambda>w1. (case reg_cache w1 service_name of None \<Rightarrow> [] | Some eps \<Rightarrow> eps, w1)) (refresh C service_name w)
            else Inr (cached, w)) of
        Inl e \<Rightarrow> Inl e
      | Inr (endpoints, w1) \<Rightarrow>
          map_sum LbError (\<lambda>(ep, lb). (ep, w1\<lparr>reg_lb := lb\<rparr>)) (lb_select dist (reg_lb w1) endpoints))"

definition unregister_service :: "(string, 'z registry_world) zk_client \<Rightarrow> string \<Rightarrow> string \<Rightarrow> u16 \<Rightarrow> 'z registry_world \<Rightarrow>
    zk_error + bool \<times> 'z registry_world" where
  "unregister_service C service_name host port w = cl_remove C (node_path service_name host port) w"

text \<open>The registry of the default build: its watchers run \<^verbatim>\<open>refresh\<close> on the stub.\<close>

definition reg_stub :: "(string, string zk_stub registry_world) zk_client" where
  "reg_stub = stub_client (fire_refresh stub_reader)"

section \<open>Lemmas on numbers and paths\<close>

lemma digit_char:
  assumes "n < 10"
  shows "is_digit (char_of (48 + n))" "(of_char (char_of (48 + n)) :: nat) = 48 + n"
  using assms by (simp_all add: is_digit_def of_char_of)

lemma decimal_digits: "list_all is_digit (decimal n) \<and> decimal n \<noteq> []"
proof (induction n rule: decimal.induct)
  case (1 n)
  then show ?case using digit_char [of n] digit_char [of "n mod 10"] by (simp add: decimal.simps [of n])
qed

lemma digits_value_decimal: "digits_value (decimal n) = n"
proof (induction n rule: decimal.induct)
  case (1 n)
  show ?case
  proof (cases "n < 10")
    case True
    then show ?thesis using digit_char [of n] by (simp add: decimal.simps [of n] digits_value_def)
  next
    case False
    then have "digits_value (decimal n) = digits_value (decimal (n div 10)) * 10 + n mod 10"
      using digit_char [of "n mod 10"] by (simp add: decimal.simps [of n] digits_value_def)
    then show ?thesis using 1 False by simp
  qed
qed

lemma decimal_Cons: obtains c cs where "decimal n = c # cs" "is_digit c"
  using decimal_digits [of n] by (cases "decimal n") auto

lemma digit_not: "is_digit c \<Longrightarrow> \<not> is_space c \<and> c \<noteq> CHR ''-'' \<and> c \<noteq> CHR ''+'' \<and> c \<noteq> CHR '':'' \<and> c \<noteq> CHR ''/''"
  by (auto simp: is_digit_def is_space_def)

lemma takeWhile_digits: "takeWhile is_digit (decimal n) = decimal n"
  using decimal_digits [of n] by (simp add: list_all_iff takeWhile_eq_all_conv)

lemma stoi_sign_digits:
  assumes "take_sign (dropWhile is_space str) = (neg, decimal n)" "v = (if neg then - int n else int n)" "int_range v"
  shows "stoi str = Inr v"
  using assms decimal_digits [of n] by (cases neg) (simp_all add: stoi_def Let_def takeWhile_digits digits_value_decimal)

lemma stoi_decimal: assumes "n < 2 ^ 31" shows "stoi (decimal n) = Inr (int n)"
proof (rule stoi_sign_digits)
  obtain c cs where c: "decimal n = c # cs" "is_digit c" by (rule decimal_Cons)
  then show "take_sign (dropWhile is_space (decimal n)) = (False, decimal n)"
    using digit_not [OF c(2)] by simp
qed (use assms in \<open>simp_all add: int_range_def\<close>)

lemma stoi_int_to_string: assumes "int_range i" shows "stoi (int_to_string i) = Inr i"
proof (cases "i < 0")
  case True
  show ?thesis
  proof (rule stoi_sign_digits [where neg = True and n = "nat (- i)"])
    show "take_sign (dropWhile is_space (int_to_string i)) = (True, decimal (nat (- i)))"
      using True by (simp add: int_to_string_def is_space_def)
  qed (use True assms in simp_all)
next
  case False
  then show ?thesis using stoi_decimal [of "nat i"] assms by (simp add: int_to_string_def int_range_def)
qed

lemma int_to_string_nonempty: "int_to_string i \<noteq> []"
  using decimal_digits by (simp add: int_to_string_def)

lemma rfind_last: "c \<notin> set ys \<Longrightarrow> rfind c (xs @ c # ys) = Some (length xs)"
proof -
  assume "c \<notin> set ys"
  then have "takeWhile (\<lambda>x. x \<noteq> c) (rev ys @ c # rev xs) = rev ys"
    by (subst takeWhile_append2) (auto simp: takeWhile_append)
  then show ?thesis by (simp add: rfind_def)
qed

lemma decimal_no_sep: "CHR '':'' \<notin> set (decimal n)" "CHR ''/'' \<notin> set (decimal n)"
  using decimal_digits [of n] digit_not by (auto simp: list_all_iff)

definition child_name :: "string \<Rightarrow> u16 \<Rightarrow> string" where
  "child_name host port = host @ '':'' @ decimal (unat port)"

lemma split_node_path:
  assumes "CHR ''/'' \<notin> set host"
  shows "split_path (node_path svc host port) = Some (service_path svc, child_name host port)"
proof -
  have "rfind CHR ''/'' (service_path svc @ CHR ''/'' # child_name host port) = Some (length (service_path svc))"
    by (rule rfind_last) (use assms decimal_no_sep in \<open>auto simp: child_name_def\<close>)
  then show ?thesis by (simp add: split_path_def node_path_def child_name_def service_path_def kRootPath_def)
qed

lemma split_path_shorter: "split_path p = Some (par, c) \<Longrightarrow> length par < length p"
  by (auto simp: split_path_def rfind_def Let_def split: option.splits if_splits)

section \<open>The registry on a store\<close>

text \<open>Endpoints as the nodes that represent them.\<close>

abbreviation ep_node :: "string \<Rightarrow> service_endpoint \<Rightarrow> string" where
  "ep_node svc ep \<equiv> node_path svc (ep_host ep) (ep_port ep)"

abbreviation ep_child :: "service_endpoint \<Rightarrow> string" where
  "ep_child ep \<equiv> child_name (ep_host ep) (ep_port ep)"

definition ep_valid :: "service_endpoint \<Rightarrow> bool" where
  "ep_valid ep \<longleftrightarrow> CHR ''/'' \<notin> set (ep_host ep) \<and> int_range (ep_weight ep)"

definition listed :: "(string \<Rightarrow> string list) \<Rightarrow> (string \<Rightarrow> string) \<Rightarrow> string \<Rightarrow> service_endpoint list \<Rightarrow> bool" where
  "listed kids get svc eps \<longleftrightarrow> kids (service_path svc) = map ep_child eps \<and>
     (\<forall>ep \<in> set eps. get (ep_node svc ep) = int_to_string (ep_weight ep))"

lemma child_name_rfind: "rfind CHR '':'' (child_name h p) = Some (length h)"
  using rfind_last [OF decimal_no_sep(1), of h] by (simp add: child_name_def)

lemma ep_child_inj:
  assumes "child_name h p = child_name h' p'" shows "h = h' \<and> p = p'"
proof -
  have l: "length h = length h'" using child_name_rfind [of h p] child_name_rfind [of h' p'] assms by simp
  then have "h = h'" "decimal (unat p) = decimal (unat p')" using assms by (simp_all add: child_name_def)
  then show ?thesis using digits_value_decimal by (metis unsigned_word_eqI)
qed

lemma node_path_child: "node_path svc h p = service_path svc @ CHR ''/'' # child_name h p"
  by (simp add: node_path_def child_name_def)

lemma node_path_eq: "node_path svc h p = node_path svc h' p' \<longleftrightarrow> child_name h p = child_name h' p'"
  by (simp add: node_path_child)

text \<open>
  What \<^verbatim>\<open>refresh\<close> and \<^verbatim>\<open>discover\<close> rely on in the client: in the states where \<open>ok\<close> holds its calls
  return, reading changes nothing, and setting a watch keeps the client in such a state.
\<close>

locale registry_store =
  fixes C :: "(string, 'z registry_world, 'm) zk_reader_scheme" and ok :: "'z \<Rightarrow> bool"
    and watched :: "string \<Rightarrow> string \<Rightarrow> 'z \<Rightarrow> 'z" and kids :: "'z \<Rightarrow> string \<Rightarrow> string list" and get :: "'z \<Rightarrow> string \<Rightarrow> string"
  assumes watch: "ok (zk w) \<Longrightarrow> \<exists>b. cl_watch_children C p cb w = Inr (b, w\<lparr>zk := watched p cb (zk w)\<rparr>)"
    and watched_ok: "ok z \<Longrightarrow> ok (watched p cb z)"
    and read_kids: "ok (zk w) \<Longrightarrow> cl_get_children C p w = Inr (kids (zk w) p, w)"
    and read_data: "ok (zk w) \<Longrightarrow> cl_get C p w = Inr (get (zk w) p, w)"
begin

text \<open>Reading the tree back gives the endpoints.\<close>

lemma parse_child_listed:
  assumes "ok (zk w)" "get (zk w) (ep_node svc ep) = int_to_string (ep_weight ep)" "ep_valid ep"
  shows "parse_child C (service_path svc) (ep_child ep) w = Inr (Some ep, w)"
proof -
  have d: "drop (length (ep_host ep) + 1) (ep_child ep) = decimal (unat (ep_port ep))"
    "take (length (ep_host ep)) (ep_child ep) = ep_host ep" by (simp_all add: child_name_def)
  have "unat (ep_port ep) < 2 ^ 16" using unsigned_less [of "ep_port ep"] by simp
  then have p: "stoi (decimal (unat (ep_port ep))) = Inr (int (unat (ep_port ep)))" by (intro stoi_decimal) simp
  have g: "cl_get C (service_path svc @ ''/'' @ ep_child ep) w = Inr (int_to_string (ep_weight ep), w)"
    using read_data [OF assms(1)] assms(2) by (simp add: node_path_child)
  have wt: "stoi (int_to_string (ep_weight ep)) = Inr (ep_weight ep)"
    using assms(3) by (intro stoi_int_to_string) (simp add: ep_valid_def)
  have e: "\<lparr>ep_host = ep_host ep, ep_port = of_int (int (unat (ep_port ep))), ep_weight = ep_weight ep\<rparr> = ep"
    by (cases ep) simp
  show ?thesis
    unfolding parse_child_def child_name_rfind option.case d p sum.case g prod.case wt
    using int_to_string_nonempty wt e by simp
qed

lemma parse_children_listed:
  assumes "ok (zk w)" "\<forall>ep \<in> set eps. get (zk w) (ep_node svc ep) = int_to_string (ep_weight ep)" "list_all ep_valid eps"
  shows "parse_children C (service_path svc) (map ep_child eps) w = Inr (eps, w)"
  using assms by (induction eps) (simp_all add: parse_child_listed)

lemma refresh_listed:
  assumes "ok (zk w)" "watched (service_path svc) svc (zk w) = z" "listed (kids z) (get z) svc eps" "list_all ep_valid eps"
  shows "refresh C svc w = Inr (w\<lparr>zk := z, reg_cache := (reg_cache w)(svc \<mapsto> eps)\<rparr>)"
proof -
  have o: "ok z" using watched_ok [OF assms(1)] assms(2) by blast
  then have "parse_children C (service_path svc) (map ep_child eps) (w\<lparr>zk := z\<rparr>) = Inr (eps, w\<lparr>zk := z\<rparr>)"
    by (intro parse_children_listed) (use assms(3,4) in \<open>simp_all add: listed_def\<close>)
  moreover have "kids z (service_path svc) = map ep_child eps" using assms(3) by (simp add: listed_def)
  moreover obtain b where "cl_watch_children C (service_path svc) svc w = Inr (b, w\<lparr>zk := z\<rparr>)"
    using watch [OF assms(1)] assms(2) by blast
  ultimately show ?thesis using o read_kids [of "w\<lparr>zk := z\<rparr>"] by (simp add: refresh_def)
qed

text \<open>A discovery that has nothing in the cache, and one that has.\<close>

lemma discover_refresh:
  assumes "ok (zk w)" "watched (service_path svc) svc (zk w) = z" "listed (kids z) (get z) svc eps" "list_all ep_valid eps"
    "reg_cache w svc = None \<or> reg_cache w svc = Some []"
  shows "discover C dist svc w = map_sum LbError
    (\<lambda>(ep, lb). (ep, w\<lparr>zk := z, reg_cache := (reg_cache w)(svc \<mapsto> eps), reg_lb := lb\<rparr>)) (lb_select dist (reg_lb w) eps)"
  using refresh_listed [OF assms(1-4)] assms(5) by (auto simp: discover_def Let_def)

end

lemma discover_cached:
  assumes "reg_cache w svc = Some eps" "eps \<noteq> []"
  shows "discover C dist svc w = map_sum LbError (\<lambda>(ep, lb). (ep, w\<lparr>reg_lb := lb\<rparr>)) (lb_select dist (reg_lb w) eps)"
  using assms by (simp add: discover_def)

section \<open>The registry on the stub\<close>

lemma reg_stub_sel:
  "cl_watch_children reg_stub = zk_watch_children" "cl_get reg_stub = zk_get" "cl_get_children reg_stub = zk_get_children"
  "cl_create reg_stub = zk_create (fire_refresh stub_reader)" "cl_remove reg_stub = zk_remove"
  "cl_create_ephemeral reg_stub = zk_create_ephemeral (fire_refresh stub_reader)"
  by (simp_all add: reg_stub_def stub_client_def)

definition stub_watch :: "string \<Rightarrow> 'cb \<Rightarrow> 'cb zk_stub \<Rightarrow> 'cb zk_stub" where
  "stub_watch p cb s = s\<lparr>zk_watchers := (zk_watchers s)(p \<mapsto> cb)\<rparr>"

abbreviation stub_listed :: "string \<Rightarrow> service_endpoint list \<Rightarrow> 'cb zk_stub \<Rightarrow> bool" where
  "stub_listed svc eps s \<equiv> listed (\<lambda>p. kids_of p s) (\<lambda>p. stub_get p s) svc eps"

interpretation st: registry_store reg_stub "\<lambda>s. \<not> zk_locked s" stub_watch "\<lambda>s p. kids_of p s" "\<lambda>s p. stub_get p s"
  by unfold_locales (auto simp: reg_stub_sel zk_reads stub_watch_def kids_of_def stub_get_def)

text \<open>A list of registrations.\<close>

fun register_all :: "string \<Rightarrow> service_endpoint list \<Rightarrow> string zk_stub registry_world \<Rightarrow> zk_error + string zk_stub registry_world" where
  "register_all svc [] w = Inr w"
| "register_all svc (ep # eps) w =
     (case reg_register_service reg_stub svc (ep_host ep) (ep_port ep) (ep_weight ep) w of
        Inl e \<Rightarrow> Inl e
      | Inr (ok, w1) \<Rightarrow> register_all svc eps w1)"

lemma listed_put:
  assumes "stub_listed svc eps s" "ep_valid ep" "ep_child ep \<notin> set (map ep_child eps)"
  shows "stub_listed svc (eps @ [ep]) (stub_put (ep_node svc ep) (int_to_string (ep_weight ep)) (stub_put (service_path svc) [] s))"
proof -
  have sp: "split_path (ep_node svc ep) = Some (service_path svc, ep_child ep)"
    using assms(2) by (intro split_node_path) (simp add: ep_valid_def)
  have k: "kids_of (service_path svc) (stub_put (service_path svc) [] s) = kids_of (service_path svc) s"
    using split_path_shorter by (fastforce simp: zs.kids_put split: option.splits)
  have "ep_node svc e \<noteq> service_path svc" for e by (simp add: node_path_child)
  moreover have "ep_node svc e \<noteq> ep_node svc ep" if "e \<in> set eps" for e
    using that assms(3) by (auto simp: node_path_eq image_iff)
  ultimately show ?thesis
    using assms(1,3) sp k by (auto simp: listed_def zs.kids_put zs.get_put)
qed

text \<open>The registry while nobody has discovered the service: unlocked, unwatched.\<close>

definition reg_quiet :: "string zk_stub registry_world \<Rightarrow> bool" where
  "reg_quiet w \<longleftrightarrow> \<not> zk_locked (zk w) \<and> zk_watchers (zk w) = Map.empty"

lemma register_quiet:
  assumes "reg_quiet w"
  shows "reg_register_service reg_stub svc (ep_host ep) (ep_port ep) (ep_weight ep) w =
    Inr (True, w\<lparr>zk := stub_put (ep_node svc ep) (int_to_string (ep_weight ep)) (stub_put (service_path svc) [] (zk w))\<rparr>)"
  using assms
  by (simp add: reg_register_service_def reg_stub_sel zk_create_ephemeral_def create_unwatched reg_quiet_def stub_watcher_def
      split: option.split prod.split)

lemma register_all_listed:
  assumes "reg_quiet w" "stub_listed svc eps (zk w)" "list_all ep_valid new" "distinct (map ep_child (eps @ new))"
  shows "\<exists>w'. register_all svc new w = Inr w' \<and> reg_quiet w' \<and> stub_listed svc (eps @ new) (zk w') \<and>
    reg_cache w' = reg_cache w \<and> reg_lb w' = reg_lb w"
  using assms
proof (induction new arbitrary: eps w)
  case (Cons ep new)
  let ?w = "w\<lparr>zk := stub_put (ep_node svc ep) (int_to_string (ep_weight ep)) (stub_put (service_path svc) [] (zk w))\<rparr>"
  have "stub_listed svc (eps @ [ep]) (zk ?w)" using listed_put [OF Cons.prems(2)] Cons.prems(3,4) by auto
  moreover have "reg_quiet ?w" using Cons.prems(1) by (simp add: reg_quiet_def)
  ultimately show ?case
    using Cons.IH [of ?w "eps @ [ep]"] Cons.prems(3,4) register_quiet [OF Cons.prems(1)] by simp
qed simp

lemma discover_listed:
  assumes "\<not> zk_locked (zk w)" "stub_listed svc eps (zk w)" "list_all ep_valid eps" "reg_cache w svc = None"
    and "dist_ok dist" "lb_usable (reg_lb w) eps" "eps \<noteq> []"
  shows "\<exists>ep w'. discover reg_stub dist svc w = Inr (ep, w') \<and> ep \<in> set eps \<and> reg_cache w' svc = Some eps \<and>
    \<not> zk_locked (zk w') \<and> stub_listed svc eps (zk w') \<and> zk_watchers (zk w') = (zk_watchers (zk w))(service_path svc \<mapsto> svc) \<and>
    (\<forall>eps'. lb_usable (reg_lb w') eps' = lb_usable (reg_lb w) eps')"
proof -
  obtain ep lb where "lb_select dist (reg_lb w) eps = Inr (ep, lb)" "ep \<in> set eps" "\<forall>eps'. lb_usable lb eps' = lb_usable (reg_lb w) eps'"
    using lb.select_member [OF assms(6,7), of dist] clamp_dist_id [OF assms(5)] by auto
  then show ?thesis
    using st.discover_refresh [OF assms(1) refl _ assms(3), where dist = dist and svc = svc] assms(1,2,4)
    by (simp add: stub_watch_def listed_def kids_of_def stub_get_def)
qed

lemma registry_new_quiet:
  "\<exists>w. registry_new reg_stub strategy zk_new = Inr w \<and> reg_quiet w \<and> stub_listed svc [] (zk w) \<and> reg_cache w = Map.empty \<and>
    reg_lb w = make_load_balancer strategy"
proof -
  let ?w = "\<lparr>zk = zk_new, reg_lb = make_load_balancer strategy, reg_cache = Map.empty\<rparr>"
  have s: "split_path kRootPath = None" by code_simp
  have "zk_create (fire_refresh stub_reader) kRootPath [] ?w = Inr (True, ?w\<lparr>zk := stub_put kRootPath [] zk_new\<rparr>)"
    using create_unwatched [of ?w kRootPath _ "[]"] s by (simp add: zk_new_def stub_watcher_def)
  then show ?thesis
    using s by (simp add: registry_new_def reg_stub_sel reg_quiet_def listed_def zs.kids_put) (simp add: zk_new_def kids_of_def)
qed

text \<open>The registry after registrations and a first discovery.\<close>

lemma discovered_state:
  assumes "dist_ok dist" "eps \<noteq> []" "list_all ep_valid eps" "distinct (map ep_child eps)"
    "lb_usable (make_load_balancer strategy) eps"
    "registry_new reg_stub strategy zk_new = Inr w0" "register_all svc eps w0 = Inr w1" "discover reg_stub dist svc w1 = Inr (ep, w2)"
  shows "\<not> zk_locked (zk w2)" "stub_listed svc eps (zk w2)" "zk_watchers (zk w2) = [service_path svc \<mapsto> svc]" "ep \<in> set eps"
    "reg_cache w2 svc = Some eps" "lb_usable (reg_lb w2) eps' = lb_usable (make_load_balancer strategy) eps'"
proof -
  have 0: "reg_quiet w0" "stub_listed svc [] (zk w0)" "reg_cache w0 = Map.empty" "reg_lb w0 = make_load_balancer strategy"
    using registry_new_quiet [of strategy svc] assms(6) by auto
  have 1: "reg_quiet w1" "stub_listed svc eps (zk w1)" "reg_cache w1 = Map.empty" "reg_lb w1 = make_load_balancer strategy"
    using register_all_listed [OF 0(1,2) assms(3)] assms(4,7) 0(3,4) by auto
  then show "\<not> zk_locked (zk w2)" "stub_listed svc eps (zk w2)" "zk_watchers (zk w2) = [service_path svc \<mapsto> svc]" "ep \<in> set eps"
    "reg_cache w2 svc = Some eps" "lb_usable (reg_lb w2) eps' = lb_usable (make_load_balancer strategy) eps'"
    using discover_listed [of w1 svc eps dist] assms(1-3,5,8) by (auto simp: reg_quiet_def)
qed

section \<open>Properties\<close>

text \<open>
  C17. What is registered is discovered: from a new registry, registering distinct endpoints (no slash in
  a host, weights that fit an \<^verbatim>\<open>int\<close>) for a service succeeds, and \<^verbatim>\<open>discover\<close> then returns one of them
  with its host, port and weight, having cached exactly the registered list, for every
  strategy whose conditions on weights hold.
\<close>

theorem register_discover_roundtrip:
  assumes "dist_ok dist" "eps \<noteq> []" "list_all ep_valid eps" "distinct (map ep_child eps)"
    "lb_usable (make_load_balancer strategy) eps"
  shows "\<exists>w0 w1 ep w2. registry_new reg_stub strategy zk_new = Inr w0 \<and> register_all svc eps w0 = Inr w1 \<and>
    discover reg_stub dist svc w1 = Inr (ep, w2) \<and> ep \<in> set eps \<and> reg_cache w2 svc = Some eps"
proof -
  obtain w0 where 0: "registry_new reg_stub strategy zk_new = Inr w0" "reg_quiet w0" "stub_listed svc [] (zk w0)" "reg_cache w0 = Map.empty"
    "reg_lb w0 = make_load_balancer strategy"
    using registry_new_quiet by blast
  obtain w1 where 1: "register_all svc eps w0 = Inr w1" "reg_quiet w1" "stub_listed svc eps (zk w1)" "reg_cache w1 = Map.empty"
    "reg_lb w1 = make_load_balancer strategy"
    using register_all_listed [OF 0(2,3) assms(3)] assms(4) 0(4,5) by auto
  from discover_listed [of w1 svc eps dist] 1 assms show ?thesis using 0(1) by (fastforce simp: reg_quiet_def)
qed

theorem register_discover_roundtrip_witness:
  "\<exists>w0 w1 ep w2. registry_new reg_stub Weighted zk_new = Inr w0 \<and> register_all ''Calc'' [ep_a, ep_b] w0 = Inr w1 \<and>
     discover reg_stub (\<lambda>a b. b) ''Calc'' w1 = Inr (ep, w2) \<and> ep \<in> set [ep_a, ep_b] \<and> reg_cache w2 ''Calc'' = Some [ep_a, ep_b]"
proof (rule register_discover_roundtrip)
  show "distinct (map ep_child [ep_a, ep_b])" by code_simp
qed (simp_all add: dist_ok_def ep_valid_def int_range_def lb_usable_def make_load_balancer_def weights_ok_def demo_eps)

text \<open>
  C40. Registering an endpoint of a service that has been discovered never returns: \<^verbatim>\<open>create\<close> calls the
  watcher that \<^verbatim>\<open>discover\<close> installed while it holds the stub's mutex, and the watcher's
  \<^verbatim>\<open>refresh\<close> locks the same mutex again.
\<close>

theorem register_after_discover_deadlocks:
  assumes "dist_ok dist" "eps \<noteq> []" "list_all ep_valid eps" "distinct (map ep_child eps)"
    "lb_usable (make_load_balancer strategy) eps"
    "registry_new reg_stub strategy zk_new = Inr w0" "register_all svc eps w0 = Inr w1" "discover reg_stub dist svc w1 = Inr (ep, w2)"
    "CHR ''/'' \<notin> set host" "child_name host port \<notin> set (map ep_child eps)"
  shows "reg_register_service reg_stub svc host port weight w2 = Inl SelfDeadlock"
proof -
  note 2 = discovered_state [OF assms(1-8)]
  have c1: "zk_create (fire_refresh stub_reader) (service_path svc) [] w2 = Inr (True, w2\<lparr>zk := stub_put (service_path svc) [] (zk w2)\<rparr>)"
    using split_path_shorter [of "service_path svc"] 2 
    by (intro create_unwatched) (auto simp: stub_watcher_def split: option.splits)
  let ?s = "stub_put (service_path svc) [] (zk w2)"
  have "kids_of (service_path svc) ?s = map ep_child eps"
    using split_path_shorter 2(2) by (fastforce simp: zs.kids_put listed_def split: option.splits)
  then have "stub_watcher (node_path svc host port) ?s = Some (svc, service_path svc)"
    using split_node_path [OF assms(9)] assms(10) 2(3) by (simp add: stub_watcher_def)
  then show ?thesis
    using c1 2(1)
    by (simp add: reg_register_service_def reg_stub_sel stub_reader_def zk_create_ephemeral_def zk_create_def with_lock_def Let_def fire_refresh_def
        refresh_def zk_watch_children_def)
qed

theorem register_after_discover_deadlocks_witness:
  "\<exists>w0 w1 ep w2. registry_new reg_stub RoundRobin zk_new = Inr w0 \<and> register_all ''Calc'' [ep_a] w0 = Inr w1 \<and>
     discover reg_stub (\<lambda>a b. a) ''Calc'' w1 = Inr (ep, w2) \<and> reg_register_service reg_stub ''Calc'' ''b'' 2 1 w2 = Inl SelfDeadlock"
proof -
  have d: "dist_ok (\<lambda>a b. a)" "[ep_a] \<noteq> []" "list_all ep_valid [ep_a]" "distinct (map ep_child [ep_a])"
    "lb_usable (make_load_balancer RoundRobin) [ep_a]"
    by (simp_all add: dist_ok_def ep_valid_def int_range_def lb_usable_def make_load_balancer_def ep_a_def)
  have n: "CHR ''/'' \<notin> set ''b''" "child_name ''b'' 2 \<notin> set (map ep_child [ep_a])" by code_simp+
  obtain w0 where 0: "registry_new reg_stub RoundRobin zk_new = Inr w0" "reg_quiet w0" "stub_listed ''Calc'' [] (zk w0)"
    "reg_cache w0 = Map.empty" "reg_lb w0 = make_load_balancer RoundRobin"
    using registry_new_quiet by blast
  obtain w1 where 1: "register_all ''Calc'' [ep_a] w0 = Inr w1" "reg_quiet w1" "stub_listed ''Calc'' [ep_a] (zk w1)"
    "reg_cache w1 = Map.empty" "reg_lb w1 = make_load_balancer RoundRobin"
    using register_all_listed [OF 0(2,3) d(3)] 0(4,5) by auto
  obtain ep w2 where 2: "discover reg_stub (\<lambda>a b. a) ''Calc'' w1 = Inr (ep, w2)"
    using discover_listed [of w1 "''Calc''" "[ep_a]", OF _ 1(3) d(3) _ d(1)] 1 d(5) by (auto simp: reg_quiet_def)
  from register_after_discover_deadlocks [OF d 0(1) 1(1) 2 n] show ?thesis using 0(1) 1(1) 2 by blast
qed

text \<open>
  A removed endpoint keeps being discovered: \<^verbatim>\<open>remove\<close> of the stub calls no watcher, so after an
  endpoint was discovered its removal succeeds but leaves the cache as it is, and with a
  single endpoint the next discovery returns exactly the one that was removed.
\<close>

lemma unregistered_still_discovered:
  assumes "dist_ok dist" "ep_valid ep" "lb_usable (make_load_balancer strategy) [ep]"
    "registry_new reg_stub strategy zk_new = Inr w0" "register_all svc [ep] w0 = Inr w1" "discover reg_stub dist svc w1 = Inr (ep', w2)"
  shows "\<exists>w3 w4. unregister_service reg_stub svc (ep_host ep) (ep_port ep) w2 = Inr (True, w3) \<and>
    kids_of (service_path svc) (zk w3) = [] \<and> discover reg_stub dist svc w3 = Inr (ep, w4)"
proof -
  have v: "list_all ep_valid [ep]" "distinct (map ep_child [ep])" using assms(2) by simp_all
  note 2 = discovered_state [OF assms(1) _ v assms(3-6)]
  let ?w = "w2\<lparr>zk := stub_del (ep_node svc ep) (zk w2)\<rparr>"
  have r: "unregister_service reg_stub svc (ep_host ep) (ep_port ep) w2 = Inr (True, ?w)"
    using zk_reads(4) [of w2] 2(1) by (simp add: unregister_service_def reg_stub_sel)
  have "split_path (ep_node svc ep) = Some (service_path svc, ep_child ep)"
    using assms(2) by (intro split_node_path) (simp add: ep_valid_def)
  then have "kids_of (service_path svc) (zk ?w) = []" using 2(2) by (simp add: zs.kids_del listed_def)
  moreover have "\<exists>w4. discover reg_stub dist svc ?w = Inr (ep, w4)"
    using lb.select_member [of "reg_lb w2" "[ep]" dist] clamp_dist_id [OF assms(1)] 2(5,6) assms(3)
    by (auto simp: discover_def)
  ultimately show ?thesis using r by blast
qed

end
