(* ===== verification/Examples.thy ===== *)
theory Examples
  imports Rpc_Server Rpc_Channel Service_Registry
begin

text \<open>
  The programs under \<^verbatim>\<open>example/\<close>: the two services, what their clients make of the outcome of a
  call, and the four main functions. Floating-point arithmetic is a parameter, as are the serialisers that
  protobuf generates for the messages of \<^verbatim>\<open>hello.proto\<close> and \<^verbatim>\<open>calculator.proto\<close>. The generated
  \<^verbatim>\<open>CallMethod\<close> hands a request to the member function with the method's name.
\<close>

section \<open>HelloService\<close>

record hello_pb =
  ser_hello_req :: "string \<Rightarrow> string"
  parse_hello_req :: "string \<Rightarrow> string option"
  ser_hello_resp :: "string \<Rightarrow> string"
  parse_hello_resp :: "string \<Rightarrow> string option"

definition hello_pb_ok :: "hello_pb \<Rightarrow> bool" where
  "hello_pb_ok B \<longleftrightarrow> (\<forall>m. parse_hello_req B (ser_hello_req B m) = Some m) \<and>
     (\<forall>m. parse_hello_resp B (ser_hello_resp B m) = Some m)"

text \<open>Both messages have one string; a handler gives the response's message.\<close>

definition SayHello :: "string \<Rightarrow> string" where
  "SayHello req_name = ''Hello, '' @ req_name @ ''!''"

definition SayBye :: "string \<Rightarrow> string" where
  "SayBye req_name = ''Goodbye, '' @ req_name @ ''!''"

definition hello_service :: "hello_pb \<Rightarrow> string service" where
  "hello_service B =
     \<lparr>svc_full_name = ''example.HelloService'', svc_find_method = (\<lambda>m. m \<in> {''SayHello'', ''SayBye''}),
      svc_parse = (\<lambda>m args. parse_hello_req B args),
      svc_call = (\<lambda>m req ctl. Some (ctl, ser_hello_resp B (if m = ''SayHello'' then SayHello req else SayBye req)))\<rparr>"

section \<open>CalcService\<close>

record 'd calc_request =
  cq_a :: 'd
  cq_b :: 'd

record 'd calc_response =
  cs_result :: 'd
  cs_error :: string

record 'd arith =
  d_add :: "'d \<Rightarrow> 'd \<Rightarrow> 'd"
  d_sub :: "'d \<Rightarrow> 'd \<Rightarrow> 'd"
  d_mul :: "'d \<Rightarrow> 'd \<Rightarrow> 'd"
  d_div :: "'d \<Rightarrow> 'd \<Rightarrow> 'd"
  d_eq_zero :: "'d \<Rightarrow> bool"
  d_zero :: 'd

record 'd calc_pb =
  ser_calc_req :: "'d calc_request \<Rightarrow> string"
  parse_calc_req :: "string \<Rightarrow> 'd calc_request option"
  ser_calc_resp :: "'d calc_response \<Rightarrow> string"
  parse_calc_resp :: "string \<Rightarrow> 'd calc_response option"

definition calc_pb_ok :: "'d calc_pb \<Rightarrow> bool" where
  "calc_pb_ok B \<longleftrightarrow> (\<forall>m. parse_calc_req B (ser_calc_req B m) = Some m) \<and>
     (\<forall>m. parse_calc_resp B (ser_calc_resp B m) = Some m)"

text \<open>A new message has the defaults of proto3.\<close>

definition calc_response_new :: "'d arith \<Rightarrow> 'd calc_response" where
  "calc_response_new A = \<lparr>cs_result = d_zero A, cs_error = []\<rparr>"

definition calc_Add :: "'d arith \<Rightarrow> 'd calc_request \<Rightarrow> 'd calc_response \<Rightarrow> 'd calc_response" where
  "calc_Add A req resp = resp\<lparr>cs_result := d_add A (cq_a req) (cq_b req)\<rparr>"

definition calc_Sub :: "'d arith \<Rightarrow> 'd calc_request \<Rightarrow> 'd calc_response \<Rightarrow> 'd calc_response" where
  "calc_Sub A req resp = resp\<lparr>cs_result := d_sub A (cq_a req) (cq_b req)\<rparr>"

definition calc_Mul :: "'d arith \<Rightarrow> 'd calc_request \<Rightarrow> 'd calc_response \<Rightarrow> 'd calc_response" where
  "calc_Mul A req resp = resp\<lparr>cs_result := d_mul A (cq_a req) (cq_b req)\<rparr>"

definition calc_Div :: "'d arith \<Rightarrow> 'd calc_request \<Rightarrow> 'd calc_response \<Rightarrow> 'd calc_response" where
  "calc_Div A req resp =
     (if d_eq_zero A (cq_b req) then resp\<lparr>cs_error := ''division by zero''\<rparr>
      else resp\<lparr>cs_result := d_div A (cq_a req) (cq_b req)\<rparr>)"

definition calc_method :: "string \<Rightarrow> 'd arith \<Rightarrow> 'd calc_request \<Rightarrow> 'd calc_response \<Rightarrow> 'd calc_response" where
  "calc_method m =
     (if m = ''Add'' then calc_Add else if m = ''Sub'' then calc_Sub else if m = ''Mul'' then calc_Mul else calc_Div)"

definition calc_service :: "'d arith \<Rightarrow> 'd calc_pb \<Rightarrow> 'd calc_request service" where
  "calc_service A B =
     \<lparr>svc_full_name = ''example.CalcService'', svc_find_method = (\<lambda>m. m \<in> {''Add'', ''Sub'', ''Mul'', ''Div''}),
      svc_parse = (\<lambda>m args. parse_calc_req B args),
      svc_call = (\<lambda>m req ctl. Some (ctl, ser_calc_resp B (calc_method m A req (calc_response_new A))))\<rparr>"

section \<open>The clients\<close>

text \<open>The stub function the calculator's client picks for an operation.\<close>

definition calc_stub :: "string \<Rightarrow> string" where
  "calc_stub op = (if op = ''Add'' then ''Add'' else if op = ''Sub'' then ''Sub'' else if op = ''Mul'' then ''Mul'' else ''Div'')"

definition calc_args :: "'d calc_pb \<Rightarrow> string \<Rightarrow> 'd \<Rightarrow> 'd \<Rightarrow> string \<times> string \<times> string" where
  "calc_args B op a b = (''example.CalcService'', calc_stub op, ser_calc_req B \<lparr>cq_a = a, cq_b = b\<rparr>)"

datatype 'd call_output = RpcFailed string | CallError string | CallResult 'd

text \<open>
  What the clients print. \<open>bytes\<close> is what the channel handed to the response's
  \<^verbatim>\<open>ParseFromString\<close>, which leaves the message empty when it fails.
\<close>

definition calc_output :: "'d arith \<Rightarrow> 'd calc_pb \<Rightarrow> rpc_controller \<Rightarrow> string option \<Rightarrow> 'd call_output" where
  "calc_output A B ctrl bytes =
     (let resp = (case bytes of None \<Rightarrow> calc_response_new A
                  | Some s \<Rightarrow> (case parse_calc_resp B s of None \<Rightarrow> calc_response_new A | Some r \<Rightarrow> r)) in
      if ctl_failed ctrl then RpcFailed (ctl_err_text ctrl)
      else if cs_error resp \<noteq> [] then CallError (cs_error resp)
      else CallResult (cs_result resp))"

definition hello_output :: "hello_pb \<Rightarrow> rpc_controller \<Rightarrow> string option \<Rightarrow> string call_output" where
  "hello_output B ctrl bytes =
     (let resp_message = (case bytes of None \<Rightarrow> []
                          | Some s \<Rightarrow> (case parse_hello_resp B s of None \<Rightarrow> [] | Some r \<Rightarrow> r)) in
      if ctl_failed ctrl then RpcFailed (ctl_err_text ctrl) else CallResult resp_message)"

section \<open>The main functions\<close>

text \<open>
  Host and port from the command line; \<^verbatim>\<open>stoi\<close> throws outside the \<^verbatim>\<open>try\<close>, so its exception ends
  the program.
\<close>

definition client_target :: "u16 \<Rightarrow> string list \<Rightarrow> zk_error + string \<times> u16" where
  "client_target default_port argv =
     (let host = (if 1 < length argv then argv ! 1 else ''127.0.0.1'') in
      if 2 < length argv then map_sum id (\<lambda>port. (host, of_int port)) (stoi (argv ! 2)) else Inr (host, default_port))"

text \<open>
  \<open>remote\<close> is a blocking call through the proxy's channel: service, method and arguments give the
  controller and the bytes handed to the response. The result is the exit code, what was
  printed for the calls and the message of a caught exception.
\<close>

type_synonym stub_call = "string \<times> string \<times> string \<Rightarrow> rpc_controller \<times> string option"

definition run_client :: "connect_calls \<Rightarrow> u16 \<Rightarrow> string list \<Rightarrow> 'o list \<Rightarrow> zk_error + int \<times> 'o list \<times> string option" where
  "run_client C default_port argv outputs =
     (case client_target default_port argv of
        Inl e \<Rightarrow> Inl e
      | Inr (host, port) \<Rightarrow>
          (case service_proxy_new C host port 3000 (\<lambda>k. False) of
             Inl what \<Rightarrow> Inr (1, [], Some (''Error: '' @ what))
           | Inr proxy \<Rightarrow> Inr (0, outputs, None)))"

definition calc_client_call :: "'d arith \<Rightarrow> 'd calc_pb \<Rightarrow> stub_call \<Rightarrow> string \<Rightarrow> 'd \<Rightarrow> 'd \<Rightarrow> 'd call_output" where
  "calc_client_call A B remote op a b =
     (case remote (calc_args B op a b) of (ctrl, bytes) \<Rightarrow> calc_output A B ctrl bytes)"

definition calc_client_main :: "'d arith \<Rightarrow> 'd calc_pb \<Rightarrow> stub_call \<Rightarrow> connect_calls \<Rightarrow> 'd \<Rightarrow> 'd \<Rightarrow> string list \<Rightarrow>
    zk_error + int \<times> 'd call_output list \<times> string option" where
  "calc_client_main A B remote C ten three argv =
     run_client C 9091 argv
       [calc_client_call A B remote ''Add'' ten three, calc_client_call A B remote ''Sub'' ten three,
        calc_client_call A B remote ''Mul'' ten three, calc_client_call A B remote ''Div'' ten three,
        calc_client_call A B remote ''Div'' ten (d_zero A)]"

definition hello_client_call :: "hello_pb \<Rightarrow> stub_call \<Rightarrow> string \<Rightarrow> string \<Rightarrow> string call_output" where
  "hello_client_call B remote meth name =
     (case remote (''example.HelloService'', meth, ser_hello_req B name) of (ctrl, bytes) \<Rightarrow> hello_output B ctrl bytes)"

definition hello_client_main :: "hello_pb \<Rightarrow> stub_call \<Rightarrow> connect_calls \<Rightarrow> string list \<Rightarrow>
    zk_error + int \<times> string call_output list \<times> string option" where
  "hello_client_main B remote C argv =
     run_client C 9090 argv
       [hello_client_call B remote ''SayHello'' ''World'', hello_client_call B remote ''SayBye'' ''World'']"

text \<open>The servers' main functions: construct, register, start.\<close>

definition run_server :: "loop_calls \<Rightarrow> listen_calls \<Rightarrow> nat \<Rightarrow> u16 \<Rightarrow> 'm service \<Rightarrow> rpc_env \<Rightarrow> epoll_wait_call list \<Rightarrow>
    (string + bool \<times> 'm rpc_world) option" where
  "run_server S L tid port service E script =
     do { (server, closed) \<leftarrow> rpc_server_new S L tid ''0.0.0.0'' port 4;
          (case server of
             Inl err \<Rightarrow> Some (Inl err)
           | Inr w \<Rightarrow> map_option Inr (rpc_server_start E script (register_service service w))) }"

definition hello_server_main :: "loop_calls \<Rightarrow> listen_calls \<Rightarrow> nat \<Rightarrow> hello_pb \<Rightarrow> rpc_env \<Rightarrow> epoll_wait_call list \<Rightarrow>
    (string + bool \<times> string rpc_world) option" where
  "hello_server_main S L tid B = run_server S L tid 9090 (hello_service B)"

definition calc_server_main :: "loop_calls \<Rightarrow> listen_calls \<Rightarrow> nat \<Rightarrow> 'd arith \<Rightarrow> 'd calc_pb \<Rightarrow> rpc_env \<Rightarrow> epoll_wait_call list \<Rightarrow>
    (string + bool \<times> 'd calc_request rpc_world) option" where
  "calc_server_main S L tid A B = run_server S L tid 9091 (calc_service A B)"

section \<open>What the services compute\<close>

text \<open>The value of an operation, the specification of the calculator.\<close>

definition calc_value :: "'d arith \<Rightarrow> string \<Rightarrow> 'd \<Rightarrow> 'd \<Rightarrow> 'd call_output" where
  "calc_value A op a b =
     (if op = ''Add'' then CallResult (d_add A a b) else if op = ''Sub'' then CallResult (d_sub A a b)
      else if op = ''Mul'' then CallResult (d_mul A a b)
      else if d_eq_zero A b then CallError ''division by zero'' else CallResult (d_div A a b))"

lemma calc_found: "svc_find_method (calc_service A B) (calc_stub op)"
  by (simp add: calc_service_def calc_stub_def)

lemma calc_outcome:
  assumes "calc_pb_ok B" "\<not> ctl_failed ctrl"
  shows "calc_output A B ctrl (Some (ser_calc_resp B (calc_method (calc_stub op) A \<lparr>cq_a = a, cq_b = b\<rparr> (calc_response_new A)))) =
    calc_value A op a b"
  using assms
  by (simp add: calc_output_def calc_pb_ok_def calc_method_def calc_stub_def calc_value_def calc_Add_def calc_Sub_def
      calc_Mul_def calc_Div_def calc_response_new_def)

lemma hello_outcome:
  assumes "hello_pb_ok B" "\<not> ctl_failed ctrl"
  shows "hello_output B ctrl (Some (ser_hello_resp B m)) = CallResult m"
  using assms by (simp add: hello_output_def hello_pb_ok_def)

text \<open>A port on the command line is the port that is connected to.\<close>

lemma client_target_given: "client_target d [prog, host, decimal (unat port)] = Inr (host, port)"
  using stoi_decimal [of "unat port"] unsigned_less [of port, where 'a = nat] by (simp add: client_target_def)

text \<open>
  The calculator's client prints the values of its five calls, the last one the service's error,
  when the calls end as \<open>calculator_over_the_wire\<close> shows they do.
\<close>

lemma calc_client_prints:
  assumes "\<And>op a b. calc_client_call A B remote op a b = calc_value A op a b" "d_eq_zero A (d_zero A)"
    and "service_proxy_new C host port 3000 (\<lambda>k. False) = Inr proxy"
  shows "\<exists>outs. calc_client_main A B remote C ten three [prog, host, decimal (unat port)] = Inr (0, outs, None) \<and>
    outs ! 0 = CallResult (d_add A ten three) \<and> last outs = CallError ''division by zero''"
  using assms by (simp add: calc_client_main_def run_client_def client_target_given calc_value_def)

text \<open>A started example server has its service registered and waits for events.\<close>

lemma run_server_starts:
  fixes service :: "'m service"
  assumes "rpc_server_new S L tid ''0.0.0.0'' port 4 = Some (Inr (w :: 'm rpc_world), closed)"
  shows "\<exists>w'. run_server S L tid port service E [] = Some (Inr (False, w')) \<and>
    rpc_services w' = [svc_full_name service \<mapsto> service] \<and> ts_started (tcp_srv w')"
proof -
  have "is_in_loop_thread (register_service service w)" "\<not> ts_started (tcp_srv (register_service service w))" "rpc_services w = Map.empty"
    using assms
    by (auto simp: rpc_server_new_def event_loop_create_def tcp_server_new_def register_service_def is_in_loop_thread_def event_loop_new_def
        bind_eq_Some_conv split: sum.splits prod.splits)
  then show ?thesis
    using assms
    by (auto simp: run_server_def rpc_server_start_def tcp_server_start_def accept_interest_def loop_set_interest_def upd_srv_def
        is_in_loop_thread_def loop_def register_service_def split: prod.splits)
qed

end
