(* ===== verification/Call_Contract.thy ===== *)
theory Call_Contract
  imports Rpc_Channel
begin

text \<open>
  What \<^verbatim>\<open>RpcChannel\<close> promises its callers, as an abstract machine without ids, tables, threads and
  bytes: each call is idle, then active, then completed with an outcome, or rejected at once.
  The client's machine refines it: an invariant on the table of pending calls, an abstraction
  function on the calls' states, and a simulation of every step.
\<close>

section \<open>The contract\<close>

datatype call_status = Idle | Active | Completed "string option \<times> rpc_controller"

text \<open>An outcome is a response, or a controller that says why there is none.\<close>

definition decided :: "string option \<times> rpc_controller \<Rightarrow> bool" where
  "decided out \<longleftrightarrow> fst out \<noteq> None \<or> ctl_failed (snd out)"

inductive contract_step :: "(nat \<Rightarrow> call_status) \<Rightarrow> (nat \<Rightarrow> call_status) \<Rightarrow> bool" where
  begins: "a k = Idle \<Longrightarrow> contract_step a (a(k := Active))"
| rejects: "a k = Idle \<Longrightarrow> ctl_failed (snd out) \<Longrightarrow> contract_step a (a(k := Completed out))"
| completes: "a k = Active \<Longrightarrow> decided out \<Longrightarrow> contract_step a (a(k := Completed out))"

inductive_cases contract_stepE: "contract_step a b"

lemma completed_stays:
  assumes "contract_step\<^sup>*\<^sup>* a b" "a k = Completed out" shows "b k = Completed out"
  using assms by (induction rule: rtranclp_induct) (auto elim!: contract_stepE)

lemma completed_decided:
  assumes "contract_step\<^sup>*\<^sup>* (\<lambda>k. Idle) a" "a k = Completed out" shows "decided out"
proof -
  have "\<forall>out. a k = Completed out \<longrightarrow> decided out"
    using assms(1) by (induction rule: rtranclp_induct) (auto elim!: contract_stepE simp: decided_def split: if_splits)
  then show ?thesis using assms(2) by blast
qed

section \<open>The abstraction\<close>

definition call_outcome :: "pending_call \<Rightarrow> string option \<times> rpc_controller" where
  "call_outcome c = (pc_response c, pc_controller c)"

text \<open>A synchronous call completes when it returns, an asynchronous one when its closure runs.\<close>

fun status :: "call_pc \<Rightarrow> pending_call \<Rightarrow> call_status" where
  "status NotCalled c = Idle"
| "status (Finished i) c = Completed (call_outcome c)"
| "status (Async i) c = (if pc_done_runs c = 0 then Active else Completed (call_outcome c))"
| "status pc c = Active"

definition abs_calls :: "rpc_client \<Rightarrow> nat \<Rightarrow> call_status" where
  "abs_calls w k = status (rc_pcs w k) (rc_calls w k)"

text \<open>While the reader runs, the table only names calls that are still open.\<close>

definition table_open :: "rpc_client \<Rightarrow> bool" where
  "table_open w \<longleftrightarrow> (rc_reading w \<longrightarrow> (\<forall>i k. rc_pending_calls w i = Some k \<longrightarrow> open_id (rc_pcs w k) = Some i))"

definition contract_inv :: "rpc_client \<Rightarrow> bool" where
  "contract_inv w \<longleftrightarrow> client_inv w \<and> table_open w"

lemma table_open_pending:
  "table_open w \<Longrightarrow> rc_reading w \<Longrightarrow> rc_pending_calls w i = Some k \<Longrightarrow> open_id (rc_pcs w k) = Some i"
  by (simp add: table_open_def)

text \<open>Entries for the calls other than \<open>k\<close> stay as they are.\<close>

lemma table_open_step:
  assumes "table_open w" "rc_reading w' \<longrightarrow> rc_reading w" "\<And>k'. k' \<noteq> k \<Longrightarrow> rc_pcs w' k' = rc_pcs w k'"
    "\<And>i k'. k' \<noteq> k \<Longrightarrow> rc_pending_calls w' i = Some k' \<Longrightarrow> rc_pending_calls w i = Some k'"
    "\<And>i. rc_reading w' \<Longrightarrow> rc_pending_calls w' i = Some k \<Longrightarrow> open_id (rc_pcs w' k) = Some i"
  shows "table_open w'"
  unfolding table_open_def
proof (intro impI allI)
  fix i k' assume "rc_reading w'" "rc_pending_calls w' i = Some k'"
  then show "open_id (rc_pcs w' k') = Some i"
    using assms(5) [of i] assms(2) table_open_pending [OF assms(1), of i k'] assms(3,4) by (cases "k' = k") auto
qed

lemma on_message_table:
  "rc_pending_calls (channel_on_message P w f) i = Some k \<Longrightarrow> rc_pending_calls w i = Some k"
  by (auto simp: channel_on_message_def upd_call_def Let_def split: option.splits if_splits)

lemma on_messages_table:
  "rc_pending_calls (foldl (channel_on_message P) w fs) i = Some k \<Longrightarrow> rc_pending_calls w i = Some k"
  by (induction fs arbitrary: w) (auto dest: on_message_table)

lemma on_message_table_open: "table_open w \<Longrightarrow> table_open (channel_on_message P w f)"
  by (auto simp: table_open_def on_message_frame dest: on_message_table)

section \<open>The simulation\<close>

text \<open>A response: a call with a closure completes, any other stays active until its caller wakes up.\<close>

lemma on_message_abs:
  assumes inv: "contract_inv w" and rd: "rc_reading w"
  shows "contract_step\<^sup>*\<^sup>* (abs_calls w) (abs_calls (channel_on_message P w f))"
proof (cases "\<exists>resp k. parse_response P f = Some resp \<and> rc_pending_calls w (rs_id resp) = Some k")
  case False
  then have "abs_calls (channel_on_message P w f) = abs_calls w"
    by (auto simp: fun_eq_iff abs_calls_def channel_on_message_def Let_def split: option.split)
  then show ?thesis by simp
next
  case True
  then obtain resp k where k: "parse_response P f = Some resp" "rc_pending_calls w (rs_id resp) = Some k" by blast
  let ?w = "channel_on_message P w f"
  have op: "open_id (rc_pcs w k) = Some (rs_id resp)" and z: "pc_done_runs (rc_calls w k) = 0"
    using table_open_pending [OF _ rd k(2)] client_inv_pending [OF _ k(2)] inv by (simp_all add: contract_inv_def)
  have c: "rc_calls ?w = (rc_calls w)(k := run_done ((if rs_success resp then (rc_calls w k)\<lparr>pc_response := Some (rs_result resp)\<rparr>
      else fail_call (rs_error resp) (rc_calls w k))\<lparr>pc_done_flag := True\<rparr>))" "rc_pcs ?w = rc_pcs w"
    using k by (simp_all add: channel_on_message_def upd_call_def Let_def)
  have a: "abs_calls ?w = (abs_calls w)(k := status (rc_pcs w k) (rc_calls ?w k))" by (simp add: fun_eq_iff abs_calls_def c)
  have act: "abs_calls w k = Active" using op z by (cases "rc_pcs w k") (simp_all add: abs_calls_def)
  have "status (rc_pcs w k) (rc_calls ?w k) = Active \<or>
      (\<exists>out. status (rc_pcs w k) (rc_calls ?w k) = Completed out \<and> decided out)"
    using op by (cases "rc_pcs w k") (auto simp: c run_done_def fail_call_def SetFailed_def decided_def call_outcome_def)
  then show ?thesis
    using contract_step.completes [of "abs_calls w" k] act unfolding a by (metis fun_upd_triv r_into_rtranclp rtranclp.rtrancl_refl)
qed

lemma on_messages_abs:
  assumes "contract_inv w" "rc_reading w" "answers_sent P fs w"
  shows "contract_step\<^sup>*\<^sup>* (abs_calls w) (abs_calls (foldl (channel_on_message P) w fs))"
  using assms
proof (induction fs arbitrary: w)
  case (Cons f fs)
  let ?w = "channel_on_message P w f"
  have "client_inv ?w"
    by (rule on_message_inv) (use Cons.prems in \<open>auto simp: contract_inv_def answers_sent_def\<close>)
  then have "contract_inv ?w" using on_message_table_open Cons.prems(1) by (simp add: contract_inv_def)
  moreover have "answers_sent P fs ?w" "rc_reading ?w" using Cons.prems by (auto simp: answers_sent_def on_message_frame)
  ultimately have "contract_step\<^sup>*\<^sup>* (abs_calls ?w) (abs_calls (foldl (channel_on_message P) ?w fs))" using Cons.IH by blast
  then show ?case using on_message_abs [OF Cons.prems(1,2)] by (metis foldl_Cons rtranclp_trans)
qed simp

text \<open>The end of the stream marks open calls, which stay active.\<close>

lemma fail_pending_abs:
  assumes inv: "contract_inv w" and rd: "rc_reading w"
  shows "abs_calls ((fail_pending (w\<lparr>rc_connected := False\<rparr>))\<lparr>rc_reading := False\<rparr>) = abs_calls w"
proof
  fix k
  show "abs_calls ((fail_pending (w\<lparr>rc_connected := False\<rparr>))\<lparr>rc_reading := False\<rparr>) k = abs_calls w k"
  proof (cases "k \<in> ran (rc_pending_calls w)")
    case True
    then obtain i where i: "rc_pending_calls w i = Some k" by (auto simp: ran_def)
    have "open_id (rc_pcs w k) = Some i" using table_open_pending [OF _ rd i] inv by (simp add: contract_inv_def)
    moreover have "pc_done_runs (rc_calls w k) = 0" using client_inv_pending [OF _ i] inv by (simp add: contract_inv_def)
    ultimately show ?thesis
      using True by (cases "rc_pcs w k") (simp_all add: abs_calls_def fail_pending_def fail_call_def)
  qed (simp add: abs_calls_def fail_pending_def)
qed

lemma contract_step_inv:
  assumes "contract_inv w" "client_step e P req w w'" shows "contract_inv w'"
proof -
  have inv: "client_inv w" and op: "table_open w" using assms(1) by (simp_all add: contract_inv_def)
  have ok: "call_ok w k" for k using inv by (simp add: client_inv_def)
  have "table_open w'"
    using assms(2)
  proof (cases rule: client_step.cases)
    case (starts k)
    have "rc_pending_calls w i \<noteq> Some k" for i using early_facts(4) [OF ok] starts(2) by simp
    then show ?thesis
      using op starts
      by (intro table_open_step [of w w' k]) (auto simp: call_start_def is_connected_def client_simps split: if_splits)
  next
    case (registers k i)
    have "rc_pending_calls w j \<noteq> Some k" for j using early_facts(4) [OF ok] registers(2) by simp
    then show ?thesis
      using op registers by (intro table_open_step [of w w' k]) (auto simp: call_register_def set_pc_def split: if_splits)
  next
    case (writes k i taken)
    have "j = i" if "rc_pending_calls w j = Some k" for j using client_inv_pending [OF inv that] writes(2) by simp
    then show ?thesis
      using op writes
      by (intro table_open_step [of w w' k])
        (auto simp: call_write_def request_of_def client_simps split: option.splits prod.splits if_splits)
  next
    case (wakes k i)
    have "rc_pending_calls w j \<noteq> Some k" if "rc_reading w" for j using client_inv_pending [OF inv, of j k] wakes(3) that by blast
    then show ?thesis using op wakes by (intro table_open_step [of w w' k]) (auto simp: set_pc_def)
  next
    case checks
    then show ?thesis using op by (simp add: reader_check_def table_open_def)
  next
    case (reads readv)
    show ?thesis
    proof (rule reader_read_cases [OF inv reads(3-5)])
      assume eof: "w' = (fail_pending (w\<lparr>rc_connected := False\<rparr>))\<lparr>rc_reading := False\<rparr>"
      then show ?thesis unfolding table_open_def by simp
    next
      fix fs go_on conn b
      assume frames: "answers_sent P fs w" "buffer_inv b"
        "w' = (foldl (channel_on_message P) w fs)\<lparr>rc_connected := conn, rc_buf := b, rc_reading := go_on, rc_in_read := False\<rparr>"
      have "rc_pcs (foldl (channel_on_message P) w fs) = rc_pcs w"
        using on_messages_inv [OF inv reads(1) frames(1)] by blast
      then have "open_id (rc_pcs w' k) = Some i" if "rc_pending_calls w' i = Some k" for i k
        using table_open_pending [OF op reads(1)] on_messages_table [of P w fs i k] that unfolding frames(3) by simp
      then show ?thesis unfolding table_open_def by blast
    qed
  next
    case disconnects
    then show ?thesis using op by (simp add: disconnect_def close_sock_def table_open_def)
  qed
  then show ?thesis using client_step_inv [OF inv assms(2)] by (simp add: contract_inv_def)
qed

lemma contract_init: assumes "client_init w" shows "contract_inv w" "abs_calls w = (\<lambda>k. Idle)"
  using client_init_inv [OF assms] client_init_fields(2,3) [OF assms]
  by (simp_all add: contract_inv_def table_open_def abs_calls_def fun_eq_iff)

text \<open>A step of one call changes the abstract state of that call only.\<close>

lemma abs_update:
  assumes "\<And>k'. k' \<noteq> k \<Longrightarrow> rc_pcs w' k' = rc_pcs w k' \<and> rc_calls w' k' = rc_calls w k'"
  shows "abs_calls w' = (abs_calls w)(k := abs_calls w' k)"
  using assms by (auto simp: abs_calls_def)

lemma contract_simulates:
  assumes "contract_inv w" "client_step e P req w w'"
  shows "contract_step\<^sup>*\<^sup>* (abs_calls w) (abs_calls w')"
proof -
  have inv: "client_inv w" using assms(1) by (simp add: contract_inv_def)
  have ok: "call_ok w k" for k using inv by (simp add: client_inv_def)
  show ?thesis
    using assms(2)
  proof (cases rule: client_step.cases)
    case (starts k)
    have u: "abs_calls w' = (abs_calls w)(k := abs_calls w' k)"
      using starts(1) by (intro abs_update) (simp add: call_start_def is_connected_def client_simps)
    have "abs_calls w k = Idle" using starts(2) by (simp add: abs_calls_def)
    moreover have "abs_calls w' k = Active \<or> (\<exists>out. abs_calls w' k = Completed out \<and> ctl_failed (snd out))"
      using starts(1) by (simp add: abs_calls_def call_start_def is_connected_def client_simps call_outcome_def)
    ultimately show ?thesis by (subst u) (metis contract_step.begins contract_step.rejects r_into_rtranclp)
  next
    case (registers k i)
    have u: "abs_calls w' = (abs_calls w)(k := abs_calls w' k)"
      using registers(1) by (intro abs_update) (simp add: call_register_def set_pc_def)
    have "abs_calls w' k = abs_calls w k" using registers by (simp add: abs_calls_def call_register_def set_pc_def)
    then show ?thesis by (subst u) simp
  next
    case (writes k i taken)
    have u: "abs_calls w' = (abs_calls w)(k := abs_calls w' k)"
      using writes(1) by (intro abs_update) (simp add: call_write_def client_simps split: option.split)
    have a: "abs_calls w k = Active" using writes(2) by (simp add: abs_calls_def)
    have "pc_done_runs (rc_calls w k) = 0" using ok [of k] writes(2) by (simp add: call_ok_def)
    then have "abs_calls w' k = Active \<or> (\<exists>out. abs_calls w' k = Completed out \<and> decided out)"
      using writes(1) by (cases taken) (auto simp: abs_calls_def call_write_def client_simps call_outcome_def decided_def)
    then show ?thesis
      using a by (subst u) (metis contract_step.completes fun_upd_triv r_into_rtranclp rtranclp.rtrancl_refl)
  next
    case (wakes k i)
    have u: "abs_calls w' = (abs_calls w)(k := abs_calls w' k)" using wakes(1) by (intro abs_update) (simp add: set_pc_def)
    have "abs_calls w k = Active" using wakes(2) by (simp add: abs_calls_def)
    moreover have "has_outcome (rc_calls w k)" using ok [of k] wakes(3) by (simp add: call_ok_def)
    then have "abs_calls w' k = Completed (call_outcome (rc_calls w k))" "decided (call_outcome (rc_calls w k))"
      using wakes(1) by (simp_all add: abs_calls_def set_pc_def decided_def call_outcome_def has_outcome_def)
    ultimately show ?thesis by (subst u) (metis contract_step.completes r_into_rtranclp)
  next
    case checks
    then have "abs_calls w' = abs_calls w" by (simp add: fun_eq_iff abs_calls_def reader_check_def)
    then show ?thesis by simp
  next
    case (reads readv)
    show ?thesis
    proof (rule reader_read_cases [OF inv reads(3-5)])
      assume eof: "w' = (fail_pending (w\<lparr>rc_connected := False\<rparr>))\<lparr>rc_reading := False\<rparr>"
      show ?thesis unfolding eof fail_pending_abs [OF assms(1) reads(1)] by simp
    next
      fix fs go_on conn b
      assume frames: "answers_sent P fs w" "buffer_inv b"
        "w' = (foldl (channel_on_message P) w fs)\<lparr>rc_connected := conn, rc_buf := b, rc_reading := go_on, rc_in_read := False\<rparr>"
      have "abs_calls w' = abs_calls (foldl (channel_on_message P) w fs)" by (simp add: fun_eq_iff abs_calls_def frames(3))
      then show ?thesis using on_messages_abs [OF assms(1) reads(1) frames(1)] by simp
    qed
  next
    case disconnects
    then have "abs_calls w' = abs_calls w" by (simp add: fun_eq_iff abs_calls_def disconnect_def close_sock_def)
    then show ?thesis by simp
  qed
qed

interpretation ct: refinement_system client_init "client_step e P req" contract_inv abs_calls "\<lambda>k. Idle" contract_step for e P req
  by unfold_locales (fact contract_init, fact contract_step_inv, fact contract_init, fact contract_simulates)

section \<open>Properties\<close>

text \<open>
  C16. The client refines its contract: every state it reaches, and every run from there, by any
  interleaving of callers, reader and \<^verbatim>\<open>disconnect\<close>, is a run of the abstract machine in which a call is
  idle, active or completed. So a call that has completed has a response or a failed
  controller, and what its caller sees never changes again, whatever arrives later.
\<close>

theorem client_refines_contract:
  assumes "reachable client_init (client_step e P req) w" "(client_step e P req)\<^sup>*\<^sup>* w w'"
  shows "contract_step\<^sup>*\<^sup>* (\<lambda>k. Idle) (abs_calls w) \<and> contract_step\<^sup>*\<^sup>* (abs_calls w) (abs_calls w') \<and>
    (\<forall>k out. abs_calls w k = Completed out \<longrightarrow> decided out \<and> abs_calls w' k = Completed out)"
proof -
  have "contract_step\<^sup>*\<^sup>* (\<lambda>k. Idle) (abs_calls w)" by (rule ct.abs_reachable [OF assms(1)])
  moreover have "contract_step\<^sup>*\<^sup>* (abs_calls w) (abs_calls w')"
    by (rule ct.abs_steps [OF assms(2) ct.reachable_inv [OF assms(1)]])
  ultimately show ?thesis using completed_stays completed_decided by blast
qed

theorem client_refines_contract_witness:
  "\<exists>w ctl. reachable client_init demo_step w \<and> abs_calls w 0 = Completed (Some ''hi'', ctl) \<and>
     contract_step\<^sup>*\<^sup>* (\<lambda>k. Idle) (abs_calls w) \<and> (\<nexists>w'. demo_step\<^sup>*\<^sup>* w w' \<and> abs_calls w' 0 \<noteq> Completed (Some ''hi'', ctl))"
proof -
  obtain v where v: "reachable client_init demo_step v" "rc_pcs v 0 = Waiting 1" "rc_received v = [demo_response]"
    "pc_response (rc_calls v 0) = Some ''hi''"
    using demo_answered by blast
  have "call_ok v 0" using cm.reachable_inv [OF v(1)] by (simp add: client_inv_def)
  then have "pc_done_flag (rc_calls v 0)" using v(2,3) by (simp add: call_ok_def demo_response_def)
  then have r: "reachable client_init demo_step (set_pc 0 (Finished (Some 1)) v)" (is "reachable _ _ ?w")
    using client_step.wakes [OF v(2)] by (blast intro: reach_step [OF v(1)])
  moreover have "abs_calls ?w 0 = Completed (Some ''hi'', pc_controller (rc_calls v 0))"
    using v(4) by (simp add: abs_calls_def set_pc_def call_outcome_def)
  ultimately show ?thesis using client_refines_contract [OF r] by blast
qed

end
