(* ===== verification/Zoo_Service.thy ===== *)
theory Zoo_Service
  imports Service_Registry "HOL-Library.Multiset"
begin

text \<open>
  The ZooKeeper service behind the C client, which is not code of this repository: what its
  documentation says of a session that stays connected is the predicate \<open>zoo_documented\<close>, over a
  view of the service's tree, of this client's one-shot watches and of the notifications it
  has still to deliver. The theory also has the invariant \<open>live\<close> of a tree that only registries
  write, with a registry's cache: a cached list is current or about to be refreshed; every
  call of the service keeps it.
\<close>

section \<open>What ZooKeeper's documentation says\<close>

definition ZNONODE :: int where "ZNONODE = -101"

record 'cb zoo_view =
  zv_data :: "string \<rightharpoonup> string"
  zv_kids :: "string \<Rightarrow> string list"
  zv_watches :: "(string \<times> 'cb) list"
  zv_events :: "(int \<times> string option \<times> 'cb) list"

text \<open>Paths: a slash before each name, and names of printable characters.\<close>

definition name_char :: "char \<Rightarrow> bool" where
  "name_char c \<longleftrightarrow> c \<noteq> CHR ''/'' \<and> 32 \<le> (of_char c :: nat) \<and> (of_char c :: nat) < 127"

definition name_ok :: "string \<Rightarrow> bool" where
  "name_ok s \<longleftrightarrow> s \<noteq> [] \<and> list_all name_char s \<and> s \<noteq> ''.'' \<and> s \<noteq> ''..''"

definition znode_path :: "string \<Rightarrow> bool" where
  "znode_path p \<longleftrightarrow> (\<exists>names. names \<noteq> [] \<and> list_all name_ok names \<and> p = concat (map (\<lambda>n. CHR ''/'' # n) names))"

text \<open>A change of the children of \<open>par\<close> uses up the watches on it and notifies their owners.\<close>

definition notify :: "string \<Rightarrow> 'cb zoo_view \<Rightarrow> 'cb zoo_view" where
  "notify par v =
     v\<lparr>zv_watches := filter (\<lambda>(p, cb). p \<noteq> par) (zv_watches v),
       zv_events := zv_events v @ map (\<lambda>(p, cb). (ZOO_CHILD_EVENT, Some p, cb)) (filter (\<lambda>(p, cb). p = par) (zv_watches v))\<rparr>"

definition view_put :: "string \<Rightarrow> string \<Rightarrow> 'cb zoo_view \<Rightarrow> 'cb zoo_view" where
  "view_put p d v =
     (let v1 = v\<lparr>zv_data := (zv_data v)(p \<mapsto> d)\<rparr> in
      case split_path p of None \<Rightarrow> v1
      | Some (par, c) \<Rightarrow> notify par (v1\<lparr>zv_kids := (zv_kids v1)(par := zv_kids v1 par @ [c])\<rparr>))"

definition view_del :: "string \<Rightarrow> 'cb zoo_view \<Rightarrow> 'cb zoo_view" where
  "view_del p v =
     (let v1 = v\<lparr>zv_data := (zv_data v)(p := None)\<rparr> in
      case split_path p of None \<Rightarrow> v1
      | Some (par, c) \<Rightarrow> notify par (v1\<lparr>zv_kids := (zv_kids v1)(par := filter (\<lambda>k. k \<noteq> c) (zv_kids v1 par))\<rparr>))"

definition doc_create :: "string \<Rightarrow> string \<Rightarrow> 'cb zoo_view \<Rightarrow> int \<times> 'cb zoo_view" where
  "doc_create p d v =
     (if zv_data v p \<noteq> None then (ZNODEEXISTS, v)
      else if (case split_path p of None \<Rightarrow> False | Some (par, c) \<Rightarrow> zv_data v par = None) then (ZNONODE, v)
      else (ZOK, view_put p d v))"

definition doc_delete :: "string \<Rightarrow> 'cb zoo_view \<Rightarrow> int \<times> 'cb zoo_view" where
  "doc_delete p v = (if zv_data v p = None then (ZNONODE, v) else (ZOK, view_del p v))"

definition doc_watch :: "string \<Rightarrow> 'cb \<Rightarrow> 'cb zoo_view \<Rightarrow> int \<times> 'cb zoo_view" where
  "doc_watch p cb v = (if zv_data v p = None then (ZNONODE, v) else (ZOK, v\<lparr>zv_watches := zv_watches v @ [(p, cb)]\<rparr>))"

text \<open>
  The calls of the C client, on the handle of a session that stays connected, seen through
  \<open>view\<close>. The order in which children are returned is not specified. Deletion is described for
  nodes that have no children and no watch of their own, data up to the size of the buffer.
\<close>

definition zoo_documented :: "('z, 'cb) zoo_api \<Rightarrow> nat option \<Rightarrow> ('z \<Rightarrow> 'cb zoo_view) \<Rightarrow> bool" where
  "zoo_documented Z zh view \<longleftrightarrow>
     (\<forall>p d f z. znode_path p \<longrightarrow>
        (case zoo_create Z zh p d f z of (rc, z') \<Rightarrow> (rc, view z') = doc_create p d (view z))) \<and>
     (\<forall>p buf z d. znode_path p \<and> zv_data (view z) p = Some d \<and> length d \<le> 512 \<longrightarrow>
        (\<exists>rest. zoo_get Z zh p buf 512 z = (ZOK, d @ rest, int (length d)))) \<and>
     (\<forall>p z. znode_path p \<longrightarrow>
        (if zv_data (view z) p = None then zoo_get_children Z zh p z = (ZNONODE, [])
         else \<exists>sv. zoo_get_children Z zh p z = (ZOK, sv) \<and> mset sv = mset (zv_kids (view z) p))) \<and>
     (\<forall>p cb z. znode_path p \<longrightarrow>
        (case zoo_wget_children Z zh p cb z of ((rc, sv), z') \<Rightarrow> (rc, view z') = doc_watch p cb (view z))) \<and>
     (\<forall>p z. znode_path p \<and> zv_kids (view z) p = [] \<and> p \<notin> fst ` set (zv_watches (view z)) \<longrightarrow>
        (case zoo_delete Z zh p (-1) z of (rc, z') \<Rightarrow> (rc, view z') = doc_delete p (view z))) \<and>
     (\<forall>z. case zv_events (view z) of
        [] \<Rightarrow> zoo_next_event Z z = None
      | e # es \<Rightarrow> \<exists>z'. zoo_next_event Z z = Some (e, z') \<and> view z' = (view z)\<lparr>zv_events := es\<rparr>)"

section \<open>Names and paths\<close>

abbreviation svc_ok :: "string \<Rightarrow> bool" where
  "svc_ok \<equiv> name_ok"

definition ep_ok :: "service_endpoint \<Rightarrow> bool" where
  "ep_ok ep \<longleftrightarrow> ep_valid ep \<and> list_all name_char (ep_host ep)"

lemma digit_name_char: "is_digit c \<Longrightarrow> name_char c"
  by (auto simp: is_digit_def name_char_def)

lemma child_name_ok: assumes "list_all name_char host" shows "name_ok (child_name host port)"
proof -
  have c: "CHR '':'' \<in> set (child_name host port)" by (simp add: child_name_def)
  have "list_all name_char (decimal (unat port))"
    using decimal_digits [of "unat port"] digit_name_char by (auto simp: list_all_iff)
  then have "list_all name_char (child_name host port)" using assms by (simp add: child_name_def name_char_def)
  moreover have "child_name host port \<noteq> ''.''" "child_name host port \<noteq> ''..''" using c by auto
  ultimately show ?thesis using c by (auto simp: name_ok_def)
qed

lemma rpc_name_ok: "name_ok ''rpc''"
  by (simp add: name_ok_def name_char_def)

lemma root_path_ok: "znode_path kRootPath"
  unfolding znode_path_def by (rule exI [of _ "[''rpc'']"]) (simp add: kRootPath_def rpc_name_ok)

lemma service_path_ok: "svc_ok svc \<Longrightarrow> znode_path (service_path svc)"
  unfolding znode_path_def by (rule exI [of _ "[''rpc'', svc]"]) (simp add: service_path_def kRootPath_def rpc_name_ok)

lemma node_path_ok: "svc_ok svc \<Longrightarrow> list_all name_char host \<Longrightarrow> znode_path (node_path svc host port)"
  unfolding znode_path_def
  by (rule exI [of _ "[''rpc'', svc, child_name host port]"])
    (simp add: node_path_child service_path_def kRootPath_def rpc_name_ok child_name_ok)

lemma name_ok_chars: "name_ok s \<Longrightarrow> CHR ''/'' \<notin> set s" "list_all name_char s \<Longrightarrow> CHR ''/'' \<notin> set s"
  by (auto simp: name_ok_def name_char_def list_all_iff)

lemma c_str_path: assumes "znode_path p" shows "c_str p = p"
proof -
  have nul: "\<not> name_char (CHR 0x00)" by (simp add: name_char_def)
  obtain names where n: "list_all name_ok names" "p = concat (map (\<lambda>n. CHR ''/'' # n) names)"
    using assms by (auto simp: znode_path_def)
  have "c \<noteq> CHR 0x00" if "c \<in> set p" for c
  proof -
    have "c = CHR ''/'' \<or> (\<exists>s \<in> set names. c \<in> set s)" using that n(2) by (auto split: if_splits)
    then have "c = CHR ''/'' \<or> name_char c" using n(1) by (auto simp: list_all_iff name_ok_def)
    then show ?thesis using nul by fastforce
  qed
  then show ?thesis by (simp add: c_str_def takeWhile_eq_all_conv)
qed

lemma split_service_path: assumes "svc_ok svc" shows "split_path (service_path svc) = Some (kRootPath, svc)"
proof -
  have "rfind CHR ''/'' (kRootPath @ CHR ''/'' # svc) = Some (length kRootPath)"
    by (rule rfind_last [OF name_ok_chars(1) [OF assms]])
  then show ?thesis by (simp add: split_path_def service_path_def kRootPath_def)
qed

lemma ep_ok_split: "ep_ok ep \<Longrightarrow> split_path (ep_node svc ep) = Some (service_path svc, ep_child ep)"
  by (rule split_node_path) (simp add: ep_ok_def ep_valid_def)

lemma service_path_inj: "service_path svc = service_path svc' \<longleftrightarrow> svc = svc'"
  by (simp add: service_path_def)

lemma service_not_node: assumes "svc_ok svc" shows "service_path svc \<noteq> ep_node svc' ep"
  using name_ok_chars(1) [OF assms] by (auto simp: node_path_child service_path_def)

lemmas node_not_service = service_not_node [THEN not_sym]

lemma service_not_root: "service_path svc \<noteq> kRootPath"
  by (simp add: service_path_def)

lemma node_not_root: "node_path svc host port \<noteq> kRootPath"
  by (simp add: node_path_child service_path_def)

lemma ep_node_inj:
  assumes "ep_ok ep" "ep_ok ep'" "ep_node svc ep = ep_node svc' ep'"
  shows "svc = svc' \<and> ep_child ep = ep_child ep'"
  using ep_ok_split [OF assms(1), of svc] ep_ok_split [OF assms(2), of svc'] assms(3) service_path_inj by simp

section \<open>The invariant\<close>

text \<open>An endpoint that is registered in the tree.\<close>

definition registered :: "'cb zoo_view \<Rightarrow> string \<Rightarrow> service_endpoint \<Rightarrow> bool" where
  "registered v svc ep \<longleftrightarrow> ep_ok ep \<and> ep_child ep \<in> set (zv_kids v (service_path svc)) \<and>
     zv_data v (ep_node svc ep) = Some (int_to_string (ep_weight ep))"

text \<open>The part of the tree below a service's node is what registrations make of it.\<close>

definition good_service :: "'cb zoo_view \<Rightarrow> string \<Rightarrow> bool" where
  "good_service v svc \<longleftrightarrow> distinct (zv_kids v (service_path svc)) \<and>
     (\<forall>c \<in> set (zv_kids v (service_path svc)). \<exists>ep. ep_child ep = c \<and> registered v svc ep) \<and>
     (zv_kids v (service_path svc) \<noteq> [] \<longrightarrow> zv_data v (service_path svc) \<noteq> None) \<and>
     (\<forall>ep. ep_ok ep \<longrightarrow> zv_kids v (ep_node svc ep) = [])"

definition pending :: "'cb zoo_view \<Rightarrow> 'cb \<Rightarrow> bool" where
  "pending v cb \<longleftrightarrow> (\<exists>p. (ZOO_CHILD_EVENT, p, cb) \<in> set (zv_events v))"

text \<open>A list of endpoints that agrees with the tree.\<close>

definition current :: "'cb zoo_view \<Rightarrow> string \<Rightarrow> service_endpoint list \<Rightarrow> bool" where
  "current v svc eps \<longleftrightarrow> mset (map ep_child eps) = mset (zv_kids v (service_path svc)) \<and> (\<forall>ep \<in> set eps. registered v svc ep)"

definition live :: "string zoo_view \<Rightarrow> (string \<rightharpoonup> service_endpoint list) \<Rightarrow> bool" where
  "live v cache \<longleftrightarrow> zv_data v kRootPath \<noteq> None \<and> (\<forall>svc. svc_ok svc \<longrightarrow> good_service v svc) \<and>
     (\<forall>(p, cb) \<in> set (zv_watches v). svc_ok cb \<and> p = service_path cb) \<and>
     (\<forall>(t, p, cb) \<in> set (zv_events v). t = ZOO_CHILD_EVENT \<longrightarrow> svc_ok cb) \<and>
     (\<forall>svc eps. cache svc = Some eps \<and> eps \<noteq> [] \<longrightarrow> svc_ok svc \<and>
        (pending v svc \<or> current v svc eps \<and> (service_path svc, svc) \<in> set (zv_watches v)))"

text \<open>A change that leaves a service's part of the tree as it is.\<close>

definition same_service :: "'cb zoo_view \<Rightarrow> 'cb zoo_view \<Rightarrow> string \<Rightarrow> bool" where
  "same_service v v' svc \<longleftrightarrow> zv_kids v' (service_path svc) = zv_kids v (service_path svc) \<and>
     (zv_data v' (service_path svc) = None \<longrightarrow> zv_data v (service_path svc) = None) \<and>
     (\<forall>ep. ep_ok ep \<longrightarrow> zv_data v' (ep_node svc ep) = zv_data v (ep_node svc ep) \<and> zv_kids v' (ep_node svc ep) = zv_kids v (ep_node svc ep))"

lemma same_registered: "same_service v v' svc \<Longrightarrow> registered v' svc ep \<longleftrightarrow> registered v svc ep"
  by (auto simp: same_service_def registered_def)

lemma same_good: "same_service v v' svc \<Longrightarrow> good_service v svc \<Longrightarrow> good_service v' svc"
  unfolding good_service_def by (simp add: same_registered) (auto simp: same_service_def)

lemma same_current: "same_service v v' svc \<Longrightarrow> current v' svc eps \<longleftrightarrow> current v svc eps"
  unfolding current_def by (simp add: same_registered) (simp add: same_service_def)

lemma notify_tree [simp]: "zv_data (notify par v) = zv_data v" "zv_kids (notify par v) = zv_kids v"
  by (simp_all add: notify_def)

lemma notify_same: "same_service v (notify par v1) svc \<longleftrightarrow> same_service v v1 svc"
  by (simp add: same_service_def)

lemma notify_good: "good_service (notify par v) svc \<longleftrightarrow> good_service v svc"
  by (simp add: good_service_def registered_def)

text \<open>Nothing about any service changes, and no notification is used up.\<close>

lemma live_same:
  assumes "live v cache" "\<And>svc. svc_ok svc \<Longrightarrow> same_service v v' svc"
    and root: "zv_data v' kRootPath \<noteq> None" and
    "set (zv_watches v) \<subseteq> set (zv_watches v')" "\<forall>(p, cb) \<in> set (zv_watches v'). svc_ok cb \<and> p = service_path cb"
    "\<And>svc. pending v svc \<Longrightarrow> pending v' svc" "\<forall>(t, p, cb) \<in> set (zv_events v'). t = ZOO_CHILD_EVENT \<longrightarrow> svc_ok cb"
  shows "live v' cache"
proof -
  have "good_service v' svc" if "svc_ok svc" for svc
    using same_good [OF assms(2) [OF that]] assms(1) that by (simp add: live_def)
  moreover have "svc_ok svc \<and> (pending v' svc \<or> current v' svc eps \<and> (service_path svc, svc) \<in> set (zv_watches v'))"
    if "cache svc = Some eps" "eps \<noteq> []" for svc eps
  proof -
    have "svc_ok svc \<and> (pending v svc \<or> current v svc eps \<and> (service_path svc, svc) \<in> set (zv_watches v))"
      using assms(1) that unfolding live_def by blast
    then show ?thesis using assms(4,6) same_current [OF assms(2)] by blast
  qed
  ultimately show ?thesis unfolding live_def using root assms(5,7) by blast
qed

text \<open>One service's children change and its watchers are notified.\<close>

lemma live_change:
  assumes "live v cache" "svc_ok svc0" "good_service v1 svc0" "\<And>svc. svc_ok svc \<Longrightarrow> svc \<noteq> svc0 \<Longrightarrow> same_service v v1 svc"
    and same: "zv_watches v1 = zv_watches v" "zv_events v1 = zv_events v" and root: "zv_data v1 kRootPath = zv_data v kRootPath"
  shows "live (notify (service_path svc0) v1) cache"
proof -
  let ?v = "notify (service_path svc0) v1"
  have w: "set (zv_watches ?v) = {(p, cb) \<in> set (zv_watches v). p \<noteq> service_path svc0}"
    "set (zv_events ?v) = set (zv_events v) \<union> {(ZOO_CHILD_EVENT, Some p, cb) | p cb. (p, cb) \<in> set (zv_watches v) \<and> p = service_path svc0}"
    using same by (auto simp: notify_def)
  have old: "\<forall>(p, cb) \<in> set (zv_watches v). svc_ok cb \<and> p = service_path cb"
    "\<forall>(t, p, cb) \<in> set (zv_events v). t = ZOO_CHILD_EVENT \<longrightarrow> svc_ok cb" using assms(1) by (simp_all add: live_def)
  have "good_service ?v svc" if "svc_ok svc" for svc
    using assms(1,3) same_good [OF assms(4) [OF that]] that by (cases "svc = svc0") (simp_all add: notify_good live_def)
  moreover have "\<forall>(p, cb) \<in> set (zv_watches ?v). svc_ok cb \<and> p = service_path cb" unfolding w using old(1) by blast
  moreover have "\<forall>(t, p, cb) \<in> set (zv_events ?v). t = ZOO_CHILD_EVENT \<longrightarrow> svc_ok cb" unfolding w using old by blast
  moreover have "svc_ok svc \<and> (pending ?v svc \<or> current ?v svc eps \<and> (service_path svc, svc) \<in> set (zv_watches ?v))"
    if "cache svc = Some eps" "eps \<noteq> []" for svc eps
  proof -
    have 1: "svc_ok svc \<and> (pending v svc \<or> current v svc eps \<and> (service_path svc, svc) \<in> set (zv_watches v))"
      using assms(1) that unfolding live_def by blast
    have "pending ?v svc" if "pending v svc" using that unfolding pending_def w by blast
    moreover have "pending ?v svc" if "svc = svc0" "(service_path svc, svc) \<in> set (zv_watches v)"
      using that unfolding pending_def w by blast
    moreover have "current ?v svc eps \<and> (service_path svc, svc) \<in> set (zv_watches ?v)"
      if "svc \<noteq> svc0" "current v svc eps" "(service_path svc, svc) \<in> set (zv_watches v)"
      using that same_current [of v ?v svc eps] assms(4) [of svc] 1 unfolding w by (simp add: notify_same service_path_inj)
    ultimately show ?thesis using 1 by blast
  qed
  moreover have "zv_data ?v kRootPath \<noteq> None" using assms(1) root by (simp add: live_def)
  ultimately show ?thesis unfolding live_def by blast
qed

section \<open>The service's calls keep it\<close>

lemma create_service_live:
  assumes "live v cache" "svc_ok svc0" shows "live (snd (doc_create (service_path svc0) [] v)) cache"
proof (cases "zv_data v (service_path svc0) = None \<and> zv_data v kRootPath \<noteq> None")
  case False
  then show ?thesis using assms by (auto simp: doc_create_def split_service_path)
next
  case True
  let ?v = "view_put (service_path svc0) [] v"
  have old: "\<forall>(p, cb) \<in> set (zv_watches v). svc_ok cb \<and> p = service_path cb"
    "\<forall>(t, p, cb) \<in> set (zv_events v). t = ZOO_CHILD_EVENT \<longrightarrow> svc_ok cb" using assms(1) by (simp_all add: live_def)
  have "\<forall>(p, cb) \<in> set (zv_watches v). p \<noteq> kRootPath"
  proof clarify
    fix cb assume "(kRootPath, cb) \<in> set (zv_watches v)"
    then show False using old(1) service_not_root [of cb] by fastforce
  qed
  then have w: "zv_watches ?v = zv_watches v" "set (zv_events ?v) = set (zv_events v)"
    by (auto simp: view_put_def notify_def split_service_path [OF assms(2)] Let_def filter_id_conv)
  have "ep_node svc ep \<noteq> service_path svc0" for svc ep by (rule node_not_service [OF assms(2)])
  then have "same_service v ?v svc" if "svc_ok svc" for svc
    using service_not_root [of svc] node_not_root by (simp add: same_service_def view_put_def split_service_path [OF assms(2)] Let_def)
  moreover have "zv_data ?v kRootPath \<noteq> None"
    using True by (simp add: view_put_def split_service_path [OF assms(2)] Let_def)
  ultimately have "live ?v cache" by (intro live_same [OF assms(1)]) (use w old in \<open>simp_all add: pending_def\<close>)
  then show ?thesis using True by (auto simp: doc_create_def split_service_path [OF assms(2)])
qed

text \<open>Changes below one service's node do not concern another.\<close>

lemma node_change_same:
  assumes "ep_ok ep" "svc_ok svc" "svc_ok svc0" "svc \<noteq> svc0"
    "\<And>p. p \<noteq> ep_node svc0 ep \<Longrightarrow> zv_data v1 p = zv_data v p" "\<And>p. p \<noteq> service_path svc0 \<Longrightarrow> zv_kids v1 p = zv_kids v p"
  shows "same_service v v1 svc"
proof -
  have "ep_node svc ep' \<noteq> ep_node svc0 ep" if "ep_ok ep'" for ep' using ep_node_inj [OF that assms(1)] assms(4) by blast
  then show ?thesis
    using assms(4-6) service_not_node [OF assms(2), of svc0 ep] service_not_node [OF assms(3), of svc]
    by (auto simp: same_service_def service_path_inj) (metis service_not_node assms(3))+
qed

lemma create_endpoint_live:
  assumes "live v cache" "svc_ok svc0" "ep_ok ep"
  shows "live (snd (doc_create (ep_node svc0 ep) (int_to_string (ep_weight ep)) v)) cache"
proof (cases "zv_data v (ep_node svc0 ep) = None \<and> zv_data v (service_path svc0) \<noteq> None")
  case False
  then show ?thesis using assms by (auto simp: doc_create_def ep_ok_split)
next
  case True
  let ?v = "v\<lparr>zv_data := (zv_data v)(ep_node svc0 ep \<mapsto> int_to_string (ep_weight ep)),
    zv_kids := (zv_kids v)(service_path svc0 := zv_kids v (service_path svc0) @ [ep_child ep])\<rparr>"
  have g: "good_service v svc0" using assms(1,2) by (simp add: live_def)
  have new: "ep_child ep \<notin> set (zv_kids v (service_path svc0))"
  proof
    assume "ep_child ep \<in> set (zv_kids v (service_path svc0))"
    then obtain e where "ep_child e = ep_child ep" "registered v svc0 e" using g unfolding good_service_def by blast
    then show False using True by (simp add: registered_def node_path_child)
  qed
  have r: "registered ?v svc0 ep" using assms(3) by (simp add: registered_def)
  have o: "registered ?v svc0 e" if "registered v svc0 e" for e
    using that True by (auto simp: registered_def)
  have "good_service ?v svc0"
    unfolding good_service_def
  proof (intro conjI ballI)
    show "\<exists>e. ep_child e = c \<and> registered ?v svc0 e" if "c \<in> set (zv_kids ?v (service_path svc0))" for c
    proof (cases "c = ep_child ep")
      case False
      then have "c \<in> set (zv_kids v (service_path svc0))" using that by simp
      then show ?thesis using g o unfolding good_service_def by blast
    qed (use r in blast)
  qed (use g new True node_not_service [OF assms(2)] in \<open>auto simp: good_service_def\<close>)
  moreover have "same_service v ?v svc" if "svc_ok svc" "svc \<noteq> svc0" for svc
    by (rule node_change_same [OF assms(3) that(1) assms(2) that(2)]) simp_all
  ultimately have "live (notify (service_path svc0) ?v) cache" by (intro live_change [OF assms(1,2)]) (simp_all add: node_not_root [THEN not_sym])
  then show ?thesis using True by (auto simp: doc_create_def view_put_def ep_ok_split [OF assms(3)] Let_def)
qed

lemma delete_endpoint_live:
  assumes "live v cache" "svc_ok svc0" "ep_ok ep" shows "live (snd (doc_delete (ep_node svc0 ep) v)) cache"
proof (cases "zv_data v (ep_node svc0 ep)")
  case None
  then show ?thesis using assms(1) by (simp add: doc_delete_def)
next
  case (Some d)
  let ?v = "v\<lparr>zv_data := (zv_data v)(ep_node svc0 ep := None),
    zv_kids := (zv_kids v)(service_path svc0 := filter (\<lambda>k. k \<noteq> ep_child ep) (zv_kids v (service_path svc0)))\<rparr>"
  have g: "good_service v svc0" using assms(1,2) by (simp add: live_def)
  have o: "registered ?v svc0 e" if "registered v svc0 e" "ep_child e \<noteq> ep_child ep" for e
    using that by (simp add: registered_def node_path_eq)
  have "good_service ?v svc0"
    unfolding good_service_def
  proof (intro conjI ballI)
    show "\<exists>e. ep_child e = c \<and> registered ?v svc0 e" if "c \<in> set (zv_kids ?v (service_path svc0))" for c
      using that g o unfolding good_service_def by fastforce
  qed (use g service_not_node [OF assms(2)] node_not_service [OF assms(2)] in \<open>auto simp: good_service_def\<close>)
  moreover have "same_service v ?v svc" if "svc_ok svc" "svc \<noteq> svc0" for svc
    by (rule node_change_same [OF assms(3) that(1) assms(2) that(2)]) simp_all
  ultimately have "live (notify (service_path svc0) ?v) cache" by (intro live_change [OF assms(1,2)]) (simp_all add: node_not_root [THEN not_sym])
  then show ?thesis using Some by (simp add: doc_delete_def view_del_def ep_ok_split [OF assms(3)] Let_def)
qed

lemma live_forget: "live v cache \<Longrightarrow> live v (cache(svc := None))"
  by (simp add: live_def) blast

text \<open>A refresh makes the service's entry current, whatever it was.\<close>

lemma refresh_live:
  assumes "live v (cache(svc := None))" "svc_ok svc" "current v svc eps" "(rc, v') = doc_watch (service_path svc) svc v"
  shows "live v' (cache(svc \<mapsto> eps))"
proof -
  have same: "zv_data v' = zv_data v" "zv_kids v' = zv_kids v" "zv_events v' = zv_events v"
    using assms(4) by (auto simp: doc_watch_def split: if_splits)
  have "same_service v v' s" for s using same by (simp add: same_service_def)
  moreover have "set (zv_watches v) \<subseteq> set (zv_watches v')" "\<forall>(p, cb) \<in> set (zv_watches v'). svc_ok cb \<and> p = service_path cb"
    using assms(1,2,4) by (auto simp: doc_watch_def live_def split: if_splits)
  ultimately have l: "live v' (cache(svc := None))"
    using assms(1) by (intro live_same [OF assms(1)]) (simp_all add: same pending_def live_def)
  have "current v' svc eps" using assms(3) by (simp add: same current_def registered_def)
  moreover have "(service_path svc, svc) \<in> set (zv_watches v')" if "eps \<noteq> []"
  proof -
    have "zv_kids v (service_path svc) \<noteq> []" using assms(3) that by (auto simp: current_def)
    then have "zv_data v (service_path svc) \<noteq> None" using assms(1,2) by (simp add: live_def good_service_def)
    then show ?thesis using assms(4) by (auto simp: doc_watch_def)
  qed
  ultimately show ?thesis using l assms(2) unfolding live_def by (auto split: if_splits)
qed

lemma event_live:
  assumes "live v cache" "zv_events v = (t, p, cb) # es"
  shows "live (v\<lparr>zv_events := es\<rparr>) (if t = ZOO_CHILD_EVENT then cache(cb := None) else cache)"
proof -
  let ?v = "v\<lparr>zv_events := es\<rparr>"
  have "good_service ?v svc \<longleftrightarrow> good_service v svc" "current ?v svc eps \<longleftrightarrow> current v svc eps" for svc eps
    by (simp_all add: good_service_def current_def registered_def)
  moreover have "pending v svc \<longleftrightarrow> t = ZOO_CHILD_EVENT \<and> cb = svc \<or> pending ?v svc" for svc
    using assms(2) by (auto simp: pending_def)
  ultimately show ?thesis using assms unfolding live_def by (auto split: if_splits)
qed

text \<open>What a current list contains.\<close>

lemma weight_string_inj: "int_range a \<Longrightarrow> int_range b \<Longrightarrow> int_to_string a = int_to_string b \<Longrightarrow> a = b"
  by (metis stoi_int_to_string sum.inject(2))

lemma current_set:
  assumes "current v svc eps" "good_service v svc"
  shows "distinct eps \<and> set eps = {ep. registered v svc ep}"
proof -
  have m: "set (map ep_child eps) = set (zv_kids v (service_path svc))" "distinct (map ep_child eps)"
    using assms mset_eq_setD [of "map ep_child eps"] mset_eq_imp_distinct_iff [of "map ep_child eps"]
    unfolding current_def good_service_def by blast+
  have "ep \<in> set eps" if r: "registered v svc ep" for ep
  proof -
    have "ep_child ep \<in> set (map ep_child eps)" using r m(1) unfolding registered_def by blast
    then obtain e where e: "e \<in> set eps" "ep_child e = ep_child ep" by force
    then have c: "registered v svc e" "ep_host e = ep_host ep" "ep_port e = ep_port ep"
      using assms(1) ep_child_inj [OF e(2)] by (simp_all add: current_def)
    then have "int_to_string (ep_weight e) = int_to_string (ep_weight ep)" using r by (simp add: registered_def)
    then have "ep_weight e = ep_weight ep"
      by (intro weight_string_inj) (use c(1) r in \<open>simp_all add: registered_def ep_ok_def ep_valid_def\<close>)
    then show ?thesis using e(1) c by (cases e; cases ep) simp
  qed
  moreover have "distinct eps" using m(2) distinct_map by blast
  ultimately show ?thesis using assms(1) unfolding current_def by blast
qed

end
