(* ===== verification/Registry_Watch.thy ===== *)
theory Registry_Watch
  imports Zoo_Service
begin

text \<open>
  \<^verbatim>\<open>registry/service_registry.cpp\<close> on the wrapper of the ZooKeeper C client, the build with
  \<^verbatim>\<open>WITH_ZOOKEEPER\<close>, on a service that behaves as documented. The registry's own operations, the
  notifications and the changes that other processes make are the steps of a machine.
\<close>

section \<open>The registry of that build\<close>

text \<open>\<^verbatim>\<open>session_timeout_ms\<close> of the client's constructor.\<close>

definition kSessionTimeoutMs :: int where "kSessionTimeoutMs = 30000"

definition real_registry_new :: "('z, string) zoo_api \<Rightarrow> string \<Rightarrow> string \<Rightarrow> lb_strategy \<Rightarrow> 'z \<Rightarrow> zk_error + 'z real_zk registry_world" where
  "real_registry_new Z stack zk_hosts strategy z =
     (case real_new Z zk_hosts kSessionTimeoutMs z of
        Inl e \<Rightarrow> Inl e
      | Inr client \<Rightarrow> registry_new (real_client Z stack) strategy client)"

text \<open>The event thread runs the registry's watcher.\<close>

definition registry_event :: "('z, string) zoo_api \<Rightarrow> string \<Rightarrow> 'z real_zk registry_world \<Rightarrow> (zk_error + 'z real_zk registry_world) option" where
  "registry_event Z stack = real_event Z (fire_refresh (real_client Z stack))"

section \<open>The wrapper's calls\<close>

definition real_watch :: "('z, 'cb) zoo_api \<Rightarrow> string \<Rightarrow> 'cb \<Rightarrow> 'z real_zk \<Rightarrow> 'z real_zk" where
  "real_watch Z p cb r = r\<lparr>rz_service := snd (zoo_wget_children Z (rz_zh r) (c_str p) cb (rz_service r))\<rparr>"

definition real_kids :: "('z, 'cb) zoo_api \<Rightarrow> 'z real_zk \<Rightarrow> string \<Rightarrow> string list" where
  "real_kids Z r p = snd (zoo_get_children Z (rz_zh r) (c_str p) (rz_service r))"

definition real_data :: "('z, 'cb) zoo_api \<Rightarrow> string \<Rightarrow> 'z real_zk \<Rightarrow> string \<Rightarrow> string" where
  "real_data Z stack r p = (case zoo_get Z (rz_zh r) (c_str p) (take 512 stack) 512 (rz_service r) of
     (rc, buf, buf_len) \<Rightarrow> if buf_len > 0 then take (nat buf_len) buf else [])"

lemma real_client_sel [simp]:
  "cl_watch_children (real_client Z stack) = real_watch_children Z" "cl_get (real_client Z stack) = real_get Z stack"
  "cl_get_children (real_client Z stack) = real_get_children Z" "cl_create (real_client Z stack) = real_create Z"
  "cl_create_ephemeral (real_client Z stack) = real_create_ephemeral Z" "cl_remove (real_client Z stack) = real_remove Z"
  by (simp_all add: real_client_def)

interpretation rr: registry_store "real_client Z stack" "\<lambda>r. True" "real_watch Z" "real_kids Z" "real_data Z stack" for Z stack
  by unfold_locales
    (auto simp: real_watch_children_def real_get_children_def real_get_def real_watch_def real_kids_def real_data_def set_service_def
      split: prod.split)

text \<open>The documented behaviour, call by call.\<close>

lemmas documented = zoo_documented_def [THEN iffD1]

lemmas documented_create = documented [THEN conjunct1, rule_format]

lemmas documented_get = documented [THEN conjunct2, THEN conjunct1, rule_format, OF _ conjI, OF _ _ conjI]

lemmas documented_kids = documented [THEN conjunct2, THEN conjunct2, THEN conjunct1, rule_format]

lemmas documented_watch = documented [THEN conjunct2, THEN conjunct2, THEN conjunct2, THEN conjunct1, rule_format]

lemmas documented_delete =
  documented [THEN conjunct2, THEN conjunct2, THEN conjunct2, THEN conjunct2, THEN conjunct1, rule_format, OF _ conjI, OF _ _ conjI]

lemmas documented_events = documented [THEN conjunct2, THEN conjunct2, THEN conjunct2, THEN conjunct2, THEN conjunct2, THEN spec]

lemma doc_create_call:
  assumes "zoo_documented Z zh view" "rz_zh (zk w) = zh" "znode_path p"
  obtains z' rc where "zoo_create Z (rz_zh (zk w)) (c_str p) d f (service_of w) = (rc, z')" "(rc, view z') = doc_create p d (view (service_of w))"
  using that documented_create [OF assms(1,3), where d = d and f = f and z = "service_of w"] assms(2) c_str_path [OF assms(3)]
  by (auto split: prod.splits)

lemma doc_watch_call:
  assumes "zoo_documented Z zh view" "rz_zh r = zh" "znode_path p"
  shows "\<exists>rc. (rc, view (rz_service (real_watch Z p cb r))) = doc_watch p cb (view (rz_service r))"
  using documented_watch [OF assms(1,3), of cb "rz_service r"] assms(2) c_str_path [OF assms(3)]
  by (auto simp: real_watch_def split: prod.splits)

lemma doc_get_call:
  assumes "zoo_documented Z zh view" "rz_zh r = zh" "znode_path p" "zv_data (view (rz_service r)) p = Some d" "length d \<le> 512"
  shows "real_data Z stack r p = d"
  using documented_get [OF assms(1,3-5), of "take 512 stack"] assms(2) c_str_path [OF assms(3)] by (auto simp: real_data_def)

lemma doc_kids_call:
  assumes "zoo_documented Z zh view" "rz_zh r = zh" "znode_path p"
  shows "if zv_data (view (rz_service r)) p = None then real_kids Z r p = [] else mset (real_kids Z r p) = mset (zv_kids (view (rz_service r)) p)"
  using documented_kids [OF assms(1,3), of "rz_service r"] assms(2) c_str_path [OF assms(3)]
  by (auto simp: real_kids_def split: if_splits)

lemma doc_delete_call:
  assumes "zoo_documented Z zh view" "rz_zh (zk w) = zh" "znode_path p" "zv_kids (view (service_of w)) p = []"
    "p \<notin> fst ` set (zv_watches (view (service_of w)))"
  obtains z' rc where "zoo_delete Z (rz_zh (zk w)) (c_str p) (-1) (service_of w) = (rc, z')" "(rc, view z') = doc_delete p (view (service_of w))"
  using that documented_delete [OF assms(1,3-5)] assms(2) c_str_path [OF assms(3)] by (auto split: prod.splits)

lemma doc_event_call:
  assumes "zoo_documented Z zh view" "zv_events (view z) = e # es"
  obtains z' where "zoo_next_event Z z = Some (e, z')" "view z' = (view z)\<lparr>zv_events := es\<rparr>"
  using that documented_events [OF assms(1), of z] assms(2) by auto

text \<open>A weight fits the buffer of \<^verbatim>\<open>get\<close>.\<close>

lemma decimal_length: "n < 10 ^ Suc k \<Longrightarrow> length (decimal n) \<le> Suc k"
proof (induction k arbitrary: n)
  case 0
  then show ?case by (simp add: decimal.simps [of n])
next
  case (Suc k)
  then have "n div 10 < 10 ^ Suc k" by (simp add: div_less_iff_less_mult)
  then show ?case using Suc.IH [of "n div 10"] by (simp add: decimal.simps [of n])
qed

lemma weight_length: assumes "int_range i" shows "length (int_to_string i) \<le> 512"
proof -
  have "nat i < 10 ^ Suc 9" "nat (- i) < 10 ^ Suc 9" using assms by (auto simp: int_range_def)
  then have "length (decimal (nat i)) \<le> 10" "length (decimal (nat (- i))) \<le> 10" using decimal_length by fastforce+
  then show ?thesis by (simp add: int_to_string_def)
qed

text \<open>Refreshing from a tree that registrations made.\<close>

lemma decode_children:
  assumes "\<forall>c \<in> set sv. \<exists>ep. ep_child ep = c \<and> registered v svc ep"
  shows "\<exists>eps. map ep_child eps = sv \<and> (\<forall>ep \<in> set eps. registered v svc ep)"
proof -
  obtain f where "\<forall>c \<in> set sv. ep_child (f c) = c \<and> registered v svc (f c)" using bchoice [OF assms] by blast
  then show ?thesis by (intro exI [of _ "map f sv"]) (auto intro: map_idI)
qed

lemma real_refresh:
  assumes D: "zoo_documented Z zh view" and zh: "rz_zh (zk w) = zh" and svc: "svc_ok svc"
    and good: "good_service (view (service_of w)) svc"
  obtains z eps rc where "refresh (real_client Z stack) svc w = Inr (w\<lparr>zk := (zk w)\<lparr>rz_service := z\<rparr>, reg_cache := (reg_cache w)(svc \<mapsto> eps)\<rparr>)"
    "current (view (service_of w)) svc eps" "(rc, view z) = doc_watch (service_path svc) svc (view (service_of w))"
    "real_watch Z (service_path svc) svc (zk w) = (zk w)\<lparr>rz_service := z\<rparr>"
    "listed (real_kids Z ((zk w)\<lparr>rz_service := z\<rparr>)) (real_data Z stack ((zk w)\<lparr>rz_service := z\<rparr>)) svc eps" "list_all ep_valid eps"
proof -
  define r where "r = real_watch Z (service_path svc) svc (zk w)"
  have r: "rz_zh r = zh" "(zk w)\<lparr>rz_service := rz_service r\<rparr> = r" using zh by (simp_all add: r_def real_watch_def)
  obtain rc where rc: "(rc, view (rz_service r)) = doc_watch (service_path svc) svc (view (service_of w))"
    using doc_watch_call [OF D zh service_path_ok [OF svc]] unfolding r_def by blast
  then have same: "zv_data (view (rz_service r)) = zv_data (view (service_of w))" "zv_kids (view (rz_service r)) = zv_kids (view (service_of w))"
    by (auto simp: doc_watch_def split: if_splits)
  have m: "mset (real_kids Z r (service_path svc)) = mset (zv_kids (view (service_of w)) (service_path svc))"
    using doc_kids_call [OF D r(1) service_path_ok [OF svc]] good unfolding same by (auto simp: good_service_def split: if_splits)
  then have "\<forall>c \<in> set (real_kids Z r (service_path svc)). \<exists>ep. ep_child ep = c \<and> registered (view (service_of w)) svc ep"
    using good mset_eq_setD unfolding good_service_def by blast
  then obtain eps where eps: "map ep_child eps = real_kids Z r (service_path svc)" "\<forall>ep \<in> set eps. registered (view (service_of w)) svc ep"
    using decode_children by blast
  have v: "list_all ep_valid eps" using eps(2) by (auto simp: list_all_iff registered_def ep_ok_def)
  have "real_data Z stack r (ep_node svc ep) = int_to_string (ep_weight ep)" if "ep \<in> set eps" for ep
  proof -
    have e: "registered (view (service_of w)) svc ep" using that eps(2) by blast
    then have "int_range (ep_weight ep)" "list_all name_char (ep_host ep)" by (simp_all add: registered_def ep_ok_def ep_valid_def)
    then show ?thesis
      using e by (intro doc_get_call [OF D r(1) node_path_ok [OF svc]] weight_length) (simp_all add: registered_def same)
  qed
  then have l: "listed (real_kids Z r) (real_data Z stack r) svc eps" using eps(1) by (simp add: listed_def)
  have "refresh (real_client Z stack) svc w = Inr (w\<lparr>zk := r, reg_cache := (reg_cache w)(svc \<mapsto> eps)\<rparr>)"
    by (rule rr.refresh_listed [OF TrueI r_def [symmetric] l v])
  moreover have "current (view (service_of w)) svc eps" using eps m by (simp add: current_def)
  ultimately show thesis using that [where z = "rz_service r" and eps = eps and rc = rc, unfolded r(2)] rc r_def [symmetric] l v by blast
qed

section \<open>The registry as a machine\<close>

text \<open>
  A registry that starts on a tree other registries may have filled, and then its own
  operations, its notifications, and what other processes and the service do: registrations
  and removals elsewhere (an expired session removes its nodes too) and notifications about
  the session. \<open>refreshes\<close> is the discovery that throws because there is no endpoint. Another
  process acts between two of these steps, not in the middle of one.
\<close>

definition registry_init :: "('z, string) zoo_api \<Rightarrow> nat option \<Rightarrow> ('z \<Rightarrow> string zoo_view) \<Rightarrow> string \<Rightarrow> 'z real_zk registry_world \<Rightarrow> bool" where
  "registry_init Z zh view stack w \<longleftrightarrow>
     (\<exists>hosts strategy z r. real_new Z hosts kSessionTimeoutMs z = Inr r \<and> rz_zh r = zh \<and>
        (\<forall>svc. svc_ok svc \<longrightarrow> good_service (view (rz_service r)) svc) \<and>
        zv_watches (view (rz_service r)) = [] \<and> zv_events (view (rz_service r)) = [] \<and>
        real_registry_new Z stack hosts strategy z = Inr w)"

inductive registry_step :: "('z, string) zoo_api \<Rightarrow> ('z \<Rightarrow> string zoo_view) \<Rightarrow> string \<Rightarrow> 'z real_zk registry_world \<Rightarrow> 'z real_zk registry_world \<Rightarrow> bool"
  for Z view stack where
  registers: "svc_ok svc \<Longrightarrow> ep_ok ep \<Longrightarrow>
    reg_register_service (real_client Z stack) svc (ep_host ep) (ep_port ep) (ep_weight ep) w = Inr (b, w') \<Longrightarrow> registry_step Z view stack w w'"
| unregisters: "svc_ok svc \<Longrightarrow> ep_ok ep \<Longrightarrow>
    unregister_service (real_client Z stack) svc (ep_host ep) (ep_port ep) w = Inr (b, w') \<Longrightarrow> registry_step Z view stack w w'"
| discovers: "svc_ok svc \<Longrightarrow> discover (real_client Z stack) dist svc w = Inr (ep, w') \<Longrightarrow> registry_step Z view stack w w'"
| refreshes: "svc_ok svc \<Longrightarrow> refresh (real_client Z stack) svc w = Inr w' \<Longrightarrow> registry_step Z view stack w w'"
| notified: "registry_event Z stack w = Some (Inr w') \<Longrightarrow> registry_step Z view stack w w'"
| other_creates_service: "svc_ok svc \<Longrightarrow> view z' = snd (doc_create (service_path svc) [] (view (service_of w))) \<Longrightarrow>
    registry_step Z view stack w (set_service z' w)"
| other_registers: "svc_ok svc \<Longrightarrow> ep_ok ep \<Longrightarrow>
    view z' = snd (doc_create (ep_node svc ep) (int_to_string (ep_weight ep)) (view (service_of w))) \<Longrightarrow>
    registry_step Z view stack w (set_service z' w)"
| other_unregisters: "svc_ok svc \<Longrightarrow> ep_ok ep \<Longrightarrow> view z' = snd (doc_delete (ep_node svc ep) (view (service_of w))) \<Longrightarrow>
    registry_step Z view stack w (set_service z' w)"
| session_event: "t \<noteq> ZOO_CHILD_EVENT \<Longrightarrow>
    view z' = (view (service_of w))\<lparr>zv_events := zv_events (view (service_of w)) @ [(t, p, cb)]\<rparr> \<Longrightarrow>
    registry_step Z view stack w (set_service z' w)"

definition registry_inv :: "('z, string) zoo_api \<Rightarrow> nat option \<Rightarrow> ('z \<Rightarrow> string zoo_view) \<Rightarrow> 'z real_zk registry_world \<Rightarrow> bool" where
  "registry_inv Z zh view w \<longleftrightarrow> zoo_documented Z zh view \<longrightarrow> rz_zh (zk w) = zh \<and> live (view (service_of w)) (reg_cache w)"

lemma set_service_sel [simp]:
  "zk (set_service z w) = (zk w)\<lparr>rz_service := z\<rparr>" "reg_cache (set_service z w) = reg_cache w"
  "reg_lb (set_service z w) = reg_lb w"
  by (simp_all add: set_service_def)

lemma live_good: "live v cache \<Longrightarrow> svc_ok svc \<Longrightarrow> good_service v svc"
  by (simp add: live_def)

lemma registry_register_inv:
  assumes D: "zoo_documented Z zh view" and I: "rz_zh (zk w) = zh" "live (view (service_of w)) (reg_cache w)"
    and ok: "svc_ok svc" "ep_ok ep"
    and r: "reg_register_service (real_client Z stack) svc (ep_host ep) (ep_port ep) (ep_weight ep) w = Inr (b, w')"
  shows "rz_zh (zk w') = zh \<and> live (view (service_of w')) (reg_cache w')"
proof -
  have n: "list_all name_char (ep_host ep)" using ok(2) by (simp add: ep_ok_def)
  obtain z1 rc1 where 1: "zoo_create Z (rz_zh (zk w)) (c_str (service_path svc)) [] 0 (service_of w) = (rc1, z1)"
    "(rc1, view z1) = doc_create (service_path svc) [] (view (service_of w))"
    by (rule doc_create_call [OF D I(1) service_path_ok [OF ok(1)]])
  have z1: "rz_zh (zk (set_service z1 w)) = zh" "live (view z1) (reg_cache w)"
    using I(1) create_service_live [OF I(2) ok(1)] 1(2) [symmetric] by simp_all
  obtain z2 rc2 where 2: "zoo_create Z (rz_zh (zk (set_service z1 w))) (c_str (ep_node svc ep)) (int_to_string (ep_weight ep)) ZOO_EPHEMERAL
      (service_of (set_service z1 w)) = (rc2, z2)"
    "(rc2, view z2) = doc_create (ep_node svc ep) (int_to_string (ep_weight ep)) (view (service_of (set_service z1 w)))"
    by (rule doc_create_call [OF D z1(1) node_path_ok [OF ok(1) n]])
  have "live (view z2) (reg_cache w)" using create_endpoint_live [OF z1(2) ok] 2(2) [symmetric] by simp
  moreover have "w' = set_service z2 (set_service z1 w)"
    using r 1(1) 2(1) by (simp add: reg_register_service_def real_create_def real_create_ephemeral_def)
  ultimately show ?thesis using I(1) by simp
qed

lemma endpoint_unwatched:
  assumes "live v cache" "svc_ok svc" "ep_ok ep"
  shows "zv_kids v (ep_node svc ep) = []" "ep_node svc ep \<notin> fst ` set (zv_watches v)"
proof -
  show "zv_kids v (ep_node svc ep) = []" using assms by (simp add: live_def good_service_def)
  show "ep_node svc ep \<notin> fst ` set (zv_watches v)"
    using assms(1) node_not_service by (fastforce simp: live_def)
qed

lemma registry_unregister_inv:
  assumes D: "zoo_documented Z zh view" and I: "rz_zh (zk w) = zh" "live (view (service_of w)) (reg_cache w)"
    and ok: "svc_ok svc" "ep_ok ep"
    and r: "unregister_service (real_client Z stack) svc (ep_host ep) (ep_port ep) w = Inr (b, w')"
  shows "rz_zh (zk w') = zh \<and> live (view (service_of w')) (reg_cache w')"
proof -
  have n: "list_all name_char (ep_host ep)" using ok(2) by (simp add: ep_ok_def)
  obtain z rc where 1: "zoo_delete Z (rz_zh (zk w)) (c_str (ep_node svc ep)) (-1) (service_of w) = (rc, z)"
    "(rc, view z) = doc_delete (ep_node svc ep) (view (service_of w))"
    by (rule doc_delete_call [OF D I(1) node_path_ok [OF ok(1) n] endpoint_unwatched [OF I(2) ok]])
  have "live (view z) (reg_cache w)" using delete_endpoint_live [OF I(2) ok] 1(2) [symmetric] by simp
  moreover have "w' = set_service z w" using r 1(1) by (simp add: unregister_service_def real_remove_def)
  ultimately show ?thesis using I(1) by simp
qed

lemma registry_refresh_inv:
  assumes D: "zoo_documented Z zh view" and I: "rz_zh (zk w) = zh" "live (view (service_of w)) ((reg_cache w)(svc := None))" and ok: "svc_ok svc"
  shows "\<exists>w'. refresh (real_client Z stack) svc w = Inr w' \<and> rz_zh (zk w') = zh \<and> live (view (service_of w')) (reg_cache w') \<and>
    zv_data (view (service_of w')) = zv_data (view (service_of w)) \<and> zv_kids (view (service_of w')) = zv_kids (view (service_of w)) \<and>
    zv_events (view (service_of w')) = zv_events (view (service_of w))"
proof -
  from real_refresh [OF D I(1) ok live_good [OF I(2) ok], where stack = stack] obtain z eps rc where
    r: "refresh (real_client Z stack) svc w = Inr (w\<lparr>zk := (zk w)\<lparr>rz_service := z\<rparr>, reg_cache := (reg_cache w)(svc \<mapsto> eps)\<rparr>)"
      "current (view (service_of w)) svc eps" "(rc, view z) = doc_watch (service_path svc) svc (view (service_of w))" by metis
  have "live (view z) ((reg_cache w)(svc \<mapsto> eps))" by (rule refresh_live [OF I(2) ok r(2,3)])
  moreover have "zv_data (view z) = zv_data (view (service_of w))" "zv_kids (view z) = zv_kids (view (service_of w))"
    "zv_events (view z) = zv_events (view (service_of w))" using r(3) by (auto simp: doc_watch_def split: if_splits)
  ultimately show ?thesis using I(1) r(1) by simp
qed

text \<open>A notification is delivered without an exception, and changes nothing in the tree.\<close>

lemma registry_event_inv:
  assumes D: "zoo_documented Z zh view" and I: "rz_zh (zk w) = zh" "live (view (service_of w)) (reg_cache w)"
    and e: "zv_events (view (service_of w)) = ev # es"
  shows "\<exists>w'. registry_event Z stack w = Some (Inr w') \<and> rz_zh (zk w') = zh \<and> live (view (service_of w')) (reg_cache w') \<and>
    zv_data (view (service_of w')) = zv_data (view (service_of w)) \<and> zv_kids (view (service_of w')) = zv_kids (view (service_of w)) \<and>
    zv_events (view (service_of w')) = es"
proof -
  obtain t p cb where ev: "ev = (t, p, cb)" by (metis prod_cases3)
  obtain z where z: "zoo_next_event Z (service_of w) = Some (ev, z)" "view z = (view (service_of w))\<lparr>zv_events := es\<rparr>"
    by (rule doc_event_call [OF D e])
  have l: "live (view z) (if t = ZOO_CHILD_EVENT then (reg_cache w)(cb := None) else reg_cache w)"
    unfolding z(2) by (rule event_live [OF I(2)]) (simp add: e ev)
  have ok: "svc_ok cb" if "t = ZOO_CHILD_EVENT" using I(2) that unfolding live_def e ev by simp
  show ?thesis
  proof (cases "t = ZOO_CHILD_EVENT")
    case False
    then show ?thesis using l z I(1) ev by (simp add: registry_event_def real_event_def zk_watcher_def)
  next
    case True
    have "rz_zh (zk (set_service z w)) = zh" "live (view (service_of (set_service z w))) ((reg_cache (set_service z w))(cb := None))"
      using I(1) l True by simp_all
    from registry_refresh_inv [OF D this ok [OF True], of stack] show ?thesis
      using True z ev by (auto simp: registry_event_def real_event_def zk_watcher_def fire_refresh_def)
  qed
qed

lemma discover_inv:
  assumes D: "zoo_documented Z zh view" and I: "rz_zh (zk w) = zh" "live (view (service_of w)) (reg_cache w)"
    and ok: "svc_ok svc" and r: "discover (real_client Z stack) dist svc w = Inr (ep, w')"
  shows "rz_zh (zk w') = zh \<and> live (view (service_of w')) (reg_cache w')"
proof (cases "reg_cache w svc = None \<or> reg_cache w svc = Some []")
  case True
  from registry_refresh_inv [OF D I(1) live_forget [OF I(2)] ok, of stack] obtain w1 where
    1: "refresh (real_client Z stack) svc w = Inr w1" "rz_zh (zk w1) = zh" "live (view (service_of w1)) (reg_cache w1)" by blast
  then obtain lb where "w' = w1\<lparr>reg_lb := lb\<rparr>"
    using r True by (auto simp: discover_def Let_def map_sum_eq_Inr split: sum.splits prod.splits)
  then show ?thesis using 1 by simp
next
  case False
  then obtain eps where "reg_cache w svc = Some eps" "eps \<noteq> []" by (cases "reg_cache w svc") auto
  then obtain lb where "w' = w\<lparr>reg_lb := lb\<rparr>" using r discover_cached [of w svc eps "real_client Z stack" dist] by (auto simp: map_sum_eq_Inr)
  then show ?thesis using I by simp
qed

lemma registry_step_inv: "registry_inv Z zh view w \<Longrightarrow> registry_step Z view stack w w' \<Longrightarrow> registry_inv Z zh view w'"
proof (rotate_tac, unfold registry_inv_def, intro impI, induction rule: registry_step.induct)
  case (registers svc ep w b w')
  then show ?case by (meson registry_register_inv)
next
  case (unregisters svc ep w b w')
  then show ?case by (meson registry_unregister_inv)
next
  case (discovers svc dist w ep w')
  then show ?case by (meson discover_inv)
next
  case (refreshes svc w w')
  then show ?case
    using registry_refresh_inv [of Z zh view w svc stack] live_forget [of "view (service_of w)" "reg_cache w" svc] by auto
next
  case (notified w w')
  have D: "zoo_documented Z zh view" and I: "rz_zh (zk w) = zh" "live (view (service_of w)) (reg_cache w)" using notified by auto
  obtain ev es where "zv_events (view (service_of w)) = ev # es"
    using notified(1) documented_events [OF D, of "service_of w"]
    by (cases "zv_events (view (service_of w))") (auto simp: registry_event_def real_event_def)
  from registry_event_inv [OF D I this, of stack] show ?case using notified(1) by auto
next
  case (other_creates_service svc z' w)
  then show ?case using create_service_live by simp
next
  case (other_registers svc ep z' w)
  then show ?case using create_endpoint_live by simp
next
  case (other_unregisters svc ep z' w)
  then show ?case using delete_endpoint_live by simp
next
  case (session_event t z' w p cb)
  let ?v = "view (service_of w)"
  have "live (?v\<lparr>zv_events := zv_events ?v @ [(t, p, cb)]\<rparr>) (reg_cache w)"
  proof (rule live_same)
    show "live ?v (reg_cache w)" using session_event by simp
  qed (use session_event in \<open>auto simp: same_service_def pending_def live_def\<close>)
  then show ?case using session_event by simp
qed

lemma registry_init_inv: assumes "registry_init Z zh view stack w" shows "registry_inv Z zh view w"
  unfolding registry_inv_def
proof
  assume D: "zoo_documented Z zh view"
  obtain hosts strategy z r where i: "real_new Z hosts kSessionTimeoutMs z = Inr r" "rz_zh r = zh"
      "\<forall>svc. svc_ok svc \<longrightarrow> good_service (view (rz_service r)) svc"
      "zv_watches (view (rz_service r)) = []" "zv_events (view (rz_service r)) = []"
      "real_registry_new Z stack hosts strategy z = Inr w"
    using assms by (auto simp: registry_init_def)
  let ?w = "\<lparr>zk = r, reg_lb = make_load_balancer strategy, reg_cache = Map.empty\<rparr>"
  have zw: "rz_zh (zk ?w) = zh" using i(2) by simp
  obtain z1 rc where 1: "zoo_create Z (rz_zh (zk ?w)) (c_str kRootPath) [] 0 (service_of ?w) = (rc, z1)"
    "(rc, view z1) = doc_create kRootPath [] (view (service_of ?w))"
    by (rule doc_create_call [OF D zw root_path_ok])
  have w: "w = set_service z1 ?w"
    using i(1,6) 1(1) by (simp add: real_registry_new_def registry_new_def real_create_def)
  have "split_path kRootPath = None" by code_simp
  then have v: "zv_kids (view z1) = zv_kids (view (rz_service r))" "zv_watches (view z1) = []" "zv_events (view z1) = []"
    "\<And>p. p \<noteq> kRootPath \<Longrightarrow> zv_data (view z1) p = zv_data (view (rz_service r)) p"
    using 1(2) i(4,5) by (auto simp: doc_create_def view_put_def Let_def split: if_splits)
  have "same_service (view (rz_service r)) (view z1) svc" for svc
    using service_not_root [of svc] node_not_root by (simp add: same_service_def v)
  moreover have "zv_data (view z1) kRootPath \<noteq> None"
    using 1(2) by (auto simp: doc_create_def view_put_def \<open>split_path kRootPath = None\<close> Let_def split: if_splits)
  ultimately have "live (view z1) Map.empty" using same_good i(3) unfolding live_def v by fastforce
  then show "rz_zh (zk w) = zh \<and> live (view (service_of w)) (reg_cache w)" using w i(2) by simp
qed

interpretation rg: invariant_system "registry_init Z zh view stack" "registry_step Z view stack" "registry_inv Z zh view" for Z zh view stack
  by unfold_locales (fact registry_init_inv, fact registry_step_inv)

section \<open>Discovering and delivering\<close>

text \<open>A discovery that is the balancer's choice from a list of exactly the given endpoints.\<close>

definition discovers_among :: "('z, string) zoo_api \<Rightarrow> string \<Rightarrow> int_dist \<Rightarrow> string \<Rightarrow> 'z real_zk registry_world \<Rightarrow> service_endpoint set \<Rightarrow> bool" where
  "discovers_among Z stack dist svc w E \<longleftrightarrow>
     (\<exists>eps. distinct eps \<and> set eps = E \<and>
        map_sum id fst (discover (real_client Z stack) dist svc w) = map_sum LbError fst (lb_select dist (reg_lb w) eps))"

lemma map_sum_lb_fst: "map_sum id fst (map_sum f (\<lambda>(ep, lb). (ep, g lb)) s) = map_sum f fst s"
  by (cases s) auto

lemma discover_current:
  assumes D: "zoo_documented Z zh view" and I: "rz_zh (zk w) = zh" "live (view (service_of w)) (reg_cache w)"
    and ok: "svc_ok svc" and q: "\<not> pending (view (service_of w)) svc"
  shows "discovers_among Z stack dist svc w {ep. registered (view (service_of w)) svc ep}"
proof (cases "reg_cache w svc = None \<or> reg_cache w svc = Some []")
  case True
  from real_refresh [OF D I(1) ok live_good [OF I(2) ok], where stack = stack] obtain z eps where
    c: "current (view (service_of w)) svc eps" and r: "real_watch Z (service_path svc) svc (zk w) = (zk w)\<lparr>rz_service := z\<rparr>"
      "listed (real_kids Z ((zk w)\<lparr>rz_service := z\<rparr>)) (real_data Z stack ((zk w)\<lparr>rz_service := z\<rparr>)) svc eps" "list_all ep_valid eps"
    by metis
  show ?thesis
    unfolding discovers_among_def rr.discover_refresh [OF TrueI r True]
    using current_set [OF c live_good [OF I(2) ok]] by (intro exI [of _ eps]) (simp add: map_sum_lb_fst)
next
  case False
  then obtain eps where e: "reg_cache w svc = Some eps" "eps \<noteq> []" by (cases "reg_cache w svc") auto
  then have c: "current (view (service_of w)) svc eps" using I(2) q unfolding live_def by blast
  show ?thesis
    unfolding discovers_among_def discover_cached [OF e]
    using current_set [OF c live_good [OF I(2) ok]] by (intro exI [of _ eps]) (simp add: map_sum_lb_fst)
qed

abbreviation delivers :: "('z, string) zoo_api \<Rightarrow> string \<Rightarrow> 'z real_zk registry_world \<Rightarrow> 'z real_zk registry_world \<Rightarrow> bool" where
  "delivers Z stack w w' \<equiv> registry_event Z stack w = Some (Inr w')"

lemma deliver_all:
  assumes D: "zoo_documented Z zh view" and I: "rz_zh (zk w) = zh" "live (view (service_of w)) (reg_cache w)"
  shows "\<exists>w'. (delivers Z stack)\<^sup>*\<^sup>* w w' \<and> registry_event Z stack w' = None \<and> rz_zh (zk w') = zh \<and>
    live (view (service_of w')) (reg_cache w') \<and> zv_events (view (service_of w')) = [] \<and>
    registered (view (service_of w')) = registered (view (service_of w))"
  using I
proof (induction "zv_events (view (service_of w))" arbitrary: w)
  case Nil
  then have "zoo_next_event Z (service_of w) = None" using documented_events [OF D, of "service_of w"] by simp
  then have "registry_event Z stack w = None" by (simp add: registry_event_def real_event_def)
  then show ?case using Nil by (intro exI [of _ w]) simp
next
  case (Cons ev es)
  from registry_event_inv [OF D Cons.prems Cons.hyps(2) [symmetric], of stack] obtain w1 where
    1: "delivers Z stack w w1" "rz_zh (zk w1) = zh" "live (view (service_of w1)) (reg_cache w1)"
      "zv_data (view (service_of w1)) = zv_data (view (service_of w))" "zv_kids (view (service_of w1)) = zv_kids (view (service_of w))"
      "zv_events (view (service_of w1)) = es" by blast
  have "registered (view (service_of w1)) = registered (view (service_of w))" by (simp add: fun_eq_iff registered_def 1(4,5))
  then show ?case
    using Cons.hyps(1) [OF 1(6) [symmetric] 1(2,3)] converse_rtranclp_into_rtranclp [of "delivers Z stack", OF 1(1)] by metis
qed

text \<open>What the calls of a registration and of a removal do to the registered endpoints.\<close>

lemma create_service_same:
  assumes "svc_ok svc0" shows "same_service v (snd (doc_create (service_path svc0) [] v)) svc"
proof -
  have "ep_node svc ep \<noteq> service_path svc0" for ep by (rule node_not_service [OF assms])
  then show ?thesis
    using service_not_root [of svc] node_not_root
    by (simp add: same_service_def doc_create_def view_put_def split_service_path [OF assms] Let_def)
qed

lemma create_endpoint_registered:
  assumes "ep_ok ep" "svc_ok svc" "zv_data v (ep_node svc ep) = None" "zv_data v (service_path svc) \<noteq> None"
  shows "fst (doc_create (ep_node svc ep) (int_to_string (ep_weight ep)) v) = ZOK"
    "{e. registered (snd (doc_create (ep_node svc ep) (int_to_string (ep_weight ep)) v)) svc e} = insert ep {e. registered v svc e}"
proof -
  let ?v = "view_put (ep_node svc ep) (int_to_string (ep_weight ep)) v"
  have c: "doc_create (ep_node svc ep) (int_to_string (ep_weight ep)) v = (ZOK, ?v)"
    using assms(3,4) by (auto simp: doc_create_def ep_ok_split [OF assms(1)])
  have v: "zv_kids ?v (service_path svc) = zv_kids v (service_path svc) @ [ep_child ep]"
    "zv_data ?v = (zv_data v)(ep_node svc ep \<mapsto> int_to_string (ep_weight ep))"
    by (simp_all add: view_put_def ep_ok_split [OF assms(1)] Let_def)
  have "e = ep" if "registered ?v svc e" "ep_child e = ep_child ep" for e
  proof -
    have h: "ep_host e = ep_host ep" "ep_port e = ep_port ep" using ep_child_inj [OF that(2)] by simp_all
    then have "int_to_string (ep_weight e) = int_to_string (ep_weight ep)" using that(1) by (simp add: registered_def v)
    then have "ep_weight e = ep_weight ep"
      by (intro weight_string_inj) (use that(1) assms(1) in \<open>simp_all add: registered_def ep_ok_def ep_valid_def\<close>)
    then show ?thesis using h by (cases e; cases ep) simp
  qed
  moreover have "registered ?v svc e \<longleftrightarrow> registered v svc e" if "ep_child e \<noteq> ep_child ep" for e
    using that by (simp add: registered_def v node_path_eq)
  moreover have "registered ?v svc ep" using assms(1) by (simp add: registered_def v)
  moreover have "ep_child e \<noteq> ep_child ep" if "registered v svc e" for e
    using that assms(3) by (auto simp: registered_def node_path_child)
  ultimately show "fst (doc_create (ep_node svc ep) (int_to_string (ep_weight ep)) v) = ZOK"
    "{e. registered (snd (doc_create (ep_node svc ep) (int_to_string (ep_weight ep)) v)) svc e} = insert ep {e. registered v svc e}"
    unfolding c by auto
qed

lemma delete_endpoint_registered:
  assumes "ep_ok ep" "zv_data v (ep_node svc ep) \<noteq> None"
  shows "fst (doc_delete (ep_node svc ep) v) = ZOK"
    "{e. registered (snd (doc_delete (ep_node svc ep) v)) svc e} = {e. registered v svc e \<and> ep_child e \<noteq> ep_child ep}"
proof -
  let ?v = "view_del (ep_node svc ep) v"
  have c: "doc_delete (ep_node svc ep) v = (ZOK, ?v)" using assms(2) by (auto simp: doc_delete_def)
  have v: "zv_kids ?v (service_path svc) = filter (\<lambda>k. k \<noteq> ep_child ep) (zv_kids v (service_path svc))"
    "zv_data ?v = (zv_data v)(ep_node svc ep := None)"
    by (simp_all add: view_del_def ep_ok_split [OF assms(1)] Let_def)
  show "fst (doc_delete (ep_node svc ep) v) = ZOK"
    "{e. registered (snd (doc_delete (ep_node svc ep) v)) svc e} = {e. registered v svc e \<and> ep_child e \<noteq> ep_child ep}"
    unfolding c by (auto simp: registered_def v node_path_eq)
qed

lemma real_create_service:
  assumes D: "zoo_documented Z zh view" and I: "rz_zh (zk w) = zh" "live (view (service_of w)) (reg_cache w)" and ok: "svc_ok svc"
  obtains z1 b where "real_create Z (service_path svc) [] w = Inr (b, set_service z1 w)" "rz_zh (zk (set_service z1 w)) = zh"
    "same_service (view (service_of w)) (view z1) svc" "zv_data (view z1) (service_path svc) \<noteq> None"
proof -
  obtain z1 rc1 where 1: "zoo_create Z (rz_zh (zk w)) (c_str (service_path svc)) [] 0 (service_of w) = (rc1, z1)"
    "(rc1, view z1) = doc_create (service_path svc) [] (view (service_of w))"
    by (rule doc_create_call [OF D I(1) service_path_ok [OF ok]])
  have v1: "view z1 = snd (doc_create (service_path svc) [] (view (service_of w)))" using 1(2) [symmetric] by simp
  have "same_service (view (service_of w)) (view z1) svc" unfolding v1 by (rule create_service_same [OF ok])
  moreover have "zv_data (view z1) (service_path svc) \<noteq> None"
    using I(2) unfolding v1 by (auto simp: doc_create_def view_put_def split_service_path [OF ok] live_def Let_def)
  moreover have "real_create Z (service_path svc) [] w = Inr (rc1 = ZOK \<or> rc1 = ZNODEEXISTS, set_service z1 w)"
    using 1(1) by (simp add: real_create_def)
  moreover have "rz_zh (zk (set_service z1 w)) = zh" using I(1) by simp
  ultimately show thesis using that by blast
qed

lemma real_create_endpoint:
  assumes D: "zoo_documented Z zh view" and zw: "rz_zh (zk w) = zh" and ok: "svc_ok svc" "ep_ok ep"
  obtains z where "real_create_ephemeral Z (ep_node svc ep) d w =
      Inr (fst (doc_create (ep_node svc ep) d (view (service_of w))) \<in> {ZOK, ZNODEEXISTS}, set_service z w)"
    "view z = snd (doc_create (ep_node svc ep) d (view (service_of w)))"
proof -
  have n: "list_all name_char (ep_host ep)" using ok(2) by (simp add: ep_ok_def)
  obtain z rc where 2: "zoo_create Z (rz_zh (zk w)) (c_str (ep_node svc ep)) d ZOO_EPHEMERAL (service_of w) = (rc, z)"
    "(rc, view z) = doc_create (ep_node svc ep) d (view (service_of w))"
    by (rule doc_create_call [OF D zw node_path_ok [OF ok(1) n]])
  then show thesis using that 2(2) [symmetric] by (simp add: real_create_ephemeral_def)
qed

lemma real_register_effect:
  assumes D: "zoo_documented Z zh view" and I: "rz_zh (zk w) = zh" "live (view (service_of w)) (reg_cache w)"
    and ok: "svc_ok svc" "ep_ok ep" and new: "zv_data (view (service_of w)) (ep_node svc ep) = None"
  shows "\<exists>w1. reg_register_service (real_client Z stack) svc (ep_host ep) (ep_port ep) (ep_weight ep) w = Inr (True, w1) \<and>
    {e. registered (view (service_of w1)) svc e} = insert ep {e. registered (view (service_of w)) svc e}"
proof -
  obtain z1 b where 1: "real_create Z (service_path svc) [] w = Inr (b, set_service z1 w)" "rz_zh (zk (set_service z1 w)) = zh"
    "same_service (view (service_of w)) (view z1) svc" "zv_data (view z1) (service_path svc) \<noteq> None"
    by (rule real_create_service [OF D I ok(1)])
  have e: "zv_data (view z1) (ep_node svc ep) = None" using 1(3) new ok(2) by (simp add: same_service_def)
  note r = create_endpoint_registered [OF ok(2,1) e 1(4)]
  from real_create_endpoint [OF D 1(2) ok, of "int_to_string (ep_weight ep)"] obtain z2 where
    "real_create_ephemeral Z (ep_node svc ep) (int_to_string (ep_weight ep)) (set_service z1 w) = Inr (True, set_service z2 (set_service z1 w))"
    "view z2 = snd (doc_create (ep_node svc ep) (int_to_string (ep_weight ep)) (view z1))"
    using r(1) by auto
  then show ?thesis using 1(1) r(2) same_registered [OF 1(3)] by (simp add: reg_register_service_def)
qed

text \<open>Registering again reports success and keeps the weight that was there.\<close>

lemma reregister_keeps_weight:
  assumes D: "zoo_documented Z zh view" and I: "rz_zh (zk w) = zh" "live (view (service_of w)) (reg_cache w)"
    and ok: "svc_ok svc" and old: "registered (view (service_of w)) svc ep"
  shows "\<exists>w1. reg_register_service (real_client Z stack) svc (ep_host ep) (ep_port ep) weight w = Inr (True, w1) \<and>
    registered (view (service_of w1)) svc = registered (view (service_of w)) svc"
proof -
  have e: "ep_ok ep" "zv_data (view (service_of w)) (ep_node svc ep) \<noteq> None" using old by (simp_all add: registered_def)
  obtain z1 b where 1: "real_create Z (service_path svc) [] w = Inr (b, set_service z1 w)" "rz_zh (zk (set_service z1 w)) = zh"
    "same_service (view (service_of w)) (view z1) svc" "zv_data (view z1) (service_path svc) \<noteq> None"
    by (rule real_create_service [OF D I ok])
  have "doc_create (ep_node svc ep) d (view z1) = (ZNODEEXISTS, view z1)" for d
    using 1(3) e by (simp add: same_service_def doc_create_def)
  with real_create_endpoint [OF D 1(2) ok e(1), of "int_to_string weight"] obtain z2 where
    "real_create_ephemeral Z (ep_node svc ep) (int_to_string weight) (set_service z1 w) = Inr (True, set_service z2 (set_service z1 w))"
    "view z2 = view z1" by auto
  then show ?thesis using 1(1) same_registered [OF 1(3)] by (simp add: reg_register_service_def fun_eq_iff)
qed

lemma real_unregister_effect:
  assumes D: "zoo_documented Z zh view" and I: "rz_zh (zk w) = zh" "live (view (service_of w)) (reg_cache w)"
    and ok: "svc_ok svc" and r: "registered (view (service_of w)) svc ep"
  shows "\<exists>w1. unregister_service (real_client Z stack) svc (ep_host ep) (ep_port ep) w = Inr (True, w1) \<and>
    {e. registered (view (service_of w1)) svc e} = {e. registered (view (service_of w)) svc e \<and> ep_child e \<noteq> ep_child ep}"
proof -
  have e: "ep_ok ep" "list_all name_char (ep_host ep)" "zv_data (view (service_of w)) (ep_node svc ep) \<noteq> None"
    using r by (simp_all add: registered_def ep_ok_def)
  obtain z rc where 1: "zoo_delete Z (rz_zh (zk w)) (c_str (ep_node svc ep)) (-1) (service_of w) = (rc, z)"
    "(rc, view z) = doc_delete (ep_node svc ep) (view (service_of w))"
    by (rule doc_delete_call [OF D I(1) node_path_ok [OF ok e(2)] endpoint_unwatched [OF I(2) ok e(1)]])
  then show ?thesis
    using delete_endpoint_registered [OF e(1,3)] 1(2) [symmetric] by (simp add: unregister_service_def real_remove_def)
qed

section \<open>A concrete service\<close>

text \<open>A service whose state is the view itself.\<close>

definition demo_zoo :: "(string zoo_view, string) zoo_api" where
  "demo_zoo =
     \<lparr>zookeeper_init = (\<lambda>hosts timeout v. (Some 1, v)), zookeeper_close = (\<lambda>zh v. v), zoo_state = (\<lambda>zh v. ZOO_CONNECTED_STATE),
      zoo_create = (\<lambda>zh p d f v. doc_create p d v),
      zoo_get = (\<lambda>zh p buf n v. case zv_data v p of None \<Rightarrow> (ZNONODE, buf, n) | Some d \<Rightarrow> (ZOK, d, int (length d))),
      zoo_get_children = (\<lambda>zh p v. if zv_data v p = None then (ZNONODE, []) else (ZOK, zv_kids v p)),
      zoo_wget_children = (\<lambda>zh p cb v. case doc_watch p cb v of (rc, v') \<Rightarrow> ((rc, []), v')),
      zoo_delete = (\<lambda>zh p version v. doc_delete p v),
      zoo_next_event = (\<lambda>v. case zv_events v of [] \<Rightarrow> None | e # es \<Rightarrow> Some (e, v\<lparr>zv_events := es\<rparr>))\<rparr>"

lemma demo_zoo_documented: "zoo_documented demo_zoo (Some 1) (\<lambda>v. v)"
  unfolding zoo_documented_def by (auto simp: demo_zoo_def split: prod.split list.split)

definition demo_view :: "string zoo_view" where
  "demo_view = \<lparr>zv_data = Map.empty, zv_kids = (\<lambda>p. []), zv_watches = [], zv_events = []\<rparr>"

text \<open>A new registry; then other processes register an endpoint, it is discovered, and a second one is registered.\<close>

definition demo_reg0 :: "string zoo_view real_zk registry_world" where
  "demo_reg0 = (case real_registry_new demo_zoo [] ''zk:2181'' RoundRobin demo_view of Inr w \<Rightarrow> w | Inl e \<Rightarrow> undefined)"

definition demo_put :: "service_endpoint \<Rightarrow> string zoo_view real_zk registry_world \<Rightarrow> string zoo_view real_zk registry_world" where
  "demo_put ep w = set_service (snd (doc_create (ep_node ''Calc'' ep) (int_to_string (ep_weight ep)) (service_of w))) w"

definition demo_reg1 :: "string zoo_view real_zk registry_world" where
  "demo_reg1 = demo_put ep_a (set_service (snd (doc_create (service_path ''Calc'') [] (service_of demo_reg0))) demo_reg0)"

definition demo_reg2 :: "string zoo_view real_zk registry_world" where
  "demo_reg2 = (case discover (real_client demo_zoo []) (\<lambda>a b. a) ''Calc'' demo_reg1 of Inr (ep, w) \<Rightarrow> w | Inl e \<Rightarrow> demo_reg1)"

lemma demo_names: "svc_ok ''Calc''" "ep_ok ep_a" "ep_ok ep_b"
  by (simp_all add: name_ok_def name_char_def ep_ok_def ep_valid_def int_range_def demo_eps)

lemma demo_runs:
  "isl (real_registry_new demo_zoo [] ''zk:2181'' RoundRobin demo_view) = False"
  "isl (discover (real_client demo_zoo []) (\<lambda>a b. a) ''Calc'' demo_reg1) = False"
  "reg_cache demo_reg2 ''Calc'' = Some [ep_a]"
  "zv_kids (service_of (demo_put ep_b demo_reg2)) (service_path ''Calc'') = [ep_child ep_a, ep_child ep_b]"
  "zv_data (service_of (demo_put ep_b demo_reg2)) (ep_node ''Calc'' ep_b) = Some (int_to_string (ep_weight ep_b))"
  "zv_data (service_of demo_reg0) (ep_node ''Calc'' ep_a) = None"
  by code_simp+

lemma demo_reg_reachable:
  "reachable (registry_init demo_zoo (Some 1) (\<lambda>v. v) []) (registry_step demo_zoo (\<lambda>v. v) []) (demo_put ep_b demo_reg2)"
  (is "reachable ?i ?s _")
proof -
  have "?i demo_reg0"
    unfolding registry_init_def demo_reg0_def
    by (rule exI [of _ "''zk:2181''"], rule exI [of _ RoundRobin], rule exI [of _ demo_view])
      (use demo_runs(1) in \<open>auto simp: real_new_def demo_zoo_def demo_view_def good_service_def split: sum.split\<close>)
  then have "reachable ?i ?s demo_reg0" by (rule reach_init)
  moreover have "?s demo_reg0 (set_service (snd (doc_create (service_path ''Calc'') [] (service_of demo_reg0))) demo_reg0)"
    by (rule registry_step.other_creates_service [OF demo_names(1)]) simp
  moreover have put: "?s w (demo_put ep w)" if "ep_ok ep" for w ep
    unfolding demo_put_def by (rule registry_step.other_registers [OF demo_names(1) that]) simp
  ultimately have "reachable ?i ?s demo_reg1" unfolding demo_reg1_def using demo_names(2) by (meson reach_step)
  moreover obtain ep where "discover (real_client demo_zoo []) (\<lambda>a b. a) ''Calc'' demo_reg1 = Inr (ep, demo_reg2)"
    using demo_runs(2) by (cases "discover (real_client demo_zoo []) (\<lambda>a b. a) ''Calc'' demo_reg1") (auto simp: demo_reg2_def)
  then have "?s demo_reg1 demo_reg2" by (rule registry_step.discovers [OF demo_names(1)])
  ultimately show ?thesis using put [OF demo_names(3)] by (meson reach_step)
qed

section \<open>Properties\<close>



text \<open>
  C19. Registering and removing on a ZooKeeper service that behaves as documented: when no node
  of that name exists, \<^verbatim>\<open>register_service\<close> returns true and adds exactly that endpoint, with its weight,
  to the registered ones; \<^verbatim>\<open>unregister_service\<close> then returns true and restores them.
\<close>

theorem real_register_roundtrip:
  assumes "zoo_documented Z zh view" "reachable (registry_init Z zh view stack) (registry_step Z view stack) w" "svc_ok svc" "ep_ok ep"
    "zv_data (view (service_of w)) (ep_node svc ep) = None"
  shows "\<exists>w1 w2. reg_register_service (real_client Z stack) svc (ep_host ep) (ep_port ep) (ep_weight ep) w = Inr (True, w1) \<and>
    {e. registered (view (service_of w1)) svc e} = insert ep {e. registered (view (service_of w)) svc e} \<and>
    unregister_service (real_client Z stack) svc (ep_host ep) (ep_port ep) w1 = Inr (True, w2) \<and>
    {e. registered (view (service_of w2)) svc e} = {e. registered (view (service_of w)) svc e}"
proof -
  have I: "rz_zh (zk w) = zh" "live (view (service_of w)) (reg_cache w)"
    using rg.reachable_inv [OF assms(2)] assms(1) by (auto simp: registry_inv_def)
  obtain w1 where 1: "reg_register_service (real_client Z stack) svc (ep_host ep) (ep_port ep) (ep_weight ep) w = Inr (True, w1)"
    "{e. registered (view (service_of w1)) svc e} = insert ep {e. registered (view (service_of w)) svc e}"
    using real_register_effect [OF assms(1) I assms(3-5)] by blast
  have I1: "rz_zh (zk w1) = zh" "live (view (service_of w1)) (reg_cache w1)"
    using registry_register_inv [OF assms(1) I assms(3,4) 1(1)] by blast+
  have "registered (view (service_of w1)) svc ep" using 1(2) by blast
  from real_unregister_effect [OF assms(1) I1 assms(3) this, of stack] obtain w2 where
    2: "unregister_service (real_client Z stack) svc (ep_host ep) (ep_port ep) w1 = Inr (True, w2)"
      "{e. registered (view (service_of w2)) svc e} = {e. registered (view (service_of w1)) svc e \<and> ep_child e \<noteq> ep_child ep}" by blast
  have "ep_child e \<noteq> ep_child ep" if "registered (view (service_of w)) svc e" for e
    using that assms(5) by (auto simp: registered_def node_path_child)
  moreover have "registered (view (service_of w1)) svc e \<longleftrightarrow> e = ep \<or> registered (view (service_of w)) svc e" for e
    using 1(2) by (simp add: set_eq_iff)
  ultimately have "{e. registered (view (service_of w2)) svc e} = {e. registered (view (service_of w)) svc e}"
    unfolding 2(2) by auto
  then show ?thesis using 1 2(1) by blast
qed

theorem real_register_roundtrip_witness:
  "\<exists>w1 w2. reg_register_service (real_client demo_zoo []) ''Calc'' ''c'' 3 7 (demo_put ep_b demo_reg2) = Inr (True, w1) \<and>
     registered (service_of w1) ''Calc'' \<lparr>ep_host = ''c'', ep_port = 3, ep_weight = 7\<rparr> \<and>
     unregister_service (real_client demo_zoo []) ''Calc'' ''c'' 3 w1 = Inr (True, w2)"
proof -
  let ?e = "\<lparr>ep_host = ''c'', ep_port = 3 :: u16, ep_weight = 7\<rparr>"
  have "ep_ok ?e" by (simp add: ep_ok_def ep_valid_def name_char_def int_range_def)
  moreover have "zv_data (service_of (demo_put ep_b demo_reg2)) (ep_node ''Calc'' ?e) = None"
    unfolding service_endpoint.select_convs by code_simp
  ultimately obtain w1 w2 where
    w: "reg_register_service (real_client demo_zoo []) ''Calc'' (ep_host ?e) (ep_port ?e) (ep_weight ?e) (demo_put ep_b demo_reg2) = Inr (True, w1)"
      "{e. registered (service_of w1) ''Calc'' e} = insert ?e {e. registered (service_of (demo_put ep_b demo_reg2)) ''Calc'' e}"
      "unregister_service (real_client demo_zoo []) ''Calc'' (ep_host ?e) (ep_port ?e) w1 = Inr (True, w2)"
    using real_register_roundtrip [OF demo_zoo_documented demo_reg_reachable demo_names(1), of ?e] by blast
  have "registered (service_of w1) ''Calc'' ?e" using w(2) by blast
  then show ?thesis using w(1,3) unfolding service_endpoint.select_convs by blast
qed

end
