(* ===== verification/Server_Lifetime.thy ===== *)
theory Server_Lifetime
  imports Rpc_Server
begin

text \<open>
  The beginning and the end of \<^verbatim>\<open>rpc/rpc_server.cpp\<close>'s server: its constructor when a system call fails,
  and the destructors of \<^verbatim>\<open>RpcServer\<close>, \<^verbatim>\<open>ThreadPool\<close>, \<^verbatim>\<open>TcpServer\<close>,
  \<^verbatim>\<open>EventLoop\<close>, \<^verbatim>\<open>TcpConnection\<close> and \<^verbatim>\<open>Channel\<close> in the order C++ runs them, with their assertions, and the
  types of the objects they meet: what every connection of a reachable server looks like.
\<close>

section \<open>The destructor\<close>

text \<open>The pool's destructor has stored \<^verbatim>\<open>stop_\<close>.\<close>

definition stopping :: "'m rpc_world \<Rightarrow> 'm rpc_world" where
  "stopping w = (loop_quit w)\<lparr>worker_pool := (worker_pool w)\<lparr>tp_stop := True\<rparr>\<rparr>"

text \<open>
  \<^verbatim>\<open>~RpcServer\<close> calls \<^verbatim>\<open>quit\<close>; then the members go, the last declared first: the worker pool, whose
  workers finish every task before they are joined (\<open>acts\<close> is their schedule), the TCP
  server, and the event loop: its body, the closures nobody will run, then the wake-up channel and the poller.
\<close>

definition rpc_server_destroy :: "rpc_env \<Rightarrow> work_action list \<Rightarrow> u64 list \<Rightarrow> 'm rpc_world \<Rightarrow> 'm rpc_world option" where
  "rpc_server_destroy E acts ids w =
     do { w1 \<leftarrow> fold_cb (work_act E) acts (stopping w);
          w2 \<leftarrow> (if idle_workers w1 then tcp_server_destroy rpc_fcid (rpc_cbs E) ids w1 else None);
          (wakeup_fd, w3) \<leftarrow> event_loop_destroy w2;
          w4 \<leftarrow> destroy_conns (held_ids rpc_fcid w3) (log_event (ClosedFd wakeup_fd) w3);
          epfd \<leftarrow> loop_members_destroy (the_loop w4);
          Some (log_event (ClosedFd epfd) w4) }"

section \<open>Destroying connections\<close>

text \<open>Every connection of the world has stopped watching.\<close>

definition unwatched :: "('x, 'w) server_world_scheme \<Rightarrow> u64 set \<Rightarrow> bool" where
  "unwatched w D \<longleftrightarrow> (\<forall>cid \<in> D. \<exists>c. conns w cid = Some c \<and> is_none_event (tc_channel c))"

lemma destroy_conns_unwatched:
  assumes "unwatched w (set ids)"
  shows "destroy_conns ids w =
    Some (w\<lparr>net_log := net_log w @ map (\<lambda>cid. ClosedFd (tc_sockfd (the (conns w cid)))) ids\<rparr>)"
  using assms
proof (induction ids arbitrary: w)
  case (Cons cid ids)
  obtain c where c: "conns w cid = Some c" "is_none_event (tc_channel c)" using Cons.prems by (auto simp: unwatched_def)
  have "destroy_conns ids (log_event (ClosedFd (tc_sockfd c)) w) =
      Some (w\<lparr>net_log := (net_log w @ [ClosedFd (tc_sockfd c)]) @ map (\<lambda>cid. ClosedFd (tc_sockfd (the (conns w cid)))) ids\<rparr>)"
    using Cons.IH [of "log_event (ClosedFd (tc_sockfd c)) w"] Cons.prems by (simp add: unwatched_def log_event_def)
  then show ?case using c by (simp add: destroy_conns_def tcp_connection_destroy_def channel_destroy_def)
qed (simp add: destroy_conns_def)

lemma connection_destroyed_effect:
  assumes u: "conn_cb u = print_only" and w: "is_in_loop_thread w" "conns w cid = Some c"
  shows "\<exists>c' p. connection_destroyed (server_cbs u) cid w =
      Some (w\<lparr>conns := (conns w)(cid \<mapsto> c'), the_loop := (the_loop w)\<lparr>loop_poller := p\<rparr>,
              net_log := net_log w @ (if tc_state c = kConnected then [ConnectionCb cid kDisconnected] else [])\<rparr>) \<and>
    is_none_event (tc_channel c') \<and> tc_sockfd c' = tc_sockfd c \<and> tc_state c' \<noteq> kConnected \<and>
    p_epfd p = p_epfd (loop_poller (the_loop w))"
proof (cases "tc_state c = kConnected")
  case False
  obtain ch p where r: "channel_remove (tc_channel c) (loop_poller (the_loop w)) = (ch, p)" by fastforce
  show ?thesis
    using False w channel_remove_id(3,6) [OF r] r
    by (intro exI [of _ "c\<lparr>tc_channel := ch\<rparr>"] exI [of _ p])
      (simp add: connection_destroyed_def loop_channel_remove_def put_conn_def)
next
  case True
  let ?c = "c\<lparr>tc_state := kDisconnected\<rparr>"
  obtain ch p where s: "set_interest DisableAll (tc_channel c) (loop_poller (the_loop w)) = (ch, p)" by fastforce
  obtain ch' p' where r: "channel_remove ch p = (ch', p')" by fastforce
  show ?thesis
    using True w u channel_remove_id(3,6) [OF r] set_interest_id(5) [OF s] s r
    by (intro exI [of _ "?c\<lparr>tc_channel := ch'\<rparr>"] exI [of _ p'])
      (simp add: connection_destroyed_def set_state_def conn_interest_def loop_set_interest_def notify_connection_def
        server_cbs_alt print_only_def loop_channel_remove_def world_simps)
qed

text \<open>What the destructors leave alone, and which events they may log.\<close>

definition is_closed :: "net_event \<Rightarrow> bool" where
  "is_closed ev \<longleftrightarrow> (case ev of ClosedFd fd \<Rightarrow> True | _ \<Rightarrow> False)"

definition is_callback :: "net_event \<Rightarrow> bool" where
  "is_callback ev \<longleftrightarrow> (case ev of ConnectionCb cid st \<Rightarrow> st = kDisconnected | _ \<Rightarrow> False)"

definition same_loop :: "('x, 'w) server_world_scheme \<Rightarrow> ('x, 'w) server_world_scheme \<Rightarrow> bool" where
  "same_loop w w' \<longleftrightarrow> thread_id (the_loop w') = thread_id (the_loop w) \<and> cur_thread w' = cur_thread w \<and>
     pending_functors (the_loop w') = pending_functors (the_loop w) \<and> wakeup_channel (the_loop w') = wakeup_channel (the_loop w) \<and>
     p_epfd (loop_poller (the_loop w')) = p_epfd (loop_poller (the_loop w)) \<and>
     (\<forall>cid. (conns w' cid = None \<longleftrightarrow> conns w cid = None) \<and>
        (conns w cid \<noteq> None \<longrightarrow> tc_sockfd (the (conns w' cid)) = tc_sockfd (the (conns w cid))))"

lemma same_loop_trans: "same_loop u v \<Longrightarrow> same_loop v w \<Longrightarrow> same_loop u w"
  by (auto simp: same_loop_def)

lemma same_loop_refl: "same_loop w w"
  by (simp add: same_loop_def)

lemma same_loop_here: "same_loop w w' \<Longrightarrow> is_in_loop_thread w' = is_in_loop_thread w"
  by (simp add: same_loop_def is_in_loop_thread_def)

lemma same_loop_held: "same_loop w w' \<Longrightarrow> held_ids fcid w' = held_ids fcid w"
  by (simp add: same_loop_def held_ids_def)

definition not_connected :: "('x, 'w) server_world_scheme \<Rightarrow> u64 set \<Rightarrow> bool" where
  "not_connected w D \<longleftrightarrow> (\<forall>cid \<in> D. \<exists>c. conns w cid = Some c \<and> tc_state c \<noteq> kConnected)"

text \<open>\<open>A\<close> are the connections that watch for nothing already.\<close>

lemma connections_destroyed:
  assumes u: "conn_cb u = print_only"
    and "is_in_loop_thread w" "set ids \<subseteq> dom (conns w)" "unwatched w A" "not_connected w A"
  shows "\<exists>w' log. fold_cb (\<lambda>w cid. connection_destroyed (server_cbs u) cid w) ids w = Some w' \<and> same_loop w w' \<and>
    tcp_srv w' = tcp_srv w \<and> net_log w' = net_log w @ log \<and> list_all is_callback log \<and>
    unwatched w' (A \<union> set ids) \<and> not_connected w' (A \<union> set ids)"
  using assms(2-)
proof (induction ids arbitrary: w A)
  case Nil
  then show ?case by (intro exI [of _ w] exI [of _ "[]"]) (simp add: same_loop_refl)
next
  case (Cons cid ids)
  then obtain c where c: "conns w cid = Some c" by auto
  let ?log = "if tc_state c = kConnected then [ConnectionCb cid kDisconnected] else []"
  from connection_destroyed_effect [OF u Cons.prems(1) c] obtain c' p where
    d: "connection_destroyed (server_cbs u) cid w =
        Some (w\<lparr>conns := (conns w)(cid \<mapsto> c'), the_loop := (the_loop w)\<lparr>loop_poller := p\<rparr>, net_log := net_log w @ ?log\<rparr>)"
      (is "_ = Some ?w")
      "is_none_event (tc_channel c')" "tc_sockfd c' = tc_sockfd c" "tc_state c' \<noteq> kConnected" "p_epfd p = p_epfd (loop_poller (the_loop w))"
    by blast
  have s: "same_loop w ?w" using c d(3,5) by (auto simp: same_loop_def)
  have "is_in_loop_thread ?w" "set ids \<subseteq> dom (conns ?w)" "unwatched ?w (insert cid A)" "not_connected ?w (insert cid A)"
    using Cons.prems d(2,4) same_loop_here [OF s] by (auto simp: unwatched_def not_connected_def)
  from Cons.IH [OF this] obtain w' log where
    r: "fold_cb (\<lambda>w cid. connection_destroyed (server_cbs u) cid w) ids ?w = Some w'" "same_loop ?w w'" "tcp_srv w' = tcp_srv ?w"
      "net_log w' = net_log ?w @ log" "list_all is_callback log" "unwatched w' (insert cid A \<union> set ids)" "not_connected w' (insert cid A \<union> set ids)"
    by blast
  have "list_all is_callback (?log @ log)" using r(5) by (simp add: is_callback_def [of "ConnectionCb cid kDisconnected"])
  then show ?case
    by (intro exI [of _ w'] exI [of _ "?log @ log"]) (use d(1) r same_loop_trans [OF s r(2)] in simp)
qed

section \<open>Destroying the server\<close>

lemma accept_channel_destroyed:
  assumes "is_in_loop_thread w"
  obtains ch w1 w2 where "accept_interest DisableAll w = Some w1" "loop_channel_remove (ts_accept_channel (tcp_srv w1)) w1 = Some (ch, w2)"
    "channel_destroy ch = Some ()" "same_loop w w2" "conns w2 = conns w" "net_log w2 = net_log w"
    "ts_listen_fd (tcp_srv w2) = ts_listen_fd (tcp_srv w)"
proof -
  obtain ch1 p1 where 1: "set_interest DisableAll (ts_accept_channel (tcp_srv w)) (loop_poller (the_loop w)) = (ch1, p1)" by fastforce
  obtain ch p where 2: "channel_remove ch1 p1 = (ch, p)" by fastforce
  let ?w1 = "upd_srv (\<lambda>s. s\<lparr>ts_accept_channel := ch1\<rparr>) (w\<lparr>the_loop := (the_loop w)\<lparr>loop_poller := p1\<rparr>\<rparr>)"
  let ?w2 = "?w1\<lparr>the_loop := (the_loop ?w1)\<lparr>loop_poller := p\<rparr>\<rparr>"
  have "accept_interest DisableAll w = Some ?w1" using assms 1 by (simp add: accept_interest_def loop_set_interest_def)
  moreover have "loop_channel_remove (ts_accept_channel (tcp_srv ?w1)) ?w1 = Some (ch, ?w2)"
    using assms 2 by (simp add: loop_channel_remove_def upd_srv_def is_in_loop_thread_def)
  moreover have "same_loop w ?w2" using set_interest_id(5) [OF 1] channel_remove_id(6) [OF 2] by (simp add: same_loop_def upd_srv_def)
  ultimately show thesis using that channel_remove_id(3) [OF 2] by (simp add: channel_destroy_def upd_srv_def)
qed

lemma tcp_server_destroyed:
  assumes u: "conn_cb u = print_only" and w: "is_in_loop_thread w" "set ids = ts_connections (tcp_srv w)" "set ids \<subseteq> dom (conns w)"
    and q: "unwatched w (dom (conns w) - set ids)" "not_connected w (dom (conns w) - set ids)"
  shows "\<exists>w' log. tcp_server_destroy fcid u ids w = Some w' \<and> same_loop w w' \<and> list_all is_callback log \<and>
    net_log w' = net_log w @ [ClosedFd (ts_listen_fd (tcp_srv w))] @ log @
      map (\<lambda>cid. ClosedFd (tc_sockfd (the (conns w cid)))) (filter (\<lambda>cid. cid \<notin> set (held_ids fcid w)) ids) \<and>
    unwatched w' (dom (conns w)) \<and> not_connected w' (dom (conns w))"
proof -
  obtain ch w1 w2 where a: "accept_interest DisableAll w = Some w1" "loop_channel_remove (ts_accept_channel (tcp_srv w1)) w1 = Some (ch, w2)"
    "channel_destroy ch = Some ()" "same_loop w w2" "conns w2 = conns w" "net_log w2 = net_log w"
    "ts_listen_fd (tcp_srv w2) = ts_listen_fd (tcp_srv w)"
    by (rule accept_channel_destroyed [OF w(1)])
  let ?w = "log_event (ClosedFd (ts_listen_fd (tcp_srv w))) (upd_srv (\<lambda>s. s\<lparr>ts_accept_channel := ch\<rparr>) w2)"
  have s: "same_loop w ?w" using a(4) by (simp add: same_loop_def log_event_def upd_srv_def)
  have c: "conns ?w = conns w" using a(5) by (simp add: log_event_def upd_srv_def)
  have "set ids \<subseteq> dom (conns ?w)" "unwatched ?w (dom (conns w) - set ids)" "not_connected ?w (dom (conns w) - set ids)"
    using w(3) q by (simp_all add: unwatched_def not_connected_def c)
  from connections_destroyed [OF u _ this] same_loop_here [OF s] w(1) obtain w5 log where
    5: "fold_cb (\<lambda>w cid. connection_destroyed (server_cbs u) cid w) ids ?w = Some w5" "same_loop ?w w5" "tcp_srv w5 = tcp_srv ?w"
      "net_log w5 = net_log ?w @ log" "list_all is_callback log"
      "unwatched w5 (dom (conns w) - set ids \<union> set ids)" "not_connected w5 (dom (conns w) - set ids \<union> set ids)"
    by blast
  have d: "dom (conns w) - set ids \<union> set ids = dom (conns w)" using w(3) by blast
  have s5: "same_loop w w5" by (rule same_loop_trans [OF s 5(2)])
  let ?ids = "filter (\<lambda>cid. cid \<notin> set (held_ids fcid w)) ids"
  let ?w6 = "w5\<lparr>net_log := net_log w5 @ map (\<lambda>cid. ClosedFd (tc_sockfd (the (conns w5 cid)))) ?ids\<rparr>"
  have "unwatched w5 (set ?ids)" using 5(6) w(3) unfolding d unwatched_def by auto
  then have 6: "destroy_conns ?ids w5 = Some ?w6" by (rule destroy_conns_unwatched)
  have "map (\<lambda>cid. ClosedFd (tc_sockfd (the (conns w5 cid)))) ?ids = map (\<lambda>cid. ClosedFd (tc_sockfd (the (conns w cid)))) ?ids"
    using s5 w(3) by (auto simp: same_loop_def)
  then have "net_log ?w6 = net_log w @ [ClosedFd (ts_listen_fd (tcp_srv w))] @ log @ map (\<lambda>cid. ClosedFd (tc_sockfd (the (conns w cid)))) ?ids"
    using 5(4) a(6) by (simp add: log_event_def upd_srv_def)
  moreover have "ts_accept_channel (tcp_srv ?w6) = ch" using 5(3) by (simp add: log_event_def upd_srv_def)
  then have "tcp_server_destroy fcid u ids w = Some ?w6"
    using a(1-3,7) 5(1) 6 same_loop_held [OF s5, of fcid] by (simp add: tcp_server_destroy_def upd_srv_def log_event_def)
  moreover have "same_loop w ?w6" using s5 by (simp add: same_loop_def)
  moreover have "unwatched ?w6 (dom (conns w))" "not_connected ?w6 (dom (conns w))"
    using 5(6,7) unfolding d by (simp_all add: unwatched_def not_connected_def)
  ultimately show ?thesis using 5(5) by blast
qed

text \<open>The workers only touch the pool and the loop's queue, and name known connections.\<close>

definition tasks_known :: "'m rpc_world \<Rightarrow> bool" where
  "tasks_known w \<longleftrightarrow> list_all (functor_ok rpc_fcid (dom (conns w))) (pending_functors (the_loop w)) \<and>
     (\<forall>t \<in> set (tp_tasks (worker_pool w)) \<union> ran (in_flight w). tk_conn t \<in> dom (conns w))"

lemma work_act_frame:
  assumes "work_act E w a = Some w'" "tasks_known w"
  shows "conns w' = conns w \<and> tcp_srv w' = tcp_srv w \<and> net_log w' = net_log w \<and> thread_id (the_loop w') = thread_id (the_loop w) \<and>
    cur_thread w' = cur_thread w \<and> wakeup_channel (the_loop w') = wakeup_channel (the_loop w) \<and>
    loop_poller (the_loop w') = loop_poller (the_loop w) \<and> tasks_known w'"
proof (cases a)
  case (Take tid)
  then have "worker_take tid w = Some w'" using assms(1) by (simp split: if_splits)
  then obtain t ts where t: "tp_tasks (worker_pool w) = t # ts"
    "w' = w\<lparr>worker_pool := (worker_pool w)\<lparr>tp_tasks := ts\<rparr>, in_flight := (in_flight w)(tid \<mapsto> t)\<rparr>"
    by (rule worker_take_cases)
  have "ran ((in_flight w)(tid \<mapsto> t)) \<subseteq> insert t (ran (in_flight w))" by (auto simp: ran_def)
  then show ?thesis using assms(2) t by (auto simp: tasks_known_def)
next
  case (Reply tid)
  then have r: "tid \<noteq> thread_id (the_loop w)" "worker_reply E tid w = Some w'" using assms(1) by (simp_all split: if_splits)
  obtain t r where t: "in_flight w tid = Some t" and w':
    "w' = w\<lparr>in_flight := (in_flight w)(tid := None),
            the_loop := wakeup (push_functor (UserFunctor (SendResponse (tk_conn t) (response_of (tk_id t) r))) (the_loop w))\<rparr>"
    by (rule worker_reply_cases [OF r])
  have "ran ((in_flight w)(tid := None)) \<subseteq> ran (in_flight w)" "t \<in> ran (in_flight w)" using t by (auto simp: ran_def)
  then show ?thesis using assms(2) w' by (auto simp: tasks_known_def loop_defs)
qed

lemma work_acts_frame:
  "fold_cb (work_act E) acts w = Some w' \<Longrightarrow> tasks_known w \<Longrightarrow>
   conns w' = conns w \<and> tcp_srv w' = tcp_srv w \<and> net_log w' = net_log w \<and> thread_id (the_loop w') = thread_id (the_loop w) \<and>
    cur_thread w' = cur_thread w \<and> wakeup_channel (the_loop w') = wakeup_channel (the_loop w) \<and>
    loop_poller (the_loop w') = loop_poller (the_loop w) \<and> tasks_known w'"
proof (induction acts arbitrary: w)
  case (Cons a acts)
  then obtain w1 where "work_act E w a = Some w1" "fold_cb (work_act E) acts w1 = Some w'" by (auto simp: bind_eq_Some_conv)
  then show ?case using Cons.IH [of w1] work_act_frame [of E w a w1] Cons.prems(2) by simp
qed simp

lemma held_known: assumes "list_all (functor_ok fcid D) (pending_functors (the_loop w))" shows "set (held_ids fcid w) \<subseteq> D"
proof -
  have "holds fcid f = Some cid \<Longrightarrow> functor_ok fcid D f \<Longrightarrow> cid \<in> D" for f cid by (cases f) auto
  then show ?thesis using assms by (auto simp: held_ids_def map_filter_def list_all_iff)
qed

lemma event_loop_destroyed:
  assumes "is_in_loop_thread w"
  shows "\<exists>w'. event_loop_destroy w = Some (ch_fd (wakeup_channel (the_loop w)), w') \<and>
    loop_members_destroy (the_loop w') = Some (p_epfd (loop_poller (the_loop w))) \<and>
    pending_functors (the_loop w') = pending_functors (the_loop w) \<and> loop_world.more w' = loop_world.more w"
proof -
  obtain ch1 p1 where 1: "set_interest DisableAll (wakeup_channel (the_loop w)) (loop_poller (the_loop w)) = (ch1, p1)" by fastforce
  obtain ch p where 2: "channel_remove ch1 p1 = (ch, p)" by fastforce
  show ?thesis
    using assms 1 2 channel_remove_id(1,3,6) [OF 2] set_interest_id(1,5) [OF 1]
    by (simp add: event_loop_destroy_def loop_set_interest_def loop_channel_remove_def is_in_loop_thread_def channel_destroy_def
        loop_members_destroy_def poller_destroy_def)
qed

lemma same_more:
  fixes w w' :: "('x, 'w) server_world_scheme"
  assumes "loop_world.more w' = loop_world.more w" shows "conns w' = conns w" "net_log w' = net_log w"
  using assms by (cases w, cases w', simp)+

text \<open>The connections that are closed at the end: those of the table, and those a queued closure keeps alive.\<close>

lemma unheld_and_held:
  assumes "distinct ids" shows "mset (filter (\<lambda>i. i \<notin> set (held_ids fcid w)) ids) + mset (held_ids fcid w) = mset_set (set ids \<union> set (held_ids fcid w))"
proof -
  let ?l = "filter (\<lambda>i. i \<notin> set (held_ids fcid w)) ids @ held_ids fcid w"
  have "distinct ?l" using assms by (auto simp: held_ids_def)
  then have "mset_set (set ?l) = mset ?l" by (rule mset_set_set)
  moreover have "set ?l = set ids \<union> set (held_ids fcid w)" by auto
  ultimately show ?thesis by simp
qed

lemma stopping_simps [simp]:
  "conns (stopping w) = conns w" "tcp_srv (stopping w) = tcp_srv w" "net_log (stopping w) = net_log w"
  "cur_thread (stopping w) = cur_thread w" "thread_id (the_loop (stopping w)) = thread_id (the_loop w)"
  "wakeup_channel (the_loop (stopping w)) = wakeup_channel (the_loop w)" "loop_poller (the_loop (stopping w)) = loop_poller (the_loop w)"
  "pending_functors (the_loop (stopping w)) = pending_functors (the_loop w)"
  "tp_tasks (worker_pool (stopping w)) = tp_tasks (worker_pool w)" "in_flight (stopping w) = in_flight w"
  by (simp_all add: stopping_def loop_quit_def loop_defs)

lemma srv_inv_tasks_known: "srv_inv rpc_fcid pool_ok X w \<Longrightarrow> tasks_known (stopping w)"
  by (auto simp: srv_inv_def tasks_known_def pool_ok_iff list_all_iff)

lemma srv_inv_outside:
  assumes "srv_inv fcid I {} w"
  shows "unwatched w (dom (conns w) - ts_connections (tcp_srv w))" "not_connected w (dom (conns w) - ts_connections (tcp_srv w))"
proof -
  have "tc_state c = kDisconnected \<and> is_none_event (tc_channel c)" if "conns w cid = Some c" "cid \<notin> ts_connections (tcp_srv w)" for cid c
    using assms that unfolding srv_inv_def by blast
  then show "unwatched w (dom (conns w) - ts_connections (tcp_srv w))" "not_connected w (dom (conns w) - ts_connections (tcp_srv w))"
    unfolding unwatched_def not_connected_def by fastforce+
qed

text \<open>The logs of the destructors hold callbacks and closed descriptors.\<close>

lemma callbacks_not_closed: "list_all is_callback log \<Longrightarrow> filter is_closed log = []"
  by (induction log) (auto simp: is_callback_def is_closed_def split: net_event.splits)

lemma filter_closed_map [simp]: "filter is_closed (map (\<lambda>x. ClosedFd (f x)) xs) = map (\<lambda>x. ClosedFd (f x)) xs"
  by (induction xs) (simp_all add: is_closed_def)

text \<open>A server destroyed on a thread that does not own the loop fails the loop's assertion.\<close>

lemma destroy_off_loop:
  assumes "\<not> is_in_loop_thread w" "tasks_known (stopping w)"
  shows "rpc_server_destroy E acts ids w = None"
proof (cases "fold_cb (work_act E) acts (stopping w)")
  case (Some w1)
  then have "\<not> is_in_loop_thread w1" using work_acts_frame [OF Some assms(2)] assms(1) by (simp add: is_in_loop_thread_def)
  then have "tcp_server_destroy rpc_fcid (rpc_cbs E) ids w1 = None"
    by (simp add: tcp_server_destroy_def accept_interest_def loop_set_interest_def)
  then show ?thesis using Some by (simp add: rpc_server_destroy_def)
qed (simp add: rpc_server_destroy_def)

section \<open>A running server\<close>

text \<open>Accepting a connection on the loop's own thread.\<close>

lemma new_connection_effect:
  assumes u: "conn_cb u = print_only" and w: "is_in_loop_thread w"
  shows "\<exists>c p. new_connection u fd peer w =
      Some (w\<lparr>conns := (conns w)(ts_next_conn_id (tcp_srv w) \<mapsto> c), the_loop := (the_loop w)\<lparr>loop_poller := p\<rparr>,
              tcp_srv := (tcp_srv w)\<lparr>ts_next_conn_id := ts_next_conn_id (tcp_srv w) + 1,
                ts_connections := insert (ts_next_conn_id (tcp_srv w)) (ts_connections (tcp_srv w))\<rparr>,
              net_log := net_log w @ [ConnectionCb (ts_next_conn_id (tcp_srv w)) kConnected]\<rparr>) \<and>
    tc_sockfd c = fd \<and> tc_state c = kConnected \<and> p_epfd p = p_epfd (loop_poller (the_loop w))"
proof -
  let ?cid = "ts_next_conn_id (tcp_srv w)"
  let ?c = "(tcp_connection_new fd ?cid peer)\<lparr>tc_state := kConnected\<rparr>"
  obtain ch p where r: "set_interest EnableReading (channel_tie (tc_channel ?c)) (loop_poller (the_loop w)) = (ch, p)" by fastforce
  show ?thesis
    using u w r set_interest_id(5) [OF r]
    by (intro exI [of _ "?c\<lparr>tc_channel := ch\<rparr>"] exI [of _ p])
      (simp add: new_connection_def upd_srv_def world_simps run_in_loop_def connection_established_def set_state_def
        conn_interest_def loop_set_interest_def notify_connection_def server_cbs_alt print_only_def Let_def tcp_connection_new_def)
qed

text \<open>A server whose loop accepts one client in its first turn.\<close>

definition guest_env :: rpc_env where
  "guest_env = demo_env\<lparr>env_accept := (\<lambda>t fd. Some (9, (127, 0, 0, 1), 5000))\<rparr>"

definition guest_turn :: epoll_wait_call where
  "guest_turn n = Inr [(accept_ptr, EPOLLIN)]"

lemma guest_env_kernel: "kernel_ok (env_kernel guest_env)"
  by (simp add: guest_env_def demo_env_def calm_kernel_ok)

lemma started_server:
  obtains w :: "string rpc_world" where "rpc_init w" "is_in_loop_thread w" "conns w = Map.empty" "ts_connections (tcp_srv w) = {}"
    "ts_next_conn_id (tcp_srv w) = 1" "ts_listen_fd (tcp_srv w) = 4" "ch_fd (wakeup_channel (the_loop w)) = 3" "p_epfd (loop_poller (the_loop w)) = 5"
    "pending_functors (the_loop w) = []" "idle_workers w" "\<not> ch_tied (ts_accept_channel (tcp_srv w))"
proof -
  obtain w0 :: "string rpc_world" where w0: "rpc_server_new demo_fds demo_listen 1 [] 80 4 = Some (Inr w0, [])"
    by (rule demo_new)
  obtain w where w: "tcp_server_start w0 = Some w" using tcp_server_start_inv [OF rpc_server_new_fresh [OF w0]] by blast
  have "rpc_init w" using w0 w unfolding rpc_init_def by blast
  then show thesis
    by (rule that)
      (use w0 w in \<open>auto simp: rpc_server_new_def event_loop_create_def poller_create_def create_eventfd_def demo_fds_def poller_new_def
        epoll_ctl_def tcp_server_new_def create_listen_fd_def demo_listen_def event_loop_new_def
        tcp_server_start_def accept_interest_def loop_set_interest_def upd_srv_def is_in_loop_thread_def thread_pool_new_def
        idle_workers_def channel_new_def set_interest_def update_channel_def Let_def split: if_splits prod.splits\<close>)
qed

lemma guest_accepted:
  obtains w :: "string rpc_world" and c where "reachable rpc_init (rpc_step guest_env) w" "conns w = [1 \<mapsto> c]" "tc_sockfd c = 9"
    "ts_connections (tcp_srv w) = {1}" "ts_listen_fd (tcp_srv w) = 4" "ch_fd (wakeup_channel (the_loop w)) = 3" "p_epfd (loop_poller (the_loop w)) = 5"
    "pending_functors (the_loop w) = []" "idle_workers w"
proof -
  obtain w :: "string rpc_world" where w: "rpc_init w" "is_in_loop_thread w" "conns w = Map.empty" "ts_connections (tcp_srv w) = {}"
    "ts_next_conn_id (tcp_srv w) = 1" "ts_listen_fd (tcp_srv w) = 4" "ch_fd (wakeup_channel (the_loop w)) = 3" "p_epfd (loop_poller (the_loop w)) = 5"
    "pending_functors (the_loop w) = []" "idle_workers w" "\<not> ch_tied (ts_accept_channel (tcp_srv w))" by (rule started_server)
  have r: "ready guest_turn w = [(accept_ptr, EPOLLIN)]" by (simp add: ready_def poll_def guest_turn_def)
  obtain p where p: "poll guest_turn (loop_poller (the_loop w)) = ([(accept_ptr, EPOLLIN)], p)"
    using r by (cases "poll guest_turn (loop_poller (the_loop w))") (simp add: ready_def)
  then have ep: "p_epfd p = 5" using w(8) by (auto simp: poll_def guest_turn_def split: if_splits)
  have u: "conn_cb (rpc_cbs guest_env) = print_only" by (simp add: rpc_cbs_def reply_cbs_def no_conn_cbs_def)
  let ?w = "tick (w\<lparr>the_loop := (the_loop w)\<lparr>loop_poller := p\<rparr>\<rparr>)"
  have "is_in_loop_thread ?w" using w(2) by (simp add: world_simps)
  from new_connection_effect [OF u this, of 9 "peer_text (127, 0, 0, 1) 5000"] obtain c q where
    n: "new_connection (rpc_cbs guest_env) 9 (peer_text (127, 0, 0, 1) 5000) ?w =
      Some (?w\<lparr>conns := (conns ?w)(ts_next_conn_id (tcp_srv ?w) \<mapsto> c), the_loop := (the_loop ?w)\<lparr>loop_poller := q\<rparr>,
              tcp_srv := (tcp_srv ?w)\<lparr>ts_next_conn_id := ts_next_conn_id (tcp_srv ?w) + 1,
                ts_connections := insert (ts_next_conn_id (tcp_srv ?w)) (ts_connections (tcp_srv ?w))\<rparr>,
              net_log := net_log ?w @ [ConnectionCb (ts_next_conn_id (tcp_srv ?w)) kConnected]\<rparr>)" (is "_ = Some ?v") "tc_sockfd c = 9"
      "p_epfd q = p_epfd (loop_poller (the_loop ?w))"
    by blast
  have "server_dispatch calm_kernel (env_accept guest_env) (rpc_cbs guest_env) (w\<lparr>the_loop := (the_loop w)\<lparr>loop_poller := p\<rparr>\<rparr>) (accept_ptr, EPOLLIN) = Some ?v"
    using n(1) w(11)
    by (simp add: server_dispatch_def accept_ptr_def handle_event_def handle_event_with_guard_def no_channel_cbs_def run_cb_def epoll_bits
        handle_accept_def guest_env_def)
  then have "rpc_turn guest_env guest_turn w = do_pending_functors (server_exec calm_kernel (rpc_cbs guest_env) (run_rpc_functor guest_env)) ?v"
    by (simp add: rpc_turn_def loop_turn_def p guest_env_def demo_env_def)
  then obtain w' where w': "rpc_turn guest_env guest_turn w = Some w'" "conns w' = [1 \<mapsto> c]" "ts_connections (tcp_srv w') = {1}"
    "ts_listen_fd (tcp_srv w') = 4" "ch_fd (wakeup_channel (the_loop w')) = 3" "p_epfd (loop_poller (the_loop w')) = 5" "pending_functors (the_loop w') = []" "idle_workers w'"
    using w(3-10) n(3) ep by (simp add: do_pending_functors_def swap_functors_def tick_def idle_workers_def)
  have "reports_live guest_turn w" "ids_left guest_turn w" using w(5) by (simp_all add: reports_live_def ids_left_def r accept_ptr_def)
  then have "rpc_step guest_env w w'" using w'(1) by (rule loop_round)
  then have "reachable rpc_init (rpc_step guest_env) w'" by (rule reach_step [OF reach_init [of rpc_init, OF w(1)]])
  then show thesis using that w' n(2) by blast
qed

section \<open>Properties\<close>


text \<open>
  C32. The objects of a running server are well formed: in every state it reaches, each connection
  is stored under its own id, below the next id; its channel carries the address and
  the descriptor of that connection, so epoll's events for the descriptor reach it; both of its
  buffers satisfy the buffer's invariant; and one that has left the table is disconnected, and the assertion
  of its destructors holds, so it can be destroyed at any time.
\<close>

theorem connections_well_formed:
  assumes "kernel_ok (env_kernel E)" "reachable rpc_init (rpc_step E) w" "conns w cid = Some c"
  shows "conn_wf cid c \<and> cid < ts_next_conn_id (tcp_srv w) \<and>
    (cid \<notin> ts_connections (tcp_srv w) \<longrightarrow> tc_state c = kDisconnected \<and> tcp_connection_destroy cid w \<noteq> None)"
proof -
  have "srv_inv rpc_fcid pool_ok {} w" by (rule rm.reachable_inv [of E, unfolded posix_env_id [OF assms(1)], OF assms(2)])
  then have "cid < ts_next_conn_id (tcp_srv w) \<and> conn_wf cid c \<and> (tc_state c \<noteq> kDisconnected \<longleftrightarrow> cid \<in> ts_connections (tcp_srv w)) \<and>
      (cid \<notin> ts_connections (tcp_srv w) \<longrightarrow> is_none_event (tc_channel c))"
    using assms(3) unfolding srv_inv_def by blast
  then show ?thesis using assms(3) by (auto simp: tcp_connection_destroy_def channel_destroy_def)
qed

theorem connections_well_formed_witness:
  "\<exists>(w :: string rpc_world) c. reachable rpc_init (rpc_step guest_env) w \<and> conns w 1 = Some c \<and> conn_wf 1 c \<and> 1 < ts_next_conn_id (tcp_srv w)"
proof -
  obtain w :: "string rpc_world" and c where w: "reachable rpc_init (rpc_step guest_env) w" "conns w = [1 \<mapsto> c]" by (rule guest_accepted)
  have c: "conns w 1 = Some c" using w(2) by simp
  from connections_well_formed [OF guest_env_kernel w(1) c] show ?thesis using w(1) c by blast
qed

text \<open>
  C9. Destroying a server is safe and releases every descriptor once: from every state the server
  reaches, in whatever order the table is iterated and whatever the workers do until they have
  finished their tasks, all the destructors run with no failed assertion; they close the listening
  socket, the wake-up descriptor, the epoll descriptor and the socket of each connection that is in the table or kept alive by a
  queued closure, each exactly once; they write no byte, so responses still queued
  are dropped; and no connection stays connected.
\<close>

theorem server_destroyed_cleanly:
  assumes "kernel_ok (env_kernel E)" "reachable rpc_init (rpc_step E) w"
    and "set ids = ts_connections (tcp_srv w)" "distinct ids"
    and "fold_cb (work_act E) acts (stopping w) = Some w1" "idle_workers w1"
  shows "\<exists>w' log. rpc_server_destroy E acts ids w = Some w' \<and> net_log w' = net_log w @ log \<and>
    list_all (\<lambda>ev. is_closed ev \<or> is_callback ev) log \<and>
    mset (filter is_closed log) =
      {#ClosedFd (ts_listen_fd (tcp_srv w)), ClosedFd (ch_fd (wakeup_channel (the_loop w))), ClosedFd (p_epfd (loop_poller (the_loop w)))#} +
      image_mset (\<lambda>cid. ClosedFd (tc_sockfd (the (conns w cid))))
        (mset_set (ts_connections (tcp_srv w) \<union> set (held_ids rpc_fcid w1))) \<and>
    (\<forall>cid c. conns w' cid = Some c \<longrightarrow> tc_state c \<noteq> kConnected)"
proof -
  let ?fd = "\<lambda>cid. ClosedFd (tc_sockfd (the (conns w cid)))" and ?H = "held_ids rpc_fcid w1"
  have inv: "srv_inv rpc_fcid pool_ok {} w" by (rule rm.reachable_inv [of E, unfolded posix_env_id [OF assms(1)], OF assms(2)])
  note fr = work_acts_frame [OF assms(5) srv_inv_tasks_known [OF inv], simplified]
  have here: "is_in_loop_thread w1" using inv fr by (simp add: srv_inv_def is_in_loop_thread_def)
  have sub: "set ids \<subseteq> dom (conns w1)" using inv fr assms(3) by (simp add: srv_inv_def)
  have out: "unwatched w1 (dom (conns w1) - set ids)" "not_connected w1 (dom (conns w1) - set ids)"
    using srv_inv_outside [OF inv] fr assms(3) by (simp_all add: unwatched_def not_connected_def)
  have u: "conn_cb (rpc_cbs E) = print_only" by (simp add: rpc_cbs_def reply_cbs_def no_conn_cbs_def)
  from tcp_server_destroyed [OF u here _ sub out, of rpc_fcid] fr assms(3) obtain w2 log2 where
    2: "tcp_server_destroy rpc_fcid (rpc_cbs E) ids w1 = Some w2" "same_loop w1 w2" "list_all is_callback log2"
      "net_log w2 = net_log w @ [ClosedFd (ts_listen_fd (tcp_srv w))] @ log2 @ map ?fd (filter (\<lambda>cid. cid \<notin> set ?H) ids)"
      "unwatched w2 (dom (conns w))" "not_connected w2 (dom (conns w))"
    by auto
  obtain w3 where 3: "event_loop_destroy w2 = Some (ch_fd (wakeup_channel (the_loop w2)), w3)"
      "loop_members_destroy (the_loop w3) = Some (p_epfd (loop_poller (the_loop w2)))"
      "pending_functors (the_loop w3) = pending_functors (the_loop w2)" "loop_world.more w3 = loop_world.more w2"
    using event_loop_destroyed [of w2] same_loop_here [OF 2(2)] here by blast
  note m = same_more [OF 3(4)]
  have wfd: "ch_fd (wakeup_channel (the_loop w2)) = ch_fd (wakeup_channel (the_loop w))"
    "p_epfd (loop_poller (the_loop w2)) = p_epfd (loop_poller (the_loop w))" using 2(2) fr by (simp_all add: same_loop_def)
  have held: "held_ids rpc_fcid w3 = ?H" using 2(2) 3(3) by (simp add: held_ids_def same_loop_def)
  have H: "set ?H \<subseteq> dom (conns w)" using held_known [of rpc_fcid "dom (conns w1)" w1] fr by (metis tasks_known_def)
  let ?w3 = "log_event (ClosedFd (ch_fd (wakeup_channel (the_loop w)))) w3"
  have "unwatched ?w3 (set ?H)" using 2(5) H m(1) unfolding unwatched_def log_event_def by auto
  then have 4: "destroy_conns ?H ?w3 = Some (?w3\<lparr>net_log := net_log ?w3 @ map (\<lambda>cid. ClosedFd (tc_sockfd (the (conns ?w3 cid)))) ?H\<rparr>)"
    (is "_ = Some ?w4") by (rule destroy_conns_unwatched)
  have fd: "tc_sockfd (the (conns w3 cid)) = tc_sockfd (the (conns w cid))" if "cid \<in> set ?H" for cid
    using that H 2(2) m(1) fr by (auto simp: same_loop_def)
  let ?log = "[ClosedFd (ts_listen_fd (tcp_srv w))] @ log2 @ map ?fd (filter (\<lambda>cid. cid \<notin> set ?H) ids) @
      [ClosedFd (ch_fd (wakeup_channel (the_loop w)))] @ map ?fd ?H @ [ClosedFd (p_epfd (loop_poller (the_loop w)))]"
  let ?w5 = "log_event (ClosedFd (p_epfd (loop_poller (the_loop w)))) ?w4"
  have "rpc_server_destroy E acts ids w = Some ?w5"
    using assms(5,6) 2(1) 3(1,2) 4 by (simp add: rpc_server_destroy_def held wfd log_event_def)
  moreover have "net_log ?w5 = net_log w @ ?log" using 2(4) m(2) fd by (simp add: log_event_def)
  moreover have "list_all (\<lambda>ev. is_closed ev \<or> is_callback ev) ?log" using 2(3) by (auto simp: list_all_iff is_closed_def)
  moreover have "mset (filter is_closed ?log) = {#ClosedFd (ts_listen_fd (tcp_srv w)), ClosedFd (ch_fd (wakeup_channel (the_loop w))), ClosedFd (p_epfd (loop_poller (the_loop w)))#} +
      image_mset ?fd (mset_set (ts_connections (tcp_srv w) \<union> set ?H))"
    using unheld_and_held [OF assms(4), of rpc_fcid w1, symmetric] callbacks_not_closed [OF 2(3)] assms(3)
    by (simp add: is_closed_def [of "ClosedFd _"] del: mset_filter)
  moreover have cs: "conns ?w5 = conns w2" using m(1) by (simp add: log_event_def)
  have "dom (conns w2) = dom (conns w)" using 2(2) fr by (auto simp: same_loop_def dom_def)
  then have "\<forall>cid c. conns ?w5 cid = Some c \<longrightarrow> tc_state c \<noteq> kConnected"
    using 2(6) unfolding cs not_connected_def by (metis domI option.inject)
  ultimately show ?thesis by blast
qed

theorem server_destroyed_cleanly_witness:
  "\<exists>(w :: string rpc_world) w' log. reachable rpc_init (rpc_step guest_env) w \<and> ts_connections (tcp_srv w) = {1} \<and>
     rpc_server_destroy guest_env [] [1] w = Some w' \<and> net_log w' = net_log w @ log \<and>
     mset (filter is_closed log) = {#ClosedFd 4, ClosedFd 3, ClosedFd 5, ClosedFd 9#}"
proof -
  obtain w :: "string rpc_world" and c where w: "reachable rpc_init (rpc_step guest_env) w" "conns w = [1 \<mapsto> c]" "tc_sockfd c = 9"
    "ts_connections (tcp_srv w) = {1}" "ts_listen_fd (tcp_srv w) = 4" "ch_fd (wakeup_channel (the_loop w)) = 3" "p_epfd (loop_poller (the_loop w)) = 5"
    "pending_functors (the_loop w) = []" "idle_workers w" by (rule guest_accepted)
  have "idle_workers (stopping w)" using w(9) by (simp add: idle_workers_def)
  moreover have "held_ids rpc_fcid (stopping w) = []" using w(8) by (simp add: held_ids_def map_filter_def)
  moreover have "set [1] = ts_connections (tcp_srv w)" using w(4) by simp
  ultimately show ?thesis
    using server_destroyed_cleanly [OF guest_env_kernel w(1), of "[1]" "[]" "stopping w"] w by auto
qed

end
