(* ===== verification/IO_Loop_Thread.thy ===== *)
theory IO_Loop_Thread
  imports Event_Loop
begin

text \<open>
  The class \<^verbatim>\<open>IOLoopThread\<close> of \<^verbatim>\<open>net/tcp_server.cpp\<close>: a thread that makes an event loop and runs it,
  a constructor that waits until the loop exists, and a destructor that quits the loop and
  joins the thread. The three run concurrently; a step is what one of them does between two
  accesses to shared state. The store of \<^verbatim>\<open>ready_\<close> and the notification do not take the mutex.
\<close>

section \<open>The class\<close>

datatype io_thread_pc =
  IoStarting | IoLoopMade | IoReadyStored | IoNotified
| IoLooping    \<comment> \<open>inside \<^verbatim>\<open>loop()\<close>, past the store that clears \<^verbatim>\<open>quit_\<close>\<close>
| IoReturned

datatype io_ctor_pc = CtorLocking | CtorChecking | CtorGoingToSleep | CtorSleeping | CtorReturned

datatype io_dtor_pc = NotDestructed | QuitCalled | Joined

record 'f io_loop_thread =
  io_loop :: "'f event_loop option"
  io_ready :: bool
  io_thread :: io_thread_pc
  io_ctor :: io_ctor_pc
  io_dtor :: io_dtor_pc

definition io_init :: "'f io_loop_thread \<Rightarrow> bool" where
  "io_init s \<longleftrightarrow> s = \<lparr>io_loop = None, io_ready = False, io_thread = IoStarting, io_ctor = CtorLocking, io_dtor = NotDestructed\<rparr>"

text \<open>The thread's function, statement by statement; \<open>tid\<close> is its id and \<open>fd\<close> the loop's epoll descriptor and eventfd.\<close>

definition io_make_loop :: "nat \<Rightarrow> int \<times> int \<Rightarrow> 'f io_loop_thread \<Rightarrow> 'f io_loop_thread" where
  "io_make_loop tid fd s = s\<lparr>io_loop := Some (event_loop_new tid 0 (poller_new (fst fd)) (snd fd)), io_thread := IoLoopMade\<rparr>"

definition io_store_ready :: "'f io_loop_thread \<Rightarrow> 'f io_loop_thread" where
  "io_store_ready s = s\<lparr>io_ready := True, io_thread := IoReadyStored\<rparr>"

definition io_notify :: "'f io_loop_thread \<Rightarrow> 'f io_loop_thread" where
  "io_notify s = s\<lparr>io_ctor := (if io_ctor s = CtorSleeping then CtorLocking else io_ctor s), io_thread := IoNotified\<rparr>"

text \<open>The entry of \<^verbatim>\<open>loop()\<close> clears \<^verbatim>\<open>quit_\<close>.\<close>

definition io_enter_loop :: "'f io_loop_thread \<Rightarrow> 'f io_loop_thread" where
  "io_enter_loop s = s\<lparr>io_loop := map_option (\<lambda>l. l\<lparr>quit_flag := False\<rparr>) (io_loop s), io_thread := IoLooping\<rparr>"

text \<open>The destructor's \<^verbatim>\<open>quit()\<close>, called on the owner's thread.\<close>

definition io_quit :: "nat \<Rightarrow> 'f io_loop_thread \<Rightarrow> 'f io_loop_thread" where
  "io_quit owner s =
     s\<lparr>io_loop := map_option (\<lambda>l. the_loop (loop_quit \<lparr>the_loop = l, cur_thread = owner\<rparr>)) (io_loop s), io_dtor := QuitCalled\<rparr>"

definition io_get_loop :: "'f io_loop_thread \<Rightarrow> 'f event_loop option" where
  "io_get_loop s = io_loop s"

section \<open>The threads\<close>

inductive io_step :: "nat \<Rightarrow> int \<times> int \<Rightarrow> nat \<Rightarrow> 'f io_loop_thread \<Rightarrow> 'f io_loop_thread \<Rightarrow> bool" for tid fd owner where
  makes_loop: "io_thread s = IoStarting \<Longrightarrow> io_step tid fd owner s (io_make_loop tid fd s)"
| stores_ready: "io_thread s = IoLoopMade \<Longrightarrow> io_step tid fd owner s (io_store_ready s)"
| notifies: "io_thread s = IoReadyStored \<Longrightarrow> io_step tid fd owner s (io_notify s)"
| enters_loop: "io_thread s = IoNotified \<Longrightarrow> io_step tid fd owner s (io_enter_loop s)"
| leaves_loop: "io_thread s = IoLooping \<Longrightarrow> io_loop s = Some l \<Longrightarrow> quit_flag l \<Longrightarrow>
    io_step tid fd owner s (s\<lparr>io_thread := IoReturned\<rparr>)"
| ctor_locks: "io_ctor s = CtorLocking \<Longrightarrow> io_step tid fd owner s (s\<lparr>io_ctor := CtorChecking\<rparr>)"
| ctor_returns: "io_ctor s = CtorChecking \<Longrightarrow> io_ready s \<Longrightarrow> io_step tid fd owner s (s\<lparr>io_ctor := CtorReturned\<rparr>)"
| ctor_waits: "io_ctor s = CtorChecking \<Longrightarrow> \<not> io_ready s \<Longrightarrow> io_step tid fd owner s (s\<lparr>io_ctor := CtorGoingToSleep\<rparr>)"
| ctor_sleeps: "io_ctor s = CtorGoingToSleep \<Longrightarrow> io_step tid fd owner s (s\<lparr>io_ctor := CtorSleeping\<rparr>)"
| ctor_spurious: "io_ctor s = CtorSleeping \<Longrightarrow> io_step tid fd owner s (s\<lparr>io_ctor := CtorLocking\<rparr>)"
| dtor_quits: "io_ctor s = CtorReturned \<Longrightarrow> io_dtor s = NotDestructed \<Longrightarrow> io_step tid fd owner s (io_quit owner s)"
| dtor_joins: "io_dtor s = QuitCalled \<Longrightarrow> io_thread s = IoReturned \<Longrightarrow> io_step tid fd owner s (s\<lparr>io_dtor := Joined\<rparr>)"

inductive_cases io_stepE: "io_step tid fd owner s t"

lemmas io_defs = io_make_loop_def io_store_ready_def io_notify_def io_enter_loop_def io_quit_def io_get_loop_def

text \<open>
  The loop exists from its creation on and belongs to the thread; the flag \<^verbatim>\<open>ready_\<close> and a
  constructor that has returned imply it; \<^verbatim>\<open>quit_\<close> is set by nobody but the destructor.
\<close>

definition io_inv :: "nat \<Rightarrow> 'f io_loop_thread \<Rightarrow> bool" where
  "io_inv tid s \<longleftrightarrow>
     (io_thread s \<noteq> IoStarting \<longrightarrow> (\<exists>l. io_loop s = Some l \<and> thread_id l = tid \<and> (quit_flag l \<longrightarrow> io_dtor s \<noteq> NotDestructed))) \<and>
     (io_ready s \<longrightarrow> io_thread s \<noteq> IoStarting) \<and>
     (io_ctor s = CtorReturned \<longrightarrow> io_ready s) \<and>
     (io_dtor s \<noteq> NotDestructed \<longrightarrow> io_ctor s = CtorReturned) \<and>
     (io_thread s = IoReturned \<longrightarrow> io_dtor s \<noteq> NotDestructed) \<and>
     (io_dtor s = Joined \<longrightarrow> io_thread s = IoReturned)"

lemma io_step_inv: "io_inv tid s \<Longrightarrow> io_step tid fd owner s t \<Longrightarrow> io_inv tid t"
proof (rotate_tac, induction rule: io_step.induct)
  case (makes_loop s)
  then show ?case by (auto simp: io_inv_def io_defs event_loop_new_def split: prod.split)
next
  case (dtor_quits s)
  then obtain l where "io_loop s = Some l" "thread_id l = tid" by (auto simp: io_inv_def)
  then show ?case using dtor_quits by (simp add: io_inv_def io_defs loop_quit_def loop_defs)
qed (auto simp: io_inv_def io_defs)

interpretation io: invariant_system io_init "io_step tid fd owner" "io_inv tid" for tid fd owner
proof
  show "io_inv tid s" if "io_init s" for s :: "'f io_loop_thread" using that by (simp add: io_init_def io_inv_def)
qed (rule io_step_inv)

text \<open>
  A constructed \<^verbatim>\<open>IOLoopThread\<close> has its loop: in every interleaving of the thread, the constructor
  and the destructor, once the constructor has returned \<^verbatim>\<open>loop()\<close> gives a loop, and it belongs
  to the new thread; the thread leaves its loop only after the destructor has called
  \<^verbatim>\<open>quit\<close>, and the destructor returns only after the thread has left.
\<close>

lemma io_thread_has_loop:
  assumes "reachable io_init (io_step tid fd owner) s" "io_ctor s = CtorReturned"
  shows "(\<exists>l. io_get_loop s = Some l \<and> thread_id l = tid) \<and>
    (io_thread s = IoReturned \<longrightarrow> io_dtor s \<noteq> NotDestructed) \<and> (io_dtor s = Joined \<longrightarrow> io_thread s = IoReturned)"
  using io.reachable_inv [OF assms(1)] assms(2) by (auto simp: io_inv_def io_get_loop_def)

section \<open>What can go wrong\<close>

text \<open>A run from a start state, step by step.\<close>

definition io_start :: "'f io_loop_thread" where
  "io_start = \<lparr>io_loop = None, io_ready = False, io_thread = IoStarting, io_ctor = CtorLocking, io_dtor = NotDestructed\<rparr>"

definition io_constructed :: "nat \<Rightarrow> int \<times> int \<Rightarrow> 'f io_loop_thread" where
  "io_constructed tid fd =
     \<lparr>io_loop = Some (event_loop_new tid 0 (poller_new (fst fd)) (snd fd)), io_ready = True, io_thread = IoNotified, io_ctor = CtorReturned,
      io_dtor = NotDestructed\<rparr>"

lemma io_constructed_reachable: "reachable io_init (io_step tid fd owner) (io_constructed tid fd)"
proof -
  let ?s = "io_start :: 'f io_loop_thread"
  have "reachable io_init (io_step tid fd owner) ?s" by (rule reach_init) (simp add: io_init_def io_start_def)
  from reach_step [OF this io_step.makes_loop]
  have "reachable io_init (io_step tid fd owner) (io_make_loop tid fd ?s)" by (simp add: io_start_def)
  from reach_step [OF this io_step.stores_ready]
  have "reachable io_init (io_step tid fd owner) (io_store_ready (io_make_loop tid fd ?s))" by (simp add: io_defs)
  from reach_step [OF this io_step.notifies]
  have "reachable io_init (io_step tid fd owner) (io_notify (io_store_ready (io_make_loop tid fd ?s)))" by (simp add: io_defs)
  from reach_step [OF this io_step.ctor_locks]
  have "reachable io_init (io_step tid fd owner) ((io_notify (io_store_ready (io_make_loop tid fd ?s)))\<lparr>io_ctor := CtorChecking\<rparr>)"
    by (simp add: io_defs io_start_def)
  from reach_step [OF this io_step.ctor_returns] show ?thesis by (simp add: io_defs io_start_def io_constructed_def)
qed

text \<open>
  The constructor may return as soon as \<^verbatim>\<open>ready_\<close> is set, before the thread enters \<^verbatim>\<open>loop()\<close>. A
  destructor that runs then has its \<^verbatim>\<open>quit()\<close> cleared by the entry of \<^verbatim>\<open>loop()\<close>, and the join
  waits for a loop that nothing will end.
\<close>

lemma io_quit_lost:
  "\<exists>s :: 'f io_loop_thread. reachable io_init (io_step tid fd owner) s \<and> io_dtor s = QuitCalled \<and> io_thread s = IoLooping \<and>
     (\<nexists>t. io_step tid fd owner s t)"
proof -
  let ?c = "io_constructed tid fd :: 'f io_loop_thread"
  let ?s = "io_enter_loop (io_quit owner ?c)"
  have "io_step tid fd owner ?c (io_quit owner ?c)" by (rule io_step.dtor_quits) (simp_all add: io_constructed_def)
  moreover have "io_step tid fd owner (io_quit owner ?c) ?s"
    by (rule io_step.enters_loop) (simp add: io_quit_def io_constructed_def)
  ultimately have "reachable io_init (io_step tid fd owner) ?s"
    by (meson io_constructed_reachable reach_step)
  moreover have "\<not> io_step tid fd owner ?s t" for t
    by (auto simp: io_defs io_constructed_def elim!: io_stepE)
  ultimately show ?thesis by (intro exI [of _ ?s]) (simp add: io_defs io_constructed_def)
qed

end
