(* ===== verification/Spec2Isabelle.thy ===== *)
theory Spec2Isabelle
  imports Pipelined_Calls Connection_Isolation Examples Call_Contract Registry_Watch Server_Lifetime IO_Loop_Thread
begin

text \<open>
  An RPC framework in C++: a reactor (event loop, poller, channels), TCP connections with
  buffers, a codec that frames messages, a server that runs services on a worker pool, a client
  channel with a reader thread, and a service registry with load balancers over ZooKeeper.
  A client's \<^verbatim>\<open>CallMethod\<close> writes a framed request; the server's loop reads it into a
  connection's buffer, the codec cuts out frames, \<^verbatim>\<open>on_frame\<close> finds the service and hands the call
  to the pool, a worker runs it and queues the reply into the loop, which writes it; the
  client's reader parses the reply and wakes the caller.

  \<^bold>\<open>Theories and sources.\<close>
  \<^item> \<open>Prelude\<close>: word types, byte strings, memory primitives, decimal printing, reachable states
    and the locale \<open>invariant_system\<close> that every concurrent machine below instantiates;
    \<open>refinement_system\<close> extends it with an abstract machine.
  \<^item> \<open>Buffer\<close> (\<^verbatim>\<open>net/buffer\<close>): the record of storage and two indices, one definition per member
    function, \<^verbatim>\<open>readv\<close> a parameter. The locale \<open>byte_queue\<close> is its interface; the class refines a
    queue of bytes.
  \<^item> \<open>Codec\<close> (\<^verbatim>\<open>codec/\<close>): framing on hosts of either byte order. The locale \<open>framing\<close> says what makes
    a frame parser independent of packet boundaries; it is interpreted on the server's parser
    and, in \<open>Rpc_Channel\<close>, on the client's.
  \<^item> \<open>Channel\<close> (\<^verbatim>\<open>net/channel\<close>, \<^verbatim>\<open>net/epoll_poller\<close>): interest masks, the poller's table and the log of
    \<^verbatim>\<open>epoll_ctl\<close> calls, replayed against the call's documented errors.
  \<^item> \<open>Event_Loop\<close> (\<^verbatim>\<open>net/event_loop\<close>): the loop's functions, and the loop with the threads that queue
    into it as a step relation. \<open>IO_Loop_Thread\<close>: the class of that name in \<^verbatim>\<open>tcp_server.cpp\<close>.
  \<^item> \<open>Tcp_Connection\<close> (\<^verbatim>\<open>net/tcp_connection\<close>) and \<open>Tcp_Server\<close> (\<^verbatim>\<open>net/tcp_server\<close>): connections in a
    table of the world record, the server's accept and remove paths, the dispatch of a turn.
    The locales \<open>base_callbacks\<close> and \<open>server_callbacks\<close> state what the layer above must keep, and
    give that no turn fails and that the table is exact.
  \<^item> \<open>Thread_Pool\<close> (\<^verbatim>\<open>net/thread_pool\<close>): workers, submitters and destructor as a step relation at
    the granularity of mutex and condition variable.
  \<^item> \<open>Rpc_Messages\<close> (\<^verbatim>\<open>proto/rpc.proto\<close>, \<^verbatim>\<open>rpc/rpc_controller.h\<close>), \<open>Rpc_Server\<close> (\<^verbatim>\<open>rpc/rpc_server\<close>), which
    interprets the server's locales, and \<open>Rpc_Channel\<close> (\<^verbatim>\<open>rpc/rpc_channel\<close>, \<^verbatim>\<open>rpc/service_proxy.h\<close>), where
    callers, reader and \<^verbatim>\<open>disconnect\<close> interleave. \<open>Call_Contract\<close> gives what a caller may rely on as an
    abstract machine, one state per call, and shows that the client refines it.
  \<^item> \<open>Connection_Isolation\<close>: a calculus of operations that touch one connection only, applied to every handler
    and closure of the server.
  \<^item> \<open>Server_Lifetime\<close>: the constructor of \<^verbatim>\<open>RpcServer\<close> when a system call fails, the destructors of \<^verbatim>\<open>RpcServer\<close>,
    \<^verbatim>\<open>ThreadPool\<close>, \<^verbatim>\<open>TcpServer\<close>, \<^verbatim>\<open>EventLoop\<close>, \<^verbatim>\<open>EpollPoller\<close>, \<^verbatim>\<open>TcpConnection\<close> and \<^verbatim>\<open>Channel\<close> composed in the order C++
    runs them, and the shape of every connection they meet.
  \<^item> \<open>Load_Balancer\<close>, \<open>Zookeeper\<close>, \<open>Service_Registry\<close> (\<^verbatim>\<open>registry/\<close>): the strategies under the locale
    \<open>balancer\<close>; the two implementations of \<^verbatim>\<open>ZooKeeperClient\<close>, the in-memory stub under the locale
    \<open>znodes\<close> and the wrapper of the C client with its watcher, as records of the same operations;
    and the registry over such a record, with the locale \<open>registry_store\<close> for what it needs of it.
  \<^item> \<open>Zoo_Service\<close> writes down what ZooKeeper documents (predicate \<open>zoo_documented\<close>) and the invariant of
    nodes, watches and undelivered events; \<open>Registry_Watch\<close> is the registry on the wrapper, run
    beside other clients of the service as a step relation.
  \<^item> \<open>Examples\<close> (\<^verbatim>\<open>example/\<close>): the hello and calculator services, their clients and the main
    functions, with floating-point arithmetic and the stub's blocking call as parameters.
  \<^item> \<open>Remote_Call\<close> composes client and server for one call; this theory states the properties of that
    path. \<open>Call_Outcomes\<close> says what the fields of a call mean while the client runs. \<open>Call_Session\<close> is the client's
    machine, the server's loop and workers and the bytes in transit as one step relation, with an
    invariant in two halves joined by the two byte streams; \<open>Pipelined_Calls\<close> draws the conclusions for
    any number of concurrent calls.

  \<^bold>\<open>How state and operations are modelled.\<close> A class is a record and a member function a definition
  on it; operations that reach other objects work on a world record that later theories
  extend. \<^const>\<open>None\<close> is a failed assertion, an escaping exception or a dangling pointer, so a result
  \<^const>\<open>Some\<close> is a claim of its own. Sums carry the exceptions the code throws and, in the registry, what
  C++ leaves undefined. Threads are step relations; a step is what happens between two points
  where another thread can intervene.

  \<^bold>\<open>What the lemmas show.\<close> Buffers refine byte queues; the receiving loop refines a scanner of the
  byte stream, whatever the packets; kernel interest list, poller and channels agree; closures
  and tasks run once and in order; output is never lost or reordered on a connection; the
  server answers each request once and never fails, and its connections do not interfere; responses reach the right caller; the
  registry returns what was registered, and on the real client its cache follows what other
  processes register once the events have been delivered; a remote call gives what the service
  computes, also with any number of calls in flight and every interleaving of the threads of both
  sides, and every call that waits on a live connection can complete; the client refines the contract of a call; a server is destroyed without a failed
  assertion and closes each descriptor once, also when its construction fails. Where
  the code loses a notification, a caller or a closure, a theorem exhibits the run.

  \<^bold>\<open>Parameters and bounds.\<close> System calls, random numbers, floating-point arithmetic, protobuf's
  serialisers, the services and the ZooKeeper C client are arguments; the theorems name what
  they use of them: POSIX bounds on \<^verbatim>\<open>read\<close> and \<^verbatim>\<open>write\<close>, the round-trip law of protobuf, the
  interval of a distribution, one-shot child watches and the return codes of ZooKeeper. Loops over buffers are total functions with the unread bytes as
  measure; the event loop, which need not end, runs against a finite script of \<^verbatim>\<open>epoll_wait\<close>
  answers, and the theorems about it are about single turns or reachable states, so the
  length of the script bounds nothing. Request ids are 32-bit words and connection ids
  64-bit words; the theorems assume fewer than \<open>2\<^sup>3\<^sup>2\<close> calls on a channel and that the 64-bit
  counter of connections has not wrapped.

  \<^bold>\<open>Not modelled.\<close> A session of \<open>Call_Session\<close> has one connection and lasts until the server sees it
  close; what the server does from then on is covered by its own theorems. Console output, beyond the values the examples print; socket options; the moment at
  which a \<^verbatim>\<open>shared_ptr\<close> releases its object (the destructors are definitions, and the end of a
  server composes them); weak memory ordering; requests of other ZooKeeper clients in the middle of one
  \<^verbatim>\<open>refresh\<close>; the code protobuf generates; the build files.
\<close>

section \<open>The examples\<close>

text \<open>The hello service over the wire, both methods.\<close>

lemma hello_over_the_wire:
  assumes "client_ready e (env_pb E) req k i u" "server_ready E cid tid w" "protobuf_ok (env_pb E)" "hello_pb_ok B"
    and "ser_request (env_pb E) (request_of req k i) = Some body" "length body \<le> kMaxBodySize"
    and "req k = (''example.HelloService'', meth, ser_hello_req B name)" "meth \<in> {''SayHello'', ''SayBye''}"
    and "rpc_services w ''example.HelloService'' = Some (hello_service B)" "\<not> ctl_failed (pc_controller (rc_calls u k))"
    and "ser_response (env_pb E) (response_of i (controller_new,
          ser_hello_resp B (if meth = ''SayHello'' then SayHello name else SayBye name))) = Some rbody"
    and "length rbody < 2 ^ 32"
    and "pieces chs (request_wire e (env_pb E) (request_of req k i))" "pieces rchs (wire_frame rbody)"
  shows "\<exists>u'. complete_call e E req k i cid tid chs rchs u w u' \<and>
    hello_output B (pc_controller (rc_calls u' k)) (pc_response (rc_calls u' k)) =
      CallResult (if meth = ''SayHello'' then SayHello name else SayBye name)"
proof -
  let ?r = "ser_hello_resp B (if meth = ''SayHello'' then SayHello name else SayBye name)"
  have sv: "svc_find_method (hello_service B) meth" "svc_parse (hello_service B) meth (ser_hello_req B name) = Some name"
    "svc_call (hello_service B) meth name controller_new = Some (controller_new, ?r)"
    using assms(4,8) by (simp_all add: hello_service_def hello_pb_ok_def)
  obtain u' where u': "complete_call e E req k i cid tid chs rchs u w u'"
    "outcome (response_of i (controller_new, ?r)) (rc_calls u k) (rc_calls u' k)"
    using service_call_completes [OF assms(1-3,5-7,9) sv assms(11-14)] by blast
  then have "pc_response (rc_calls u' k) = Some ?r" "pc_controller (rc_calls u' k) = pc_controller (rc_calls u k)"
    by (simp_all add: outcome_def response_of_def controller_new_def)
  then show ?thesis using u'(1) hello_outcome [OF assms(4,10)] by auto
qed

section \<open>Properties\<close>

text \<open>
  C1. A remote call is the local call: the client's and the server's hosts may differ in byte order, TCP
  may cut request and reply into any pieces, and when the server has the service and method
  and the arguments parse, every step from the client's write to its reader succeeds, and the
  call ends with what the service computed: the serialised response, or, if the service
  failed its controller, a failed controller with the service's reason. The call's flag is
  set, and its closure, if it has one, has run once.
\<close>

theorem remote_call_is_local_call:
  assumes "client_ready e (env_pb E) req k i u" "server_ready E cid tid w" "protobuf_ok (env_pb E)"
    and "ser_request (env_pb E) (request_of req k i) = Some body" "length body \<le> kMaxBodySize"
    and "req k = (name, meth, args)" "rpc_services w name = Some service" "svc_find_method service meth"
    and "svc_parse service meth args = Some m" "svc_call service meth m controller_new = Some (ctl, result)"
    and "ser_response (env_pb E) (response_of i (ctl, result)) = Some rbody" "length rbody < 2 ^ 32"
    and "pieces chs (request_wire e (env_pb E) (request_of req k i))" "pieces rchs (wire_frame rbody)"
  shows "\<exists>u'. complete_call e E req k i cid tid chs rchs u w u' \<and> pc_done_flag (rc_calls u' k) \<and>
    pc_done_runs (rc_calls u' k) = (if pc_done (rc_calls u k) then 1 else 0) \<and>
    (if ctl_failed ctl then pc_response (rc_calls u' k) = None \<and>
         pc_controller (rc_calls u' k) = \<lparr>ctl_failed = True, ctl_err_text = ctl_err_text ctl\<rparr>
     else pc_response (rc_calls u' k) = Some result \<and> pc_controller (rc_calls u' k) = pc_controller (rc_calls u k))"
proof -
  obtain u' where "complete_call e E req k i cid tid chs rchs u w u'"
    "outcome (response_of i (ctl, result)) (rc_calls u k) (rc_calls u' k)"
    using service_call_completes [OF assms] by blast
  then show ?thesis
    using ready_facts(3,4) [OF assms(1)] by (intro exI [of _ u']) (auto simp: outcome_def response_of_def error_response_def split: if_splits)
qed

theorem remote_call_is_local_call_witness:
  "\<exists>u'. complete_call LittleEndian far_env demo_req 0 1 1 2
       (in_two (request_wire LittleEndian demo_protobuf (request_of demo_req 0 1)))
       (in_two (wire_frame (the (ser_response demo_protobuf (response_of 1 (controller_new, ''hi''))))))
       demo_registered (demo_rpc []) u' \<and>
     pc_done_flag (rc_calls u' 0) \<and> pc_response (rc_calls u' 0) = Some ''hi''"
proof -
  let ?m = "request_of demo_req 0 1" and ?r = "response_of 1 (controller_new, ''hi'')"
  have b: "ser_request demo_protobuf ?m = Some (demo_body ?m)" "length (demo_body ?m) \<le> kMaxBodySize"
    by (simp_all add: demo_body_def demo_protobuf_def request_of_def demo_req_def put_str_def kMaxBodySize_def)
  obtain rb where rb: "ser_response demo_protobuf ?r = Some rb" "length rb < 2 ^ 32" "5 < length (wire_frame rb)"
    "length (wire_frame rb) \<le> extra_size"
    by (simp add: demo_protobuf_def response_of_def controller_new_def put_str_def wire_frame_def extra_size_def)
  have q: "5 < length (request_wire LittleEndian demo_protobuf ?m)" "length (request_wire LittleEndian demo_protobuf ?m) \<le> extra_size"
    unfolding request_wire_frame [OF b(1)]
    by (simp_all add: wire_frame_def demo_body_def demo_protobuf_def request_of_def demo_req_def
        put_str_def extra_size_def)
  have sv: "rpc_services (demo_rpc []) ''demo.Echo'' = Some echo_service" "svc_find_method echo_service ''Say''"
    "svc_parse echo_service ''Say'' ''hi'' = Some ''hi''"
    "svc_call echo_service ''Say'' ''hi'' controller_new = Some (controller_new, ''hi'')"
    by (simp_all add: demo_rpc_def echo_service_def)
  have "demo_req 0 = (''demo.Echo'', ''Say'', ''hi'')" by (simp add: demo_req_def)
  from remote_call_is_local_call [where E = far_env, unfolded far_env_simps, OF demo_client_ready demo_server_ready demo_protobuf_ok b this sv
      rb(1,2) in_two_pieces [OF q] in_two_pieces [OF rb(3,4)]]
  show ?thesis using rb(1) by (auto simp: controller_new_def)
qed

text \<open>
  C4. An unknown service or method, or arguments that do not parse, come back as a failed controller
  with the server's message, over the same path, and never as a response.
\<close>

theorem remote_call_rejected:
  assumes "client_ready e (env_pb E) req k i u" "server_ready E cid tid w" "protobuf_ok (env_pb E)"
    and "ser_request (env_pb E) (request_of req k i) = Some body" "length body \<le> kMaxBodySize"
    and "req k = (name, meth, args)"
    and "reason = (case rpc_services w name of None \<Rightarrow> ''service not found: '' @ name
      | Some service \<Rightarrow> if svc_find_method service meth then ''failed to parse request args'' else ''method not found: '' @ meth)"
    and "\<nexists>service m. rpc_services w name = Some service \<and> svc_find_method service meth \<and> svc_parse service meth args = Some m"
    and "ser_response (env_pb E) (error_response i reason) = Some rbody" "length rbody < 2 ^ 32"
    and "pieces chs (request_wire e (env_pb E) (request_of req k i))" "pieces rchs (wire_frame rbody)"
  shows "\<exists>u'. complete_call e E req k i cid tid chs rchs u w u' \<and> pc_done_flag (rc_calls u' k) \<and>
    pc_response (rc_calls u' k) = None \<and> pc_controller (rc_calls u' k) = \<lparr>ctl_failed = True, ctl_err_text = reason\<rparr>"
proof -
  note req = request_of_fields(1) request_of_fields(2-4) [of req k, OF assms(6)]
  have p: "parse_request (env_pb E) body = Some (request_of req k i)" using assms(3,4) by (simp add: protobuf_ok_def)
  have "answer E (rpc_services w) body = Some (error_response i reason)"
    using assms(8) unfolding assms(7) by (auto simp: answer_def p req split: option.split)
  moreover have "rs_id (error_response i reason) = i" by (simp add: error_response_def)
  ultimately obtain u' where u': "complete_call e E req k i cid tid chs rchs u w u'"
    "outcome (error_response i reason) (rc_calls u k) (rc_calls u' k)"
    using call_completes [OF assms(1-5) _ _ assms(9-12)] by blast
  then show ?thesis using ready_facts(3) [OF assms(1)] by (auto simp: outcome_def error_response_def)
qed

theorem remote_call_rejected_witness:
  "\<exists>u'. complete_call LittleEndian far_env (\<lambda>k. (''x'', ''Say'', ''hi'')) 0 1 1 2
       (in_two (request_wire LittleEndian demo_protobuf (request_of (\<lambda>k. (''x'', ''Say'', ''hi'')) 0 1)))
       (in_two (wire_frame (the (ser_response demo_protobuf (error_response 1 ''service not found: x'')))))
       demo_registered (demo_rpc []) u' \<and>
     ctl_err_text (pc_controller (rc_calls u' 0)) = ''service not found: x''"
proof -
  let ?m = "request_of (\<lambda>k. (''x'', ''Say'', ''hi'')) 0 1" and ?r = "error_response 1 ''service not found: x''"
  have b: "ser_request demo_protobuf ?m = Some (demo_body ?m)" "length (demo_body ?m) \<le> kMaxBodySize"
    by (simp_all add: demo_body_def demo_protobuf_def request_of_def put_str_def kMaxBodySize_def)
  obtain rb where rb: "ser_response demo_protobuf ?r = Some rb" "length rb < 2 ^ 32" "5 < length (wire_frame rb)"
    "length (wire_frame rb) \<le> extra_size"
    by (simp add: demo_protobuf_def error_response_def put_str_def wire_frame_def extra_size_def)
  have q: "5 < length (request_wire LittleEndian demo_protobuf ?m)" "length (request_wire LittleEndian demo_protobuf ?m) \<le> extra_size"
    unfolding request_wire_frame [OF b(1)]
    by (simp_all add: wire_frame_def demo_body_def demo_protobuf_def request_of_def put_str_def extra_size_def)
  have n: "rpc_services (demo_rpc []) ''x'' = None" by (simp add: demo_rpc_def)
  have "''service not found: x'' = (case rpc_services (demo_rpc []) ''x'' of None \<Rightarrow> ''service not found: '' @ ''x''
      | Some service \<Rightarrow> if svc_find_method service ''Say'' then ''failed to parse request args'' else ''method not found: '' @ ''Say'')"
    "\<nexists>service m. rpc_services (demo_rpc []) ''x'' = Some service \<and> svc_find_method service ''Say'' \<and>
      svc_parse service ''Say'' ''hi'' = Some m"
    by (simp_all add: n)
  from remote_call_rejected [where E = far_env, unfolded far_env_simps, OF demo_client_ready demo_server_ready demo_protobuf_ok b refl this
      rb(1,2) in_two_pieces [OF q] in_two_pieces [OF rb(3,4)]]
  show ?thesis using rb(1) by auto
qed

text \<open>
  C5. The calculator computes over the wire: a call of an operation on the example server, from its
  client's stub to the decision what to print, gives the value of the operation, and a
  division by zero is reported by the service's message, not as a failure of the call.
\<close>

theorem calculator_over_the_wire:
  assumes "client_ready e (env_pb E) req k i u" "server_ready E cid tid w" "protobuf_ok (env_pb E)" "calc_pb_ok B"
    and "ser_request (env_pb E) (request_of req k i) = Some body" "length body \<le> kMaxBodySize"
    and "req k = calc_args B op a b" "rpc_services w ''example.CalcService'' = Some (calc_service A B)"
    and "\<not> ctl_failed (pc_controller (rc_calls u k))"
    and "ser_response (env_pb E) (response_of i (controller_new,
          ser_calc_resp B (calc_method (calc_stub op) A \<lparr>cq_a = a, cq_b = b\<rparr> (calc_response_new A)))) = Some rbody"
    and "length rbody < 2 ^ 32"
    and "pieces chs (request_wire e (env_pb E) (request_of req k i))" "pieces rchs (wire_frame rbody)"
  shows "\<exists>u'. complete_call e E req k i cid tid chs rchs u w u' \<and>
    calc_output A B (pc_controller (rc_calls u' k)) (pc_response (rc_calls u' k)) = calc_value A op a b"
proof -
  let ?r = "ser_calc_resp B (calc_method (calc_stub op) A \<lparr>cq_a = a, cq_b = b\<rparr> (calc_response_new A))"
  have sv: "svc_parse (calc_service A B) (calc_stub op) (ser_calc_req B \<lparr>cq_a = a, cq_b = b\<rparr>) = Some \<lparr>cq_a = a, cq_b = b\<rparr>"
    "svc_call (calc_service A B) (calc_stub op) \<lparr>cq_a = a, cq_b = b\<rparr> controller_new = Some (controller_new, ?r)"
    using assms(4) by (simp_all add: calc_service_def calc_pb_ok_def)
  obtain u' where u': "complete_call e E req k i cid tid chs rchs u w u'"
    "outcome (response_of i (controller_new, ?r)) (rc_calls u k) (rc_calls u' k)"
    using service_call_completes [OF assms(1-3,5,6) assms(7) [unfolded calc_args_def] assms(8) calc_found sv assms(10-13)] by blast
  then have "pc_response (rc_calls u' k) = Some ?r" "pc_controller (rc_calls u' k) = pc_controller (rc_calls u k)"
    by (simp_all add: outcome_def response_of_def controller_new_def)
  then show ?thesis using u'(1) calc_outcome [OF assms(4,9)] by auto
qed

text \<open>A calculator on natural numbers, written in unary.\<close>

definition nat_arith :: "nat arith" where
  "nat_arith = \<lparr>d_add = (+), d_sub = (-), d_mul = (*), d_div = (div), d_eq_zero = (\<lambda>n. n = 0), d_zero = 0\<rparr>"

definition nat_pb :: "nat calc_pb" where
  "nat_pb = \<lparr>ser_calc_req = (\<lambda>m. replicate (cq_a m) CHR ''1'' @ CHR ''0'' # replicate (cq_b m) CHR ''1''),
     parse_calc_req = (\<lambda>s. case get_len s of (a, r) \<Rightarrow> Some \<lparr>cq_a = a, cq_b = length r\<rparr>),
     ser_calc_resp = (\<lambda>m. replicate (cs_result m) CHR ''1'' @ CHR ''0'' # cs_error m),
     parse_calc_resp = (\<lambda>s. case get_len s of (n, r) \<Rightarrow> Some \<lparr>cs_result = n, cs_error = r\<rparr>)\<rparr>"

definition calc_world :: "nat calc_request rpc_world" where
  "calc_world = \<lparr>the_loop = the_loop (demo_rpc []), cur_thread = 1, conns = conns (demo_rpc []), ticks = 0, net_log = [],
     tcp_srv = tcp_srv (demo_rpc []), rpc_services = [''example.CalcService'' \<mapsto> calc_service nat_arith nat_pb],
     worker_pool = thread_pool_new 1, in_flight = Map.empty\<rparr>"

lemma nat_pb_ok: "calc_pb_ok nat_pb"
  by (simp add: calc_pb_ok_def nat_pb_def get_len_put)

lemma calc_world_ready: "server_ready far_env 1 2 calc_world"
  using demo_server_ready
  by (auto simp: server_ready_def calc_world_def open_conn_def out_inv_def is_in_loop_thread_def thread_pool_new_def demo_rpc_def)

theorem calculator_over_the_wire_witness:
  "\<exists>chs rchs u'. complete_call LittleEndian far_env (\<lambda>k. calc_args nat_pb ''Div'' 1 0) 0 1 1 2 chs rchs demo_registered calc_world u' \<and>
     calc_output nat_arith nat_pb (pc_controller (rc_calls u' 0)) (pc_response (rc_calls u' 0)) = CallError ''division by zero''"
proof -
  let ?req = "\<lambda>k. calc_args nat_pb ''Div'' 1 0"
  let ?m = "request_of ?req 0 1"
  let ?r = "response_of 1 (controller_new, ser_calc_resp nat_pb
    (calc_method (calc_stub ''Div'') nat_arith \<lparr>cq_a = 1, cq_b = 0\<rparr> (calc_response_new nat_arith)))"
  have b: "ser_request demo_protobuf ?m = Some (demo_body ?m)" "length (demo_body ?m) \<le> kMaxBodySize"
    by (simp_all add: demo_body_def demo_protobuf_def request_of_def calc_args_def calc_stub_def nat_pb_def put_str_def kMaxBodySize_def)
  obtain rb where rb: "ser_response demo_protobuf ?r = Some rb" "length rb < 2 ^ 32" "5 < length (wire_frame rb)"
    "length (wire_frame rb) \<le> extra_size"
    by (simp add: demo_protobuf_def response_of_def controller_new_def put_str_def wire_frame_def extra_size_def nat_pb_def
        calc_method_def calc_stub_def calc_Div_def nat_arith_def calc_response_new_def)
  have q: "5 < length (request_wire LittleEndian demo_protobuf ?m)" "length (request_wire LittleEndian demo_protobuf ?m) \<le> extra_size"
    unfolding request_wire_frame [OF b(1)]
    by (simp_all add: wire_frame_def demo_body_def demo_protobuf_def request_of_def calc_args_def calc_stub_def nat_pb_def
        put_str_def extra_size_def)
  have s: "rpc_services calc_world ''example.CalcService'' = Some (calc_service nat_arith nat_pb)" by (simp add: calc_world_def)
  have f: "\<not> ctl_failed (pc_controller (rc_calls demo_registered 0))"
    by (simp add: demo_registered_def call_register_def call_start_def set_pc_def is_connected_def demo_channel_def
        channel_connect_def demo_calls_def rpc_channel_new_def call_new_def controller_new_def Let_def)
  from calculator_over_the_wire [where E = far_env, unfolded far_env_simps, OF demo_client_ready calc_world_ready demo_protobuf_ok nat_pb_ok b refl s f
      rb(1,2) in_two_pieces [OF q] in_two_pieces [OF rb(3,4)]]
  show ?thesis by (auto simp: calc_value_def nat_arith_def)
qed

end
